(* ===== verification/Prelude.thy ===== *)
theory Prelude
  imports Main "HOL-Library.Word"
begin

text \<open>
  Shared vocabulary of the development: the machine integer types of the C sources, byte
  buffers and in-place writes to them, big- and little-endian access to 32-bit words in a byte
  buffer, bit rotation, and the generic lemmas on lists and words that the component theories
  use.  Nothing here models a particular file of the repository.
\<close>

unbundle bit_operations_syntax

section \<open>Machine types\<close>

type_synonym byte = "8 word"
type_synonym u32 = "32 word"
type_synonym u64 = "64 word"

text \<open>
  Three collections carry the automation: \<open>bytes_simps\<close> for byte/word conversions,
  \<open>buffer_simps\<close> for in-place writes, and \<open>step_simps\<close> for symbolic execution of
  straight-line code.
\<close>

named_theorems bytes_simps \<open>conversion between byte buffers and machine words\<close>
named_theorems buffer_simps \<open>length and content of buffers after a write\<close>
named_theorems step_simps \<open>symbolic execution of straight-line code\<close>

text \<open>C's integer division, which truncates towards zero.\<close>

definition cdiv :: "int \<Rightarrow> int \<Rightarrow> int" where
  "cdiv a b = sgn a * sgn b * (\<bar>a\<bar> div \<bar>b\<bar>)"

section \<open>Rotation\<close>

definition rotl32 :: "nat \<Rightarrow> u32 \<Rightarrow> u32" where
  "rotl32 n x = (push_bit n x OR drop_bit (32 - n) x)"

lemma rotl32_bit:
  assumes "n < 32" "i < 32"
  shows "bit (rotl32 n x) i = bit x (if n \<le> i then i - n else i + 32 - n)"
  using assms
  by (auto simp: rotl32_def bit_simps not_le algebra_simps
      dest: bit_imp_le_length intro: arg_cong [of _ _ "bit x"])

lemma bit_nat_high:
  assumes "(x::nat) < 2 ^ k" "k \<le> n"
  shows "\<not> bit x n"
proof -
  have "take_bit k x = x" using assms(1) by (simp add: take_bit_nat_eq_self)
  then have "bit x n \<Longrightarrow> n < k" by (metis bit_take_bit_iff)
  with assms(2) show ?thesis by auto
qed

lemma mod_add_multiple:
  assumes "b mod n = 0" "r < n"
  shows "(b + r) mod n = (r :: nat)"
proof -
  have "(b + r) mod n = (b mod n + r) mod n" by (rule mod_add_left_eq [symmetric])
  with assms show ?thesis by simp
qed

section \<open>Buffers\<close>

definition overwrite :: "nat \<Rightarrow> 'a list \<Rightarrow> 'a list \<Rightarrow> 'a list" where
  "overwrite off bs buf = take off buf @ bs @ drop (off + length bs) buf"

lemma length_overwrite [simp]:
  "off + length bs \<le> length buf \<Longrightarrow> length (overwrite off bs buf) = length buf"
  by (simp add: overwrite_def)

lemma nth_overwrite [buffer_simps]:
  assumes "off + length bs \<le> length buf" "i < length buf"
  shows "overwrite off bs buf ! i =
    (if i < off then buf ! i else if i < off + length bs then bs ! (i - off) else buf ! i)"
  using assms by (auto simp: overwrite_def nth_append)

lemma take_overwrite [buffer_simps]:
  assumes "off + length bs \<le> length buf" "n \<le> off"
  shows "take n (overwrite off bs buf) = take n buf"
  using assms by (simp add: overwrite_def)

lemma drop_overwrite [buffer_simps]:
  assumes "off + length bs \<le> length buf" "off + length bs \<le> n"
  shows "drop n (overwrite off bs buf) = drop n buf"
  using assms by (simp add: overwrite_def min_def drop_append)

section \<open>Words in byte buffers\<close>

definition be32 :: "byte list \<Rightarrow> u32" where
  "be32 bs = (push_bit 24 (ucast (bs ! 0)) OR push_bit 16 (ucast (bs ! 1)) OR
              push_bit 8 (ucast (bs ! 2)) OR ucast (bs ! 3))"

definition le32 :: "byte list \<Rightarrow> u32" where
  "le32 bs = (ucast (bs ! 0) OR push_bit 8 (ucast (bs ! 1)) OR
              push_bit 16 (ucast (bs ! 2)) OR push_bit 24 (ucast (bs ! 3)))"

definition bytes_be32 :: "u32 \<Rightarrow> byte list" where
  "bytes_be32 x = [ucast (drop_bit 24 x), ucast (drop_bit 16 x), ucast (drop_bit 8 x), ucast x]"

definition bytes_le32 :: "u32 \<Rightarrow> byte list" where
  "bytes_le32 x = [ucast x, ucast (drop_bit 8 x), ucast (drop_bit 16 x), ucast (drop_bit 24 x)]"

definition bswap32 :: "u32 \<Rightarrow> u32" where
  "bswap32 x = be32 (bytes_le32 x)"

lemma length_bytes_be32 [simp]: "length (bytes_be32 x) = 4"
  by (simp add: bytes_be32_def)

lemma length_bytes_le32 [simp]: "length (bytes_le32 x) = 4"
  by (simp add: bytes_le32_def)

lemma nth4_cases: "(i::nat) < 4 \<Longrightarrow> i = 0 \<or> i = 1 \<or> i = 2 \<or> i = 3"
  by arith

lemma list4_eq: "length xs = 4 \<Longrightarrow> xs = [xs ! 0, xs ! 1, xs ! 2, xs ! 3]"
  by (rule nth_equalityI) (auto dest!: nth4_cases)

lemma byte_position:
  assumes "(n::nat) < 32"
  obtains k where "k < 8" "n = k \<or> n = 8 + k \<or> n = 16 + k \<or> n = 24 + k"
proof -
  consider "n < 8" | "8 \<le> n" "n < 16" | "16 \<le> n" "n < 24" | "24 \<le> n" "n < 32"
    using assms by linarith
  then show ?thesis
    using that [of n] that [of "n - 8"] that [of "n - 16"] that [of "n - 24"] by cases auto
qed

lemma bit_be32 [bytes_simps]:
  assumes "k < 8"
  shows "bit (be32 bs) k = bit (bs ! 3) k" "bit (be32 bs) (8 + k) = bit (bs ! 2) k"
    "bit (be32 bs) (16 + k) = bit (bs ! 1) k" "bit (be32 bs) (24 + k) = bit (bs ! 0) k"
  using assms by (auto simp: be32_def bit_simps dest: bit_imp_le_length)

lemma bit_le32 [bytes_simps]:
  assumes "k < 8"
  shows "bit (le32 bs) k = bit (bs ! 0) k" "bit (le32 bs) (8 + k) = bit (bs ! 1) k"
    "bit (le32 bs) (16 + k) = bit (bs ! 2) k" "bit (le32 bs) (24 + k) = bit (bs ! 3) k"
  using assms by (auto simp: le32_def bit_simps dest: bit_imp_le_length)

lemma bit_bytes32 [bytes_simps]:
  assumes "k < 8"
  shows "bit (bytes_be32 x ! 0) k = bit x (24 + k)" "bit (bytes_be32 x ! Suc 0) k = bit x (16 + k)"
    "bit (bytes_be32 x ! 2) k = bit x (8 + k)" "bit (bytes_be32 x ! 3) k = bit x k"
    "bit (bytes_le32 x ! 0) k = bit x k" "bit (bytes_le32 x ! Suc 0) k = bit x (8 + k)"
    "bit (bytes_le32 x ! 2) k = bit x (16 + k)" "bit (bytes_le32 x ! 3) k = bit x (24 + k)"
  using assms by (simp_all add: bytes_be32_def bytes_le32_def bit_simps)

lemma word32_eqI:
  assumes "\<And>k. k < 8 \<Longrightarrow> bit x k = bit y k \<and> bit x (8 + k) = bit y (8 + k) \<and>
    bit x (16 + k) = bit y (16 + k) \<and> bit x (24 + k) = bit y (24 + k)"
  shows "(x :: u32) = y"
proof (rule bit_word_eqI)
  fix n assume "n < LENGTH(32)"
  then have "n < 32" by simp
  then obtain k where "k < 8" "n = k \<or> n = 8 + k \<or> n = 16 + k \<or> n = 24 + k"
    by (rule byte_position)
  with assms [of k] show "bit x n = bit y n" by auto
qed

lemma be32_bytes_be32 [simp]: "be32 (bytes_be32 x) = x"
  by (rule word32_eqI) (simp add: bytes_simps)

lemma le32_bytes_le32 [simp]: "le32 (bytes_le32 x) = x"
  by (rule word32_eqI) (simp add: bytes_simps)

lemma bswap32_le32: "bswap32 (le32 bs) = be32 bs"
  unfolding bswap32_def by (rule word32_eqI) (simp add: bytes_simps)

lemma bswap32_bswap32 [simp]: "bswap32 (bswap32 x) = x"
  unfolding bswap32_def by (rule word32_eqI) (simp add: bytes_simps)

lemma be32_bytes_le32_bswap32 [simp]: "be32 (bytes_le32 (bswap32 x)) = x"
  by (metis bswap32_def bswap32_bswap32)

lemma bytes_be32_be32:
  assumes "length bs = 4"
  shows "bytes_be32 (be32 bs) = bs"
proof (rule nth_equalityI)
  show "length (bytes_be32 (be32 bs)) = length bs" using assms by simp
  fix i assume "i < length (bytes_be32 (be32 bs))"
  then have "i = 0 \<or> i = 1 \<or> i = 2 \<or> i = 3" using nth4_cases by simp
  then show "bytes_be32 (be32 bs) ! i = bs ! i"
    by (elim disjE; simp; intro bit_word_eqI; simp add: bytes_simps)
qed

lemma bytes_le32_bswap32: "bytes_le32 (bswap32 x) = bytes_be32 x"
  by (metis be32_bytes_le32_bswap32 bytes_be32_be32 length_bytes_le32)

section \<open>Chunks of a byte buffer\<close>

fun chunks :: "nat \<Rightarrow> 'a list \<Rightarrow> 'a list list" where
  "chunks n xs = (if n = 0 \<or> xs = [] then [] else take n xs # chunks n (drop n xs))"

declare chunks.simps [simp del]

lemma chunks_Nil [simp]: "chunks n [] = []"
  by (simp add: chunks.simps)

lemma chunks_step: "0 < n \<Longrightarrow> xs \<noteq> [] \<Longrightarrow> chunks n xs = take n xs # chunks n (drop n xs)"
  by (subst chunks.simps) simp

lemma chunks_append:
  assumes "0 < n" "length xs mod n = 0"
  shows "chunks n (xs @ ys) = chunks n xs @ chunks n ys"
  using assms
proof (induction "length xs div n" arbitrary: xs)
  case 0
  then have "xs = []" using div_mult_mod_eq [of "length xs" n] by simp
  then show ?case by simp
next
  case (Suc k)
  then have len: "n \<le> length xs" using div_less [of "length xs" n] by linarith
  with Suc.prems have ne: "xs \<noteq> []" by auto
  have "length (drop n xs) div n = k" "length (drop n xs) mod n = 0"
    using Suc.hyps(2) Suc.prems len by (simp_all add: le_div_geq le_mod_geq)
  with Suc.hyps(1) [of "drop n xs"] Suc.prems(1)
  have "chunks n (drop n xs @ ys) = chunks n (drop n xs) @ chunks n ys" by simp
  with ne len Suc.prems(1) show ?case
    by (simp add: chunks_step [of n xs] chunks_step [of n "xs @ ys"])
qed

lemma chunks_single: "0 < n \<Longrightarrow> length xs = n \<Longrightarrow> chunks n xs = [xs]"
  by (cases "xs = []") (auto simp: chunks_step [of n xs])

lemma length_chunk:
  assumes "0 < n" "length xs mod n = 0" "c \<in> set (chunks n xs)"
  shows "length c = n"
  using assms
proof (induction n xs rule: chunks.induct)
  case (1 n xs)
  then have ne: "xs \<noteq> []" by auto
  with 1 have len: "n \<le> length xs" by (metis length_0_conv mod_less not_le)
  have "length (drop n xs) mod n = 0" using 1 len by (simp add: le_mod_geq)
  with 1 ne len show ?case by (auto simp: chunks_step [of n xs])
qed

lemma chunks_shape:
  assumes "length xs = n * k" "0 < n"
  shows "length (chunks n xs) = k \<and> (\<forall>i < k. chunks n xs ! i = take n (drop (n * i) xs))"
  using assms(1)
proof (induction k arbitrary: xs)
  case 0
  then show ?case by simp
next
  case (Suc k)
  then have "xs \<noteq> []" using assms(2) by auto
  with assms(2) have eq: "chunks n xs = take n xs # chunks n (drop n xs)"
    by (rule chunks_step)
  from Suc.prems have "length (drop n xs) = n * k" by simp
  from Suc.IH [OF this] show ?case unfolding eq
    by (auto simp: nth_Cons add.commute split: nat.splits)
qed

lemma length_chunks: "length xs = n * k \<Longrightarrow> 0 < n \<Longrightarrow> length (chunks n xs) = k"
  using chunks_shape by blast

lemma nth_chunks:
  "length xs = n * k \<Longrightarrow> 0 < n \<Longrightarrow> i < k \<Longrightarrow> chunks n xs ! i = take n (drop (n * i) xs)"
  using chunks_shape by blast

definition words_be :: "byte list \<Rightarrow> u32 list" where
  "words_be bs = map be32 (chunks 4 bs)"

lemma length_words_be: "length bs = 4 * k \<Longrightarrow> length (words_be bs) = k"
  by (simp add: words_be_def length_chunks [of bs 4 k])

lemma nth_words_be:
  "length bs = 4 * k \<Longrightarrow> i < k \<Longrightarrow> words_be bs ! i = be32 (take 4 (drop (4 * i) bs))"
  by (simp add: words_be_def length_chunks [of bs 4 k] nth_chunks [of bs 4 k])

section \<open>Self-delimiting encodings\<close>

text \<open>
  The interface of an encoder and a decoder that reads one item from the front of a buffer, and the
  loop that reads items as long as there is one.
\<close>

function decode_while :: "('b list \<Rightarrow> ('a \<times> 'b list) option) \<Rightarrow> 'b list \<Rightarrow> 'a list \<times> 'b list" where
  "decode_while decode bs =
     (case decode bs of
        None \<Rightarrow> ([], bs)
      | Some (a, rest) \<Rightarrow>
          (if length rest < length bs then let (as, rest') = decode_while decode rest in (a # as, rest')
           else ([], bs)))"
  by pat_completeness auto
termination by (relation "measure (\<lambda>(decode, bs). length bs)") auto

declare decode_while.simps [simp del]

locale prefix_codec =
  fixes valid :: "'a \<Rightarrow> bool"
    and encode :: "'a \<Rightarrow> 'b list"
    and decode :: "'b list \<Rightarrow> ('a \<times> 'b list) option"
  assumes decode_encode: "valid a \<Longrightarrow> decode (encode a @ rest) = Some (a, rest)"
    and encode_nonempty: "encode a \<noteq> []"
begin

lemma decode_while_encoded:
  assumes "\<forall>a \<in> set as. valid a" "decode rest = None"
  shows "decode_while decode (concat (map encode as) @ rest) = (as, rest)"
  using assms(1)
proof (induction as)
  case Nil
  then show ?case using assms(2) by (simp add: decode_while.simps)
next
  case (Cons a as)
  then show ?case
    using decode_encode [of a "concat (map encode as) @ rest"] encode_nonempty [of a]
    by (simp add: decode_while.simps [of decode "encode a @ concat (map encode as) @ rest"])
qed

lemma encode_inj: "valid a \<Longrightarrow> valid b \<Longrightarrow> encode a @ r = encode b @ s \<Longrightarrow> a = b \<and> r = s"
  by (metis decode_encode option.inject prod.inject)

end

section \<open>Comparisons\<close>

text \<open>What the queue and the sort rely on: a strict weak order.\<close>

locale strict_weak =
  fixes lt :: "'a \<Rightarrow> 'a \<Rightarrow> bool"
  assumes asym: "lt a b \<Longrightarrow> \<not> lt b a"
    and neg_trans: "\<not> lt a b \<Longrightarrow> \<not> lt b c \<Longrightarrow> \<not> lt a c"
begin

lemma lt_trans: "lt a b \<Longrightarrow> lt b c \<Longrightarrow> lt a c"
  using asym neg_trans by blast

end

end
