(* ===== verification/Sha1_Spec.thy ===== *)
theory Sha1_Spec
  imports Prelude
begin

text \<open>
  The abstract specification of SHA-1 (FIPS 180-4) that the three implementations of the
  repository are compared with: the CUDA kernel (\<open>level1/src/sha1.cu\<close>), libgit2's
  \<open>hash_generic.c\<close> and, as an interface, the OpenSSL calls of the hashers.  Only the digest
  struct is taken from a source file (\<open>level1/src/sha1.h\<close>); the rest is the standard.
  The message schedule is stated as the recurrence of the standard, and \<open>window\<close> is the
  circular 16-word buffer that both implementations keep instead of it.
\<close>

section \<open>The standard\<close>

record hash_digest =
  h0 :: u32
  h1 :: u32
  h2 :: u32
  h3 :: u32
  h4 :: u32

type_synonym regs = "u32 \<times> u32 \<times> u32 \<times> u32 \<times> u32"

definition sha_f :: "nat \<Rightarrow> u32 \<Rightarrow> u32 \<Rightarrow> u32 \<Rightarrow> u32" where
  "sha_f t b c d =
     (if t < 20 then (b AND c) OR (NOT b AND d)
      else if t < 40 then b XOR c XOR d
      else if t < 60 then (b AND c) OR (b AND d) OR (c AND d)
      else b XOR c XOR d)"

definition sha_k :: "nat \<Rightarrow> u32" where
  "sha_k t = (if t < 20 then 0x5A827999 else if t < 40 then 0x6ED9EBA1
              else if t < 60 then 0x8F1BBCDC else 0xCA62C1D6)"

fun sched :: "u32 list \<Rightarrow> nat \<Rightarrow> u32" where
  "sched m t = (if t < 16 then m ! t
     else rotl32 1 (sched m (t - 3) XOR sched m (t - 8) XOR sched m (t - 14) XOR sched m (t - 16)))"

declare sched.simps [simp del]

definition sha_round :: "nat \<Rightarrow> u32 \<Rightarrow> regs \<Rightarrow> regs" where
  "sha_round t w = (\<lambda>(a, b, c, d, e).
     (rotl32 5 a + sha_f t b c d + e + sha_k t + w, a, rotl32 30 b, c, d))"

primrec sha_rounds :: "u32 list \<Rightarrow> regs \<Rightarrow> nat \<Rightarrow> regs" where
  "sha_rounds m r 0 = r"
| "sha_rounds m r (Suc t) = sha_round t (sched m t) (sha_rounds m r t)"

definition regs_of :: "hash_digest \<Rightarrow> regs" where
  "regs_of h = (h0 h, h1 h, h2 h, h3 h, h4 h)"

definition add_regs :: "hash_digest \<Rightarrow> regs \<Rightarrow> hash_digest" where
  "add_regs h = (\<lambda>(a, b, c, d, e).
     \<lparr>h0 = h0 h + a, h1 = h1 h + b, h2 = h2 h + c, h3 = h3 h + d, h4 = h4 h + e\<rparr>)"

definition sha_compress :: "hash_digest \<Rightarrow> u32 list \<Rightarrow> hash_digest" where
  "sha_compress h m = add_regs h (sha_rounds m (regs_of h) 80)"

definition sha_init :: hash_digest where
  "sha_init = \<lparr>h0 = 0x67452301, h1 = 0xEFCDAB89, h2 = 0x98BADCFE, h3 = 0x10325476,
               h4 = 0xC3D2E1F0\<rparr>"

definition sha_absorb :: "hash_digest \<Rightarrow> byte list \<Rightarrow> hash_digest" where
  "sha_absorb h bs = foldl sha_compress h (map words_be (chunks 64 bs))"

definition bytes_be64 :: "u64 \<Rightarrow> byte list" where
  "bytes_be64 x = bytes_be32 (ucast (drop_bit 32 x)) @ bytes_be32 (ucast x)"

definition sha_padding :: "nat \<Rightarrow> byte list" where
  "sha_padding n = [0x80] @ replicate ((119 - n mod 64) mod 64) 0 @ bytes_be64 (of_nat (8 * n))"

definition digest_bytes :: "hash_digest \<Rightarrow> byte list" where
  "digest_bytes h = bytes_be32 (h0 h) @ bytes_be32 (h1 h) @ bytes_be32 (h2 h) @
     bytes_be32 (h3 h) @ bytes_be32 (h4 h)"

definition sha_state :: "byte list \<Rightarrow> hash_digest" where
  "sha_state msg = sha_absorb sha_init (msg @ sha_padding (length msg))"

definition sha1 :: "byte list \<Rightarrow> byte list" where
  "sha1 msg = digest_bytes (sha_state msg)"

section \<open>Facts about the standard\<close>

lemma length_digest_bytes [simp]: "length (digest_bytes h) = 20"
  by (simp add: digest_bytes_def)

lemma length_sha1 [simp]: "length (sha1 msg) = 20"
  by (simp add: sha1_def)

lemma length_bytes_be64 [simp]: "length (bytes_be64 x) = 8"
  by (simp add: bytes_be64_def)

lemma length_sha_padding: "length (sha_padding n) = 9 + (119 - n mod 64) mod 64"
  by (simp add: sha_padding_def)

lemma padded_length: "(n + length (sha_padding n)) mod 64 = 0"
proof -
  obtain q r where n: "n = 64 * q + r" "r < 64"
    by (metis mod_less_divisor mult_div_mod_eq zero_less_numeral)
  then have r: "n mod 64 = r" by simp
  have "(119 - r) mod 64 = (if r < 56 then 55 - r else 119 - r)"
    using n(2) by (auto simp: mod_if)
  with n r show ?thesis
    by (auto simp: length_sha_padding split: if_splits)
qed

lemma sha_absorb_Nil [simp]: "sha_absorb h [] = h"
  by (simp add: sha_absorb_def)

lemma sha_absorb_append:
  "length xs mod 64 = 0 \<Longrightarrow> sha_absorb h (xs @ ys) = sha_absorb (sha_absorb h xs) ys"
  by (simp add: sha_absorb_def chunks_append)

lemma sha_absorb_block: "length b = 64 \<Longrightarrow> sha_absorb h b = sha_compress h (words_be b)"
  by (simp add: sha_absorb_def chunks_single)

lemma sched_rec:
  "16 \<le> t \<Longrightarrow> sched m t =
     rotl32 1 (sched m (t - 3) XOR sched m (t - 8) XOR sched m (t - 14) XOR sched m (t - 16))"
  by (subst sched.simps) simp

lemma sched_small: "t < 16 \<Longrightarrow> sched m t = m ! t"
  by (subst sched.simps) simp

section \<open>The circular message schedule\<close>

text \<open>
  \<open>window m t\<close> is the 16-word buffer that holds the schedule words \<open>t\<close> to \<open>t + 15\<close>,
  word \<open>s\<close> in slot \<open>s mod 16\<close>.
\<close>

definition window :: "u32 list \<Rightarrow> nat \<Rightarrow> u32 list" where
  "window m t = map (\<lambda>j. sched m (t + (j + 16 - t mod 16) mod 16)) [0..<16]"

lemma length_window [simp]: "length (window m t) = 16"
  by (simp add: window_def)

lemma slot_offset:
  assumes "i < (16::nat)"
  shows "((t + i) mod 16 + 16 - t mod 16) mod 16 = i"
proof (cases "t mod 16 + i < 16")
  case True
  then have "(t + i) mod 16 = t mod 16 + i" by (metis mod_add_left_eq mod_less)
  with assms show ?thesis by simp
next
  case False
  have lt: "t mod 16 < 16" by simp
  have "(t + i) mod 16 = (t mod 16 + i) mod 16" by (rule mod_add_left_eq [symmetric])
  also have "\<dots> = (t mod 16 + i - 16) mod 16"
    using False by (intro le_mod_geq) linarith
  also have "\<dots> = t mod 16 + i - 16"
    using False assms lt by (intro mod_less) linarith
  finally have "(t + i) mod 16 + 16 - t mod 16 = i" using False by linarith
  then show ?thesis using assms by simp
qed

lemma nth_window:
  assumes "i < 16"
  shows "window m t ! ((t + i) mod 16) = sched m (t + i)"
  using slot_offset [OF assms, of t] by (simp add: window_def)

lemma window_eqI:
  assumes "length xs = 16" "\<And>i. i < 16 \<Longrightarrow> xs ! ((t + i) mod 16) = sched m (t + i)"
  shows "xs = window m t"
proof (rule nth_equalityI)
  show "length xs = length (window m t)" using assms(1) by simp
  fix j assume "j < length xs"
  then have j: "j < 16" using assms(1) by simp
  define i where "i = (j + 16 - t mod 16) mod 16"
  have "i < 16" by (simp add: i_def)
  moreover have "(t + i) mod 16 = j"
  proof -
    have "t mod 16 \<le> j + 16" using mod_less_divisor [of 16 t] by linarith
    have "(t + i) mod 16 = (t mod 16 + (j + 16 - t mod 16)) mod 16"
      unfolding i_def by (metis mod_add_eq mod_mod_trivial)
    also have "\<dots> = (j + 16) mod 16" using \<open>t mod 16 \<le> j + 16\<close> by simp
    finally show ?thesis using j by simp
  qed
  ultimately show "xs ! j = window m t ! j"
    using assms(2) [of i] nth_window [of i m t] by simp
qed

lemma window_Suc: "window m (Suc t) = (window m t)[t mod 16 := sched m (t + 16)]"
proof (rule sym, rule window_eqI)
  show "length ((window m t)[t mod 16 := sched m (t + 16)]) = 16" by simp
  fix i :: nat assume i: "i < 16"
  show "(window m t)[t mod 16 := sched m (t + 16)] ! ((Suc t + i) mod 16) = sched m (Suc t + i)"
  proof (cases "i = 15")
    case True
    then have "(Suc t + i) mod 16 = t mod 16" by simp
    with True show ?thesis by (simp add: add.commute)
  next
    case False
    with i have lt: "Suc i < 16" by simp
    have "(t + Suc i) mod 16 \<noteq> t mod 16"
      using slot_offset [OF lt, of t] slot_offset [of 0 t] by auto
    with nth_window [OF lt, of m t] show ?thesis by simp
  qed
qed

lemma window_0: "length m = 16 \<Longrightarrow> window m 0 = m"
  by (rule sym, rule window_eqI) (auto simp: sched_small)

lemma sched_from_window:
  "sched m (t + 16) = rotl32 1 (window m t ! ((t + 13) mod 16) XOR window m t ! ((t + 8) mod 16) XOR
     window m t ! ((t + 2) mod 16) XOR window m t ! (t mod 16))"
  using nth_window [of 13 m t] nth_window [of 8 m t] nth_window [of 2 m t] nth_window [of 0 m t]
  by (simp add: sched_rec add.commute)

section \<open>Interfaces\<close>

text \<open>
  An implementation of the compression function on 64-byte blocks, as the block loop of a
  streaming hash uses it.
\<close>

locale sha1_block =
  fixes block :: "hash_digest \<Rightarrow> byte list \<Rightarrow> hash_digest"
  assumes block_compress: "length b = 64 \<Longrightarrow> block h b = sha_compress h (words_be b)"
begin

lemma block_absorb: "length b = 64 \<Longrightarrow> block h b = sha_absorb h b"
  by (simp add: block_compress sha_absorb_block)

lemma absorb_blocks:
  assumes "length bs mod 64 = 0"
  shows "foldl block h (chunks 64 bs) = sha_absorb h bs"
proof -
  have "length c = 64" if "c \<in> set (chunks 64 bs)" for c
    using length_chunk [of 64 bs c] assms that by simp
  then show ?thesis unfolding sha_absorb_def foldl_map
    by (intro foldl_cong) (auto simp: block_compress)
qed

end

text \<open>
  A streaming SHA-1 as the hashers use it: after an initialisation and one update with whole
  blocks, the five state words.  The hashers call OpenSSL's \<open>SHA1_Init\<close> and
  \<open>SHA1_Update\<close>, which are not part of the repository; libgit2's own implementation provides
  the same interface.
\<close>

locale sha1_stream =
  fixes midstate :: "byte list \<Rightarrow> hash_digest"
  assumes midstate_absorb: "length bs mod 64 = 0 \<Longrightarrow> midstate bs = sha_absorb sha_init bs"
begin

lemma finish_from_midstate:
  assumes "length bs mod 64 = 0" "length b = 64"
    and "bs @ b = m @ sha_padding (length m)"
  shows "sha_compress (midstate bs) (words_be b) = sha_state m"
  using assms
  by (simp add: sha_state_def midstate_absorb sha_absorb_append sha_absorb_block flip: assms(3))

end

end
