(* ===== verification/Sha1_Vectors.thy ===== *)
theory Sha1_Vectors
  imports Sha1_Spec
begin

text \<open>
  Evaluation of the compression function on concrete blocks.  \<open>extend_words\<close> computes the message
  schedule from its last 16 words and \<open>run_rounds\<close> the rounds over a list of schedule words; both
  are shown equal to the definitions of the standard, and their congruence rules keep the
  simplifier away from the words that are already evaluated.  The vectors are the three all-zero
  blocks that start the sample commit buffer, and its last block with a nonce for which the first
  36 bits of the digest are zero.
\<close>

section \<open>An evaluation strategy\<close>

primrec extend_words :: "nat \<Rightarrow> u32 \<Rightarrow> u32 list \<Rightarrow> u32 list" where
  "extend_words 0 x ws = x # ws"
| "extend_words (Suc n) x ws = extend_words n (rotl32 1 (ws ! 1 XOR ws ! 6 XOR ws ! 12 XOR ws ! 14)) (x # ws)"

fun run_rounds :: "nat \<Rightarrow> u32 list \<Rightarrow> regs \<Rightarrow> regs" where
  "run_rounds t [] r = r"
| "run_rounds t (w # ws) r = run_rounds (Suc t) ws (sha_round t w r)"

lemma sched_rev:
  assumes "j < t"
  shows "rev (map (sched m) [0..<t]) ! j = sched m (t - Suc j)"
  using assms by (simp add: rev_nth)

lemma extend_sched:
  assumes "16 \<le> t" "rev (map (sched m) [0..<t]) = x # ws"
  shows "extend_words n x ws = rev (map (sched m) [0..<t + n])"
  using assms
proof (induction n arbitrary: t x ws)
  case 0
  then show ?case by simp
next
  case (Suc n)
  have "ws ! j = sched m (t - Suc (Suc j))" if "Suc j < t" for j
    using sched_rev [OF that, of m] unfolding Suc.prems(2) by simp
  then have "extend_words (Suc n) x ws = extend_words n (sched m t) (x # ws)"
    using Suc.prems(1) sched_rec [OF Suc.prems(1), of m] by (simp add: numeral_eq_Suc)
  also have "\<dots> = rev (map (sched m) [0..<Suc t + n])"
    by (rule Suc.IH) (use Suc.prems in auto)
  finally show ?case by simp
qed

lemma run_rounds_append: "run_rounds t (us @ vs) r = run_rounds (t + length us) vs (run_rounds t us r)"
  by (induction t us r rule: run_rounds.induct) simp_all

lemma run_rounds_sched: "run_rounds 0 (map (sched m) [0..<t]) r = sha_rounds m r t"
  by (induction t) (simp_all add: run_rounds_append)

lemma sha_compress_eval:
  assumes "length m = 16" "rev m = x # ws"
  shows "sha_compress h m = add_regs h (run_rounds 0 (rev (extend_words 64 x ws)) (regs_of h))"
proof -
  have "map (sched m) [0..<16] = m"
    by (rule nth_equalityI) (simp_all add: assms(1) sched_small)
  then have "rev (map (sched m) [0..<16]) = x # ws" using assms(2) by simp
  from extend_sched [OF _ this, of 64] show ?thesis
    by (simp add: sha_compress_def run_rounds_sched rev_map)
qed

lemma extend_cong: "n = n' \<Longrightarrow> x = x' \<Longrightarrow> extend_words n x ws = extend_words n' x' ws"
  by simp

lemma extend_numeral:
  "extend_words (numeral k) x (w1 # w2 # w3 # w4 # w5 # w6 # w7 # w8 # w9 # w10 # w11 # w12 # w13 # w14 # w15 # ws) =
     extend_words (pred_numeral k) (rotl32 1 (w2 XOR w7 XOR w13 XOR w15))
       (x # w1 # w2 # w3 # w4 # w5 # w6 # w7 # w8 # w9 # w10 # w11 # w12 # w13 # w14 # w15 # ws)"
  by (simp add: numeral_eq_Suc)

lemma run_rounds_cong: "t = t' \<Longrightarrow> r = r' \<Longrightarrow> run_rounds t ws r = run_rounds t' ws r'"
  by simp

lemma run_rounds_step:
  "run_rounds t (w # ws) (a, b, c, d, e) =
   run_rounds (Suc t) ws (rotl32 5 a + sha_f t b c d + e + sha_k t + w, a, rotl32 30 b, c, d)"
  by (simp add: sha_round_def)

lemma extend_one:
  "extend_words (Suc 0) x (w1 # w2 # w3 # w4 # w5 # w6 # w7 # w8 # w9 # w10 # w11 # w12 # w13 # w14 # w15 # ws) =
     rotl32 1 (w2 XOR w7 XOR w13 XOR w15) #
       x # w1 # w2 # w3 # w4 # w5 # w6 # w7 # w8 # w9 # w10 # w11 # w12 # w13 # w14 # w15 # ws"
  by simp

text \<open>A rotation that keeps the numerals below \<open>2 ^ 32\<close>.\<close>

lemma rotl32_eval: "n \<le> 32 \<Longrightarrow> rotl32 n x = push_bit n (take_bit (32 - n) x) OR drop_bit (32 - n) x"
  by (rule bit_word_eqI) (auto simp: rotl32_def bit_simps)

lemmas eval_schedule = extend_numeral extend_one extend_words.simps(1) rotl32_eval
lemmas eval_rounds = run_rounds.simps(1) run_rounds_step sha_f_def sha_k_def rotl32_eval
  regs_of_def add_regs_def numeral_2_eq_2 [symmetric]

lemma list_update_numeral: "(x # xs)[numeral n := y] = x # xs[pred_numeral n := y]"
  by (simp add: numeral_eq_Suc)

section \<open>Vectors\<close>

lemma compress_zero_1:
  "sha_compress \<lparr>h0 = 0x67452301, h1 = 0xEFCDAB89, h2 = 0x98BADCFE, h3 = 0x10325476, h4 = 0xC3D2E1F0\<rparr>
     [0, 0, 0, 0, 0, 0, 0, 0, 0, 0, 0, 0, 0, 0, 0, 0] =
   \<lparr>h0 = 0x92B404E5, h1 = 0x56588CED, h2 = 0x6C1ACD4E, h3 = 0xBF053F68, h4 = 0x9F73A93\<rparr>"
  by (subst sha_compress_eval, simp, simp, simp add: eval_schedule del: extend_words.simps(2) run_rounds.simps cong: extend_cong)
    (simp add: eval_rounds del: run_rounds.simps(2) cong: run_rounds_cong)

lemma compress_zero_2:
  "sha_compress \<lparr>h0 = 0x92B404E5, h1 = 0x56588CED, h2 = 0x6C1ACD4E, h3 = 0xBF053F68, h4 = 0x9F73A93\<rparr>
     [0, 0, 0, 0, 0, 0, 0, 0, 0, 0, 0, 0, 0, 0, 0, 0] =
   \<lparr>h0 = 0x2A7D8FD4, h1 = 0x8C4C1505, h2 = 0xDBC78126, h3 = 0xF6F22DD4, h4 = 0x47C4467A\<rparr>"
  by (subst sha_compress_eval, simp, simp, simp add: eval_schedule del: extend_words.simps(2) run_rounds.simps cong: extend_cong)
    (simp add: eval_rounds del: run_rounds.simps(2) cong: run_rounds_cong)

lemma compress_zero_3:
  "sha_compress \<lparr>h0 = 0x2A7D8FD4, h1 = 0x8C4C1505, h2 = 0xDBC78126, h3 = 0xF6F22DD4, h4 = 0x47C4467A\<rparr>
     [0, 0, 0, 0, 0, 0, 0, 0, 0, 0, 0, 0, 0, 0, 0, 0] =
   \<lparr>h0 = 0x7E7135C2, h1 = 0x7644D299, h2 = 0xF11833F9, h3 = 0x3F968B70, h4 = 0x77504B79\<rparr>"
  by (subst sha_compress_eval, simp, simp, simp add: eval_schedule del: extend_words.simps(2) run_rounds.simps cong: extend_cong)
    (simp add: eval_rounds del: run_rounds.simps(2) cong: run_rounds_cong)

lemma compress_sample:
  "sha_compress \<lparr>h0 = 0x7E7135C2, h1 = 0x7644D299, h2 = 0xF11833F9, h3 = 0x3F968B70, h4 = 0x77504B79\<rparr>
     [0, 0, 0, 0, 0, 0, 0, 0, 0, 0, 0xa900e, 0, 0x5003628, 0x80, 0, 0x7b8] =
   \<lparr>h0 = 0x0, h1 = 0x710BAC3, h2 = 0xE3AB1201, h3 = 0xC56C7DFA, h4 = 0x9267BD12\<rparr>"
  by (subst sha_compress_eval, simp, simp, simp add: eval_schedule del: extend_words.simps(2) run_rounds.simps cong: extend_cong)
    (simp add: eval_rounds del: run_rounds.simps(2) cong: run_rounds_cong)

end
