(* ===== verification/Sha1_Kernel.thy ===== *)
theory Sha1_Kernel
  imports Sha1_Vectors
begin

text \<open>
  The CUDA kernel of \<open>level1/src/sha1.cu\<close>.  The eighty unrolled rounds are the definitions
  \<open>rounds_0_9\<close> to \<open>rounds_64_79\<close>, one line per unrolled round with the array indices that
  the source has; \<open>kernel_round\<close> is the six register assignments of a round and
  \<open>kernel_mix\<close> the two assignments to \<open>w\<close> after it.  \<open>shaforce\<close> is one GPU thread,
  \<open>force_kernel\<close> a launch of the grid, whose threads meet only in \<open>atomicMax\<close>.
  The main result is that the kernel computes the SHA-1 compression function; \<open>kernel_at m r t\<close>
  is the state the standard prescribes before round \<open>t\<close>, and every round is shown to lead from
  \<open>kernel_at m r t\<close> to \<open>kernel_at m r (t + 1)\<close>.
\<close>

section \<open>The rounds\<close>

record kernel_state =
  ka :: u32
  kb :: u32
  kc :: u32
  kd :: u32
  ke :: u32
  kw :: "u32 list"

definition f1 :: "u32 \<Rightarrow> u32 \<Rightarrow> u32 \<Rightarrow> u32" where
  "f1 b c d = ((b AND c) OR (NOT b AND d))"

definition f_parity :: "u32 \<Rightarrow> u32 \<Rightarrow> u32 \<Rightarrow> u32" where
  "f_parity b c d = (b XOR c XOR d)"

definition f_majority :: "u32 \<Rightarrow> u32 \<Rightarrow> u32 \<Rightarrow> u32" where
  "f_majority b c d = ((b AND c) OR (b AND d) OR (c AND d))"

definition kernel_round ::
  "(u32 \<Rightarrow> u32 \<Rightarrow> u32 \<Rightarrow> u32) \<Rightarrow> u32 \<Rightarrow> nat \<Rightarrow> kernel_state \<Rightarrow> kernel_state" where
  "kernel_round f k i s =
     (let temp = (push_bit 5 (ka s) OR drop_bit 27 (ka s)) + f (kb s) (kc s) (kd s) + ke s + k + kw s ! i
      in s\<lparr>ke := kd s, kd := kc s, kc := push_bit 30 (kb s) OR drop_bit 2 (kb s),
           kb := ka s, ka := temp\<rparr>)"

definition kernel_mix :: "nat \<Rightarrow> nat \<Rightarrow> nat \<Rightarrow> nat \<Rightarrow> kernel_state \<Rightarrow> kernel_state" where
  "kernel_mix i x y z s =
     (let v = kw s ! x XOR kw s ! y XOR kw s ! z XOR kw s ! i
      in s\<lparr>kw := (kw s)[i := push_bit 1 v OR drop_bit 31 v]\<rparr>)"

definition rounds_0_9 :: "kernel_state \<Rightarrow> kernel_state" where
  "rounds_0_9 s =
     (let k = 0x5A827999;
          s = kernel_round f1 k 0 s; s = kernel_mix 0 13 8 2 s;
          s = kernel_round f1 k 1 s; s = kernel_mix 1 14 9 3 s;
          s = kernel_round f1 k 2 s; s = kernel_mix 2 15 10 4 s;
          s = kernel_round f1 k 3 s; s = kernel_mix 3 0 11 5 s;
          s = kernel_round f1 k 4 s; s = kernel_mix 4 1 12 6 s;
          s = kernel_round f1 k 5 s; s = kernel_mix 5 2 13 7 s;
          s = kernel_round f1 k 6 s; s = kernel_mix 6 3 14 8 s;
          s = kernel_round f1 k 7 s; s = kernel_mix 7 4 15 9 s;
          s = kernel_round f1 k 8 s; s = kernel_mix 8 5 0 10 s;
          s = kernel_round f1 k 9 s; s = kernel_mix 9 6 1 11 s
      in s)"

definition rounds_10_19 :: "kernel_state \<Rightarrow> kernel_state" where
  "rounds_10_19 s =
     (let k = 0x5A827999;
          s = kernel_round f1 k 10 s; s = kernel_mix 10 7 2 12 s;
          s = kernel_round f1 k 11 s; s = kernel_mix 11 8 3 13 s;
          s = kernel_round f1 k 12 s; s = kernel_mix 12 9 4 14 s;
          s = kernel_round f1 k 13 s; s = kernel_mix 13 10 5 15 s;
          s = kernel_round f1 k 14 s; s = kernel_mix 14 11 6 0 s;
          s = kernel_round f1 k 15 s; s = kernel_mix 15 12 7 1 s;
          s = kernel_round f1 k 0 s; s = kernel_mix 0 13 8 2 s;
          s = kernel_round f1 k 1 s; s = kernel_mix 1 14 9 3 s;
          s = kernel_round f1 k 2 s; s = kernel_mix 2 15 10 4 s;
          s = kernel_round f1 k 3 s; s = kernel_mix 3 0 11 5 s
      in s)"

definition rounds_20_29 :: "kernel_state \<Rightarrow> kernel_state" where
  "rounds_20_29 s =
     (let k = 0x6ED9EBA1;
          s = kernel_round f_parity k 4 s; s = kernel_mix 4 1 12 6 s;
          s = kernel_round f_parity k 5 s; s = kernel_mix 5 2 13 7 s;
          s = kernel_round f_parity k 6 s; s = kernel_mix 6 3 14 8 s;
          s = kernel_round f_parity k 7 s; s = kernel_mix 7 4 15 9 s;
          s = kernel_round f_parity k 8 s; s = kernel_mix 8 5 0 10 s;
          s = kernel_round f_parity k 9 s; s = kernel_mix 9 6 1 11 s;
          s = kernel_round f_parity k 10 s; s = kernel_mix 10 7 2 12 s;
          s = kernel_round f_parity k 11 s; s = kernel_mix 11 8 3 13 s;
          s = kernel_round f_parity k 12 s; s = kernel_mix 12 9 4 14 s;
          s = kernel_round f_parity k 13 s; s = kernel_mix 13 10 5 15 s
      in s)"

definition rounds_30_39 :: "kernel_state \<Rightarrow> kernel_state" where
  "rounds_30_39 s =
     (let k = 0x6ED9EBA1;
          s = kernel_round f_parity k 14 s; s = kernel_mix 14 11 6 0 s;
          s = kernel_round f_parity k 15 s; s = kernel_mix 15 12 7 1 s;
          s = kernel_round f_parity k 0 s; s = kernel_mix 0 13 8 2 s;
          s = kernel_round f_parity k 1 s; s = kernel_mix 1 14 9 3 s;
          s = kernel_round f_parity k 2 s; s = kernel_mix 2 15 10 4 s;
          s = kernel_round f_parity k 3 s; s = kernel_mix 3 0 11 5 s;
          s = kernel_round f_parity k 4 s; s = kernel_mix 4 1 12 6 s;
          s = kernel_round f_parity k 5 s; s = kernel_mix 5 2 13 7 s;
          s = kernel_round f_parity k 6 s; s = kernel_mix 6 3 14 8 s;
          s = kernel_round f_parity k 7 s; s = kernel_mix 7 4 15 9 s
      in s)"

definition rounds_40_49 :: "kernel_state \<Rightarrow> kernel_state" where
  "rounds_40_49 s =
     (let k = 0x8F1BBCDC;
          s = kernel_round f_majority k 8 s; s = kernel_mix 8 5 0 10 s;
          s = kernel_round f_majority k 9 s; s = kernel_mix 9 6 1 11 s;
          s = kernel_round f_majority k 10 s; s = kernel_mix 10 7 2 12 s;
          s = kernel_round f_majority k 11 s; s = kernel_mix 11 8 3 13 s;
          s = kernel_round f_majority k 12 s; s = kernel_mix 12 9 4 14 s;
          s = kernel_round f_majority k 13 s; s = kernel_mix 13 10 5 15 s;
          s = kernel_round f_majority k 14 s; s = kernel_mix 14 11 6 0 s;
          s = kernel_round f_majority k 15 s; s = kernel_mix 15 12 7 1 s;
          s = kernel_round f_majority k 0 s; s = kernel_mix 0 13 8 2 s;
          s = kernel_round f_majority k 1 s; s = kernel_mix 1 14 9 3 s
      in s)"

definition rounds_50_59 :: "kernel_state \<Rightarrow> kernel_state" where
  "rounds_50_59 s =
     (let k = 0x8F1BBCDC;
          s = kernel_round f_majority k 2 s; s = kernel_mix 2 15 10 4 s;
          s = kernel_round f_majority k 3 s; s = kernel_mix 3 0 11 5 s;
          s = kernel_round f_majority k 4 s; s = kernel_mix 4 1 12 6 s;
          s = kernel_round f_majority k 5 s; s = kernel_mix 5 2 13 7 s;
          s = kernel_round f_majority k 6 s; s = kernel_mix 6 3 14 8 s;
          s = kernel_round f_majority k 7 s; s = kernel_mix 7 4 15 9 s;
          s = kernel_round f_majority k 8 s; s = kernel_mix 8 5 0 10 s;
          s = kernel_round f_majority k 9 s; s = kernel_mix 9 6 1 11 s;
          s = kernel_round f_majority k 10 s; s = kernel_mix 10 7 2 12 s;
          s = kernel_round f_majority k 11 s; s = kernel_mix 11 8 3 13 s
      in s)"

definition rounds_60_63 :: "kernel_state \<Rightarrow> kernel_state" where
  "rounds_60_63 s =
     (let k = 0xCA62C1D6;
          s = kernel_round f_parity k 12 s; s = kernel_mix 12 9 4 14 s;
          s = kernel_round f_parity k 13 s; s = kernel_mix 13 10 5 15 s;
          s = kernel_round f_parity k 14 s; s = kernel_mix 14 11 6 0 s;
          s = kernel_round f_parity k 15 s; s = kernel_mix 15 12 7 1 s
      in s)"

definition rounds_64_79 :: "kernel_state \<Rightarrow> kernel_state" where
  "rounds_64_79 s =
     (let k = 0xCA62C1D6;
          s = kernel_round f_parity k 0 s;
          s = kernel_round f_parity k 1 s;
          s = kernel_round f_parity k 2 s;
          s = kernel_round f_parity k 3 s;
          s = kernel_round f_parity k 4 s;
          s = kernel_round f_parity k 5 s;
          s = kernel_round f_parity k 6 s;
          s = kernel_round f_parity k 7 s;
          s = kernel_round f_parity k 8 s;
          s = kernel_round f_parity k 9 s;
          s = kernel_round f_parity k 10 s;
          s = kernel_round f_parity k 11 s;
          s = kernel_round f_parity k 12 s;
          s = kernel_round f_parity k 13 s;
          s = kernel_round f_parity k 14 s;
          s = kernel_round f_parity k 15 s
      in s)"

definition kernel_load :: "u32 list \<Rightarrow> u32 \<Rightarrow> u32 \<Rightarrow> hash_digest \<Rightarrow> kernel_state" where
  "kernel_load inp gid idx h =
     \<lparr>ka = h0 h, kb = h1 h, kc = h2 h, kd = h3 h, ke = h4 h,
      kw = map (\<lambda>i. inp ! i) [0..<11] @ [idx, gid] @ map (\<lambda>i. inp ! i) [13..<16]\<rparr>"

definition computeSHA1Block :: "u32 list \<Rightarrow> u32 \<Rightarrow> u32 \<Rightarrow> hash_digest \<Rightarrow> u64" where
  "computeSHA1Block inp gid idx h =
     (let s = kernel_load inp gid idx h;
          s = rounds_0_9 s; s = rounds_10_19 s;
          s = rounds_20_29 s; s = rounds_30_39 s;
          s = rounds_40_49 s; s = rounds_50_59 s;
          s = rounds_60_63 s; s = rounds_64_79 s
      in push_bit 32 (ucast (h0 h + ka s)) OR ucast (h1 h + kb s))"

section \<open>The rounds compute SHA-1\<close>

definition kernel_at :: "u32 list \<Rightarrow> regs \<Rightarrow> nat \<Rightarrow> nat \<Rightarrow> kernel_state" where
  "kernel_at m r t u =
     (case sha_rounds m r t of (a, b, c, d, e) \<Rightarrow>
        \<lparr>ka = a, kb = b, kc = c, kd = d, ke = e, kw = window m u\<rparr>)"

lemma kernel_round_at:
  assumes "\<And>b c d. f b c d = sha_f t b c d" "k = sha_k t"
    and "i = t mod 16" "t \<in> {u..<u + 16}"
  shows "kernel_round f k i (kernel_at m r t u) = kernel_at m r (t + 1) u"
proof -
  obtain j where j: "t = u + j" "j < 16" using assms(4) le_Suc_ex by force
  with assms(3) have "window m u ! i = sched m t" using nth_window [of j m u] by simp
  with assms(1,2) show ?thesis
    by (auto simp: kernel_round_def kernel_at_def sha_round_def rotl32_def Let_def split: prod.split)
qed

lemma kernel_mix_at:
  assumes "i = u mod 16" "x = (u + 13) mod 16" "y = (u + 8) mod 16" "z = (u + 2) mod 16"
  shows "kernel_mix i x y z (kernel_at m r t u) = kernel_at m r t (u + 1)"
proof -
  obtain a b c d e where r: "sha_rounds m r t = (a, b, c, d, e)" by (rule prod_cases5)
  show ?thesis
    unfolding assms kernel_mix_def kernel_at_def r window_Suc [unfolded Suc_eq_plus1] sched_from_window rotl32_def Let_def
    by simp
qed

lemma kernel_fs:
  "t < 20 \<Longrightarrow> f1 b c d = sha_f t b c d"
  "20 \<le> t \<Longrightarrow> t < 40 \<Longrightarrow> f_parity b c d = sha_f t b c d"
  "40 \<le> t \<Longrightarrow> t < 60 \<Longrightarrow> f_majority b c d = sha_f t b c d"
  "60 \<le> t \<Longrightarrow> f_parity b c d = sha_f t b c d"
  by (simp_all add: f1_def f_parity_def f_majority_def sha_f_def)

lemmas kernel_steps = kernel_round_at kernel_mix_at kernel_fs sha_k_def

lemma rounds_0_9_at: "rounds_0_9 (kernel_at m r 0 0) = kernel_at m r 10 10"
  by (simp add: rounds_0_9_def kernel_steps Let_def del: One_nat_def)

lemma rounds_10_19_at: "rounds_10_19 (kernel_at m r 10 10) = kernel_at m r 20 20"
  by (simp add: rounds_10_19_def kernel_steps Let_def)

lemma rounds_20_29_at: "rounds_20_29 (kernel_at m r 20 20) = kernel_at m r 30 30"
  by (simp add: rounds_20_29_def kernel_steps Let_def)

lemma rounds_30_39_at: "rounds_30_39 (kernel_at m r 30 30) = kernel_at m r 40 40"
  by (simp add: rounds_30_39_def kernel_steps Let_def)

lemma rounds_40_49_at: "rounds_40_49 (kernel_at m r 40 40) = kernel_at m r 50 50"
  by (simp add: rounds_40_49_def kernel_steps Let_def)

lemma rounds_50_59_at: "rounds_50_59 (kernel_at m r 50 50) = kernel_at m r 60 60"
  by (simp add: rounds_50_59_def kernel_steps Let_def)

lemma rounds_60_63_at: "rounds_60_63 (kernel_at m r 60 60) = kernel_at m r 64 64"
  by (simp add: rounds_60_63_def kernel_steps Let_def)

lemma rounds_64_79_at: "rounds_64_79 (kernel_at m r 64 64) = kernel_at m r 80 64"
  by (simp add: rounds_64_79_def kernel_steps Let_def)

lemmas kernel_rounds_at = rounds_0_9_at rounds_10_19_at rounds_20_29_at rounds_30_39_at
  rounds_40_49_at rounds_50_59_at rounds_60_63_at rounds_64_79_at

lemma kernel_load_at:
  assumes "length inp = 16"
  shows "kernel_load inp gid idx h = kernel_at (inp[11 := idx, 12 := gid]) (regs_of h) 0 0"
proof -
  have "map (\<lambda>i. inp ! i) [0..<11] @ [idx, gid] @ map (\<lambda>i. inp ! i) [13..<16] = inp[11 := idx, 12 := gid]"
    by (rule nth_equalityI) (use assms in \<open>auto simp: nth_append nth_list_update less_Suc_eq numeral_eq_Suc\<close>)
  then show ?thesis using assms
    by (simp add: kernel_load_def kernel_at_def regs_of_def window_0)
qed

lemma computeSHA1Block_compress:
  assumes "length inp = 16"
  shows "computeSHA1Block inp gid idx h =
    (let d = sha_compress h (inp[11 := idx, 12 := gid])
     in push_bit 32 (ucast (h0 d)) OR ucast (h1 d))"
  using assms
  by (simp add: computeSHA1Block_def kernel_load_at kernel_rounds_at Let_def sha_compress_def)
    (simp add: kernel_at_def add_regs_def split: prod.split)

section \<open>The grid\<close>

record device =
  c_block :: "u32 list"
  c_ctx :: hash_digest
  c_difficulty :: byte
  d_result :: u32

definition THREADS_PER_BLOCK :: nat where
  "THREADS_PER_BLOCK = 2048 div 8"

definition BLOCKS_PER_GRID :: nat where
  "BLOCKS_PER_GRID = 8 * 8"

definition kernel_hit :: "device \<Rightarrow> u32 \<Rightarrow> u32 \<Rightarrow> bool" where
  "kernel_hit dev idx global_id =
     (drop_bit 28 (computeSHA1Block (c_block dev) global_id idx (c_ctx dev)) < 1)"

function shaforce_loop :: "device \<Rightarrow> u32 \<Rightarrow> nat \<Rightarrow> u32 \<Rightarrow> u32 option" where
  "shaforce_loop dev idx i global_id =
     (if i < 16 then
        let global_id = global_id OR push_bit 24 (of_nat i)
        in if kernel_hit dev idx global_id then Some (global_id + 1)
           else shaforce_loop dev idx (i + 1) (global_id AND 0x00ffffff)
      else None)"
  by pat_completeness auto
termination
  by (relation "measure (\<lambda>(dev, idx, i, global_id). 16 - i)") auto

declare shaforce_loop.simps [simp del]

definition shaforce :: "nat \<Rightarrow> nat \<Rightarrow> u32 \<Rightarrow> device \<Rightarrow> device" where
  "shaforce blockIdx threadIdx idx dev =
     (case shaforce_loop dev idx 0 (of_nat (blockIdx * THREADS_PER_BLOCK + threadIdx)) of
        Some v \<Rightarrow> dev\<lparr>d_result := max (d_result dev) v\<rparr>
      | None \<Rightarrow> dev)"

definition grid :: "(nat \<times> nat) list" where
  "grid = List.product [0..<BLOCKS_PER_GRID] [0..<THREADS_PER_BLOCK]"

definition run_threads :: "(nat \<times> nat) list \<Rightarrow> u32 \<Rightarrow> device \<Rightarrow> device" where
  "run_threads order idx dev = fold (\<lambda>(b, t). shaforce b t idx) order dev"

definition force_kernel :: "u32 \<Rightarrow> device \<Rightarrow> device" where
  "force_kernel idx dev = run_threads grid idx dev"

text \<open>
  \<open>cudaMemcpyToSymbol\<close> is not part of the repository: its three return codes are the
  parameters \<open>rc1 rc2 rc3\<close>, and a copy takes place exactly when its code is \<open>cudaSuccess\<close>.
\<close>

definition copy_constants ::
  "u32 \<Rightarrow> u32 \<Rightarrow> u32 \<Rightarrow> u32 list \<Rightarrow> byte \<Rightarrow> hash_digest \<Rightarrow> device \<Rightarrow> u32 \<times> device" where
  "copy_constants rc1 rc2 rc3 h_block h_difficulty h_ctx dev =
     (let dev = (if rc1 = 0 then dev\<lparr>c_block := take 16 h_block\<rparr> else dev);
          dev = (if rc2 = 0 then dev\<lparr>c_difficulty := h_difficulty\<rparr> else dev);
          dev = (if rc3 = 0 then dev\<lparr>c_ctx := h_ctx\<rparr> else dev)
      in (rc1 OR rc2 OR rc3, dev))"

section \<open>What a launch finds\<close>

lemma low_bits_zero_iff:
  "drop_bit 28 (push_bit 32 (ucast (x::u32)) OR ucast (y::u32) :: u64) < 1 \<longleftrightarrow> x = 0 \<and> drop_bit 28 y = 0"
proof -
  have "drop_bit 28 (push_bit 32 (ucast x) OR ucast y :: u64) = push_bit 4 (ucast x) OR ucast (drop_bit 28 y)"
    by (rule bit_word_eqI) (auto simp: bit_simps dest: bit_imp_le_length)
  moreover have "(z :: u64) < 1 \<longleftrightarrow> z = 0" for z
    by (simp add: word_less_1)
  moreover have "push_bit 4 (ucast x) OR ucast (drop_bit 28 y) = (0 :: u64) \<longleftrightarrow> x = 0 \<and> drop_bit 28 y = 0"
  proof
    assume eq: "push_bit 4 (ucast x) OR ucast (drop_bit 28 y) = (0 :: u64)"
    have "bit x n = False" if "n < 32" for n
      using arg_cong [OF eq, of "\<lambda>w. bit w (4 + n)"] that by (simp add: bit_simps)
    moreover have "bit (drop_bit 28 y) n = False" if "n < 32" for n
      using arg_cong [OF eq, of "\<lambda>w. bit w n"] that by (simp add: bit_simps)
    ultimately show "x = 0 \<and> drop_bit 28 y = 0"
      by (auto intro!: bit_word_eqI)
  qed simp
  ultimately show ?thesis by simp
qed

lemma kernel_hit_iff:
  assumes "length (c_block dev) = 16"
  shows "kernel_hit dev idx gid \<longleftrightarrow>
    (let d = sha_compress (c_ctx dev) ((c_block dev)[11 := idx, 12 := gid])
     in h0 d = 0 \<and> drop_bit 28 (h1 d) = 0)"
  by (simp only: kernel_hit_def computeSHA1Block_compress [OF assms] Let_def low_bits_zero_iff)

definition nonce :: "nat \<Rightarrow> nat \<Rightarrow> u32" where
  "nonce x i = of_nat x OR push_bit 24 (of_nat i)"

definition launch_nonces :: "u32 set" where
  "launch_nonces = (\<lambda>(x, i). nonce x i) ` ({..<16384} \<times> {..<16})"

lemma mask24: "x AND 0x00ffffff = take_bit 24 (x :: u32)"
proof -
  have "(0x00ffffff :: u32) = mask 24" by (simp add: mask_eq_exp_minus_1)
  then show ?thesis by (simp only: take_bit_eq_mask)
qed

lemma nonce_mask:
  assumes "x < 2 ^ 24"
  shows "nonce x i AND 0x00ffffff = of_nat x"
  unfolding mask24 nonce_def using bit_nat_high [OF assms]
  by (intro bit_word_eqI) (auto simp: bit_simps not_le intro: leI)

lemma take_bit_28_less: "take_bit 28 (w :: u32) < 0x10000000"
  using take_bit_nat_less_exp [of 28 "unat w"]
  by (simp add: word_less_nat_alt unsigned_take_bit_eq)

lemma nonce_less:
  assumes "x < 2 ^ 24" "i < 16"
  shows "nonce x i < 0x10000000"
proof -
  have "\<not> bit x n" if "28 \<le> n" for n
    using bit_nat_high [OF assms(1), of n] that by simp
  moreover have "\<not> bit i (n - 24)" if "28 \<le> n" for n
    using bit_nat_high [of i 4 "n - 24"] assms(2) that by simp
  ultimately have "nonce x i = take_bit 28 (nonce x i)"
    by (intro bit_word_eqI) (auto simp: nonce_def bit_simps not_less intro: leI)
  then show ?thesis using take_bit_28_less by metis
qed

lemma shaforce_loop_find:
  assumes "x < 2 ^ 24"
  shows "shaforce_loop dev idx i (of_nat x) =
    map_option (\<lambda>j. nonce x j + 1) (find (\<lambda>j. kernel_hit dev idx (nonce x j)) [i..<16])"
proof (induction "16 - i" arbitrary: i)
  case 0
  then show ?case by (simp add: shaforce_loop.simps [of dev idx i])
next
  case (Suc k)
  then have i: "i < 16" by simp
  have "shaforce_loop dev idx (i + 1) (of_nat x) =
    map_option (\<lambda>j. nonce x j + 1) (find (\<lambda>j. kernel_hit dev idx (nonce x j)) [i + 1..<16])"
    using Suc by (intro Suc.hyps(1)) simp
  with i show ?case
    by (simp add: shaforce_loop.simps [of dev idx i] Let_def upt_conv_Cons
        nonce_mask [OF assms, unfolded nonce_def] nonce_def)
qed

definition thread_report :: "device \<Rightarrow> u32 \<Rightarrow> nat \<times> nat \<Rightarrow> u32 option" where
  "thread_report dev idx p =
     shaforce_loop dev idx 0 (of_nat (fst p * THREADS_PER_BLOCK + snd p))"

lemma shaforce_loop_result: "shaforce_loop (dev\<lparr>d_result := v\<rparr>) idx i gid = shaforce_loop dev idx i gid"
proof (induction dev idx i gid rule: shaforce_loop.induct)
  case (1 dev idx i gid)
  then show ?case
    by (simp add: shaforce_loop.simps [of _ idx i] kernel_hit_def Let_def)
qed

lemma shaforce_report:
  "shaforce (fst p) (snd p) idx dev =
     (case thread_report dev idx p of
        Some v \<Rightarrow> dev\<lparr>d_result := max (d_result dev) v\<rparr> | None \<Rightarrow> dev)"
  by (simp only: shaforce_def thread_report_def)

lemma run_threads_fold:
  "run_threads order idx dev =
     dev\<lparr>d_result := fold max (List.map_filter (thread_report dev idx) order) (d_result dev)\<rparr>"
proof (induction order arbitrary: dev)
  case Nil
  then show ?case by (simp add: run_threads_def List.map_filter_def)
next
  case (Cons p order)
  have tr: "thread_report (dev\<lparr>d_result := v\<rparr>) idx = thread_report dev idx" for v
    by (simp add: thread_report_def shaforce_loop_result fun_eq_iff)
  have "run_threads (p # order) idx dev = run_threads order idx (shaforce (fst p) (snd p) idx dev)"
    by (simp add: run_threads_def case_prod_unfold)
  then show ?case
    by (auto simp: Cons.IH shaforce_report tr max.commute map_filter_simps split: option.splits)
qed

lemma fold_max_Max: "fold max xs (a :: 'a::linorder) = Max (insert a (set xs))"
  using Max.set_eq_fold [of a xs] by simp

definition launch_reports :: "device \<Rightarrow> u32 \<Rightarrow> u32 set" where
  "launch_reports dev idx = {v. \<exists>p \<in> set grid. thread_report dev idx p = Some v}"

lemma map_filter_reports:
  "set order = set grid \<Longrightarrow>
   set (List.map_filter (thread_report dev idx) order) = launch_reports dev idx"
  by (auto simp: List.map_filter_def launch_reports_def image_iff) force

lemma run_threads_result:
  assumes "set order = set grid"
  shows "run_threads order idx dev =
    dev\<lparr>d_result := Max (insert (d_result dev) (launch_reports dev idx))\<rparr>"
  by (simp add: run_threads_fold fold_max_Max map_filter_reports [OF assms])

lemma finite_launch_reports: "finite (launch_reports dev idx)"
  unfolding map_filter_reports [OF refl, symmetric] by simp

lemma grid_position:
  "p \<in> set grid \<Longrightarrow> fst p * THREADS_PER_BLOCK + snd p < 16384"
  by (auto simp: grid_def THREADS_PER_BLOCK_def BLOCKS_PER_GRID_def)

lemma grid_cover:
  assumes "x < 16384"
  shows "(x div THREADS_PER_BLOCK, x mod THREADS_PER_BLOCK) \<in> set grid"
  using assms by (auto simp: grid_def THREADS_PER_BLOCK_def BLOCKS_PER_GRID_def)

lemma thread_report_Some:
  assumes "p \<in> set grid" "thread_report dev idx p = Some v"
  obtains g where "g \<in> launch_nonces" "kernel_hit dev idx g" "v = g + 1"
proof -
  let ?x = "fst p * THREADS_PER_BLOCK + snd p"
  have x: "?x < 16384" using grid_position [OF assms(1)] .
  then have "?x < 2 ^ 24" by simp
  with assms(2) obtain j where j: "find (\<lambda>j. kernel_hit dev idx (nonce ?x j)) [0..<16] = Some j"
      "v = nonce ?x j + 1"
    unfolding thread_report_def by (subst (asm) shaforce_loop_find) auto
  then have "j < 16" "kernel_hit dev idx (nonce ?x j)"
    by (auto simp: find_Some_iff)
  with x j that [of "nonce ?x j"] show ?thesis
    by (auto simp: launch_nonces_def)
qed

lemma launch_finds:
  assumes "g \<in> launch_nonces" "kernel_hit dev idx g"
  shows "launch_reports dev idx \<noteq> {}"
proof -
  from assms(1) obtain x i where xi: "g = nonce x i" "x < 16384" "i < 16"
    by (auto simp: launch_nonces_def)
  let ?p = "(x div THREADS_PER_BLOCK, x mod THREADS_PER_BLOCK)"
  have "find (\<lambda>j. kernel_hit dev idx (nonce x j)) [0..<16] \<noteq> None"
    using xi assms(2) by (auto simp: find_None_iff)
  moreover have "fst ?p * THREADS_PER_BLOCK + snd ?p = x" by simp
  ultimately have "thread_report dev idx ?p \<noteq> None"
    using xi unfolding thread_report_def by (simp add: shaforce_loop_find)
  then show ?thesis using grid_cover [OF xi(2)]
    by (auto simp: launch_reports_def)
qed

lemma launch_nonce_Suc:
  assumes "g \<in> launch_nonces"
  shows "g + 1 \<noteq> 0" "g < 0x10000000"
proof -
  show less: "g < 0x10000000"
    using assms nonce_less by (auto simp: launch_nonces_def)
  show "g + 1 \<noteq> 0"
  proof
    assume "g + 1 = 0"
    then have "g = -1" by (simp add: eq_neg_iff_add_eq_0)
    with less show False by simp
  qed
qed

text \<open>A launch from a cleared result cell reports a hit exactly when the grid covers one.\<close>

lemma force_kernel_result:
  assumes "d_result dev = 0"
  shows "d_result (force_kernel idx dev) \<noteq> 0 \<longleftrightarrow> (\<exists>g \<in> launch_nonces. kernel_hit dev idx g)"
    and "d_result (force_kernel idx dev) \<noteq> 0 \<Longrightarrow>
      d_result (force_kernel idx dev) - 1 \<in> launch_nonces \<and>
      kernel_hit dev idx (d_result (force_kernel idx dev) - 1)"
proof -
  let ?R = "insert 0 (launch_reports dev idx)"
  have res: "d_result (force_kernel idx dev) = Max ?R"
    by (simp add: force_kernel_def run_threads_result assms)
  have fin: "finite ?R" "?R \<noteq> {}" using finite_launch_reports by auto
  have rep: "\<exists>g \<in> launch_nonces. kernel_hit dev idx g \<and> v = g + 1"
    if "v \<in> launch_reports dev idx" for v
    using that by (auto simp: launch_reports_def elim: thread_report_Some)
  show found: "d_result (force_kernel idx dev) - 1 \<in> launch_nonces \<and>
      kernel_hit dev idx (d_result (force_kernel idx dev) - 1)"
    if "d_result (force_kernel idx dev) \<noteq> 0"
  proof -
    have "Max ?R \<in> launch_reports dev idx"
      using Max_in [OF fin] that res by auto
    then show ?thesis using rep [of "Max ?R"] res by auto
  qed
  show "d_result (force_kernel idx dev) \<noteq> 0 \<longleftrightarrow> (\<exists>g \<in> launch_nonces. kernel_hit dev idx g)"
  proof
    assume "\<exists>g \<in> launch_nonces. kernel_hit dev idx g"
    then obtain v where v: "v \<in> launch_reports dev idx" using launch_finds by blast
    then have "v \<noteq> 0" using rep [OF v] launch_nonce_Suc(1) by auto
    moreover have "v \<le> Max ?R" using v fin by simp
    ultimately show "d_result (force_kernel idx dev) \<noteq> 0" using res by auto
  qed (use found in blast)
qed

section \<open>Properties\<close>

definition sample_device :: device where
  "sample_device =
     \<lparr>c_block = [0, 0, 0, 0, 0, 0, 0, 0, 0, 0, 0xA900E, 0, 0, 0x80, 0, 0x7B8],
      c_ctx = \<lparr>h0 = 0x7E7135C2, h1 = 0x7644D299, h2 = 0xF11833F9, h3 = 0x3F968B70, h4 = 0x77504B79\<rparr>,
      c_difficulty = 0, d_result = 0\<rparr>"

lemma sample_launch:
  "0x5003628 \<in> launch_nonces" "kernel_hit sample_device 0 0x5003628"
proof -
  have "0x5003628 = nonce 0x3628 5" by (simp add: nonce_def)
  then show "0x5003628 \<in> launch_nonces" by (force simp: launch_nonces_def)
  show "kernel_hit sample_device 0 0x5003628"
    by (subst kernel_hit_iff)
      (simp_all add: sample_device_def list_update_numeral compress_sample)
qed

text \<open>
  (C7) The unrolled kernel of \<open>sha1.cu\<close> computes the SHA-1 compression function: for every
  16-word block, chaining value, thread id and launch index, \<open>computeSHA1Block\<close> returns the first
  64 bits of the compression of the block whose words 11 and 12 are the launch index and the id.
\<close>

theorem computeSHA1Block_correct:
  assumes "length inp = 16"
  shows "computeSHA1Block inp gid idx h =
    push_bit 32 (ucast (h0 (sha_compress h (inp[11 := idx, 12 := gid])))) OR
    ucast (h1 (sha_compress h (inp[11 := idx, 12 := gid])))"
  by (simp add: computeSHA1Block_compress [OF assms] Let_def)

theorem computeSHA1Block_correct_witness:
  "computeSHA1Block [0, 0, 0, 0, 0, 0, 0, 0, 0, 0, 0, 0, 0, 0, 0, 0] 0 0 sha_init =
     0x92B404E556588CED"
  by (subst computeSHA1Block_correct) (simp_all add: sha_init_def compress_zero_1 list_update_numeral)



end
