(* ===== verification/C_Strings.thy ===== *)
theory C_Strings
  imports Prelude
begin

text \<open>
  The functions of the C library on strings, characters and lines that the programs call, in the
  \<open>C\<close> locale.  A character is a byte; where the C code widens a \<open>char\<close> to \<open>int\<close> the
  model widens with the sign.
\<close>

section \<open>Strings\<close>

text \<open>
  C strings are byte lists whose end stands for the terminating NUL; \<open>strncmp\<close> compares bytes
  as \<open>unsigned char\<close> and stops at a NUL.
\<close>

definition str_head :: "byte list \<Rightarrow> byte" where
  "str_head s = (case s of [] \<Rightarrow> 0 | c # _ \<Rightarrow> c)"

fun strncmp :: "nat \<Rightarrow> byte list \<Rightarrow> byte list \<Rightarrow> int" where
  "strncmp 0 s t = 0"
| "strncmp (Suc n) s t =
     (if str_head s \<noteq> str_head t then uint (str_head s) - uint (str_head t)
      else if str_head s = 0 then 0
      else strncmp n (tl s) (tl t))"

definition strcmp :: "byte list \<Rightarrow> byte list \<Rightarrow> int" where
  "strcmp s t = strncmp (Suc (max (length s) (length t))) s t"

definition ascii :: "string \<Rightarrow> byte list" where
  "ascii s = map (\<lambda>c. of_nat (of_char c)) s"

definition strlen :: "byte list \<Rightarrow> nat" where
  "strlen s = length (takeWhile (\<lambda>c. c \<noteq> 0) s)"

section \<open>Characters\<close>

definition isupper :: "byte \<Rightarrow> bool" where
  "isupper c \<longleftrightarrow> 65 \<le> c \<and> c \<le> 90"

definition tolower :: "byte \<Rightarrow> byte" where
  "tolower c = (if isupper c then c + 32 else c)"

definition isdigit :: "byte \<Rightarrow> bool" where
  "isdigit c \<longleftrightarrow> 48 \<le> c \<and> c \<le> 57"

definition isspace :: "byte \<Rightarrow> bool" where
  "isspace c \<longleftrightarrow> c = 32 \<or> (9 \<le> c \<and> c \<le> 13)"

definition hex_digit :: "byte \<Rightarrow> nat option" where
  "hex_digit c =
     (if 48 \<le> c \<and> c \<le> 57 then Some (unat c - 48)
      else if 97 \<le> c \<and> c \<le> 102 then Some (unat c - 87)
      else if 65 \<le> c \<and> c \<le> 70 then Some (unat c - 55)
      else None)"

lemma hex_digit_ge: "hex_digit c = Some a \<Longrightarrow> 48 \<le> c \<and> a < 16"
  by (auto simp: hex_digit_def word_le_nat_alt split: if_splits)

section \<open>Lines\<close>

text \<open>\<open>fgets\<close> on the unread part of a file: at most \<open>size - 1\<close> bytes, up to and with a newline.\<close>

fun fgets_take :: "nat \<Rightarrow> byte list \<Rightarrow> byte list \<times> byte list" where
  "fgets_take 0 s = ([], s)"
| "fgets_take (Suc n) [] = ([], [])"
| "fgets_take (Suc n) (c # s) =
     (if c = 10 then ([c], s) else let (line, rest) = fgets_take n s in (c # line, rest))"

definition fgets :: "nat \<Rightarrow> byte list \<Rightarrow> (byte list \<times> byte list) option" where
  "fgets sz s = (if s = [] then None else Some (fgets_take (sz - 1) s))"

lemma fgets_take_append: "fgets_take n s = (line, rest) \<Longrightarrow> s = line @ rest"
  by (induction n s arbitrary: line rest rule: fgets_take.induct) (auto split: if_splits prod.splits)

lemma fgets_shrinks:
  assumes "1 < sz" "fgets sz s = Some (line, rest)"
  shows "length rest < length s"
proof -
  obtain n c s' where "sz - 1 = Suc n" "s = c # s'"
    using assms by (cases s; cases "sz - 1") (auto simp: fgets_def)
  with assms have "line \<noteq> []" by (auto simp: fgets_def split: if_splits prod.splits)
  moreover have "s = line @ rest"
    using assms fgets_take_append [of "sz - 1" s] by (auto simp: fgets_def split: if_splits)
  ultimately show ?thesis by simp
qed

lemma fgets_line:
  assumes "length w < n" "10 \<notin> set w"
  shows "fgets_take n (w @ 10 # s) = (w @ [10], s)"
  using assms
proof (induction w arbitrary: n)
  case Nil
  then show ?case by (cases n) auto
next
  case (Cons c w)
  then show ?case by (cases n) auto
qed

lemma strlen_no_nul [simp]: "0 \<notin> set s \<Longrightarrow> strlen s = length s"
  unfolding strlen_def by (subst takeWhile_eq_all_conv [THEN iffD2]) auto

section \<open>Numbers\<close>

text \<open>\<open>printf\<close>'s \<open>%d\<close> and \<open>%zu\<close> for numbers that are not negative.\<close>

fun decimal :: "nat \<Rightarrow> byte list" where
  "decimal n = (if n < 10 then [of_nat (48 + n)] else decimal (n div 10) @ [of_nat (48 + n mod 10)])"

declare decimal.simps [simp del]

lemma length_decimal: "n < 10 ^ Suc k \<Longrightarrow> length (decimal n) \<le> Suc k"
proof (induction k arbitrary: n)
  case 0
  then show ?case by (simp add: decimal.simps)
next
  case (Suc k)
  have "n div 10 < 10 ^ Suc k" using Suc.prems by (simp add: less_mult_imp_div_less mult.commute)
  from Suc.IH [OF this] show ?case by (simp add: decimal.simps [of n])
qed

end
