(* ===== verification/Level1_Common.thy ===== *)
theory Level1_Common
  imports Sha1_Spec C_Strings
begin

text \<open>
  The helpers of \<open>level1/src/common.c\<close> and \<open>common.h\<close> that every hasher and the miner's
  main loop share: the buffer geometry, the SHA-1 padding of the commit buffer
  (\<open>pad_message\<close>), the difficulty parser and the timing accumulator.  The padding written in
  place is compared with the padding of the standard.
\<close>

section \<open>Geometry\<close>

definition BUFFER_LENGTH :: nat where "BUFFER_LENGTH = 256"
definition PADDING_LENGTH :: nat where "PADDING_LENGTH = 9"
definition PREAMBLE_LENGTH :: nat where "PREAMBLE_LENGTH = 11"
definition BLOCK_LENGTH :: nat where "BLOCK_LENGTH = 64"
definition COMMIT_LENGTH :: nat where "COMMIT_LENGTH = BUFFER_LENGTH - PADDING_LENGTH"
definition MSG_LENGTH :: nat where "MSG_LENGTH = COMMIT_LENGTH - PREAMBLE_LENGTH"
definition TIMING_SLOTS :: nat where "TIMING_SLOTS = 10"

lemmas geometry = BUFFER_LENGTH_def PADDING_LENGTH_def PREAMBLE_LENGTH_def BLOCK_LENGTH_def
  COMMIT_LENGTH_def MSG_LENGTH_def TIMING_SLOTS_def

record hash_args =
  msg :: "byte list"
  found :: byte

section \<open>Padding\<close>

text \<open>
  \<open>pad_message\<close> returns \<open>-1\<close> without touching the buffer when it is too short; otherwise
  it writes the nine padding bytes after the message.  The length arithmetic is the
  32-bit arithmetic of \<open>unsigned int\<close>; \<open>bit_length\<close> is an \<open>int\<close> whose right shift
  is arithmetic.
\<close>

definition pad_message :: "byte list \<Rightarrow> u32 \<Rightarrow> u32 \<Rightarrow> int \<times> byte list" where
  "pad_message buf len buffer_length =
     (let bit_length = len * 8
      in if buffer_length < len + 9 then (- 1, buf)
         else let n = unat len;
                  buf = overwrite n [0x80] buf;
                  buf = overwrite (n + 1) (replicate 6 0) buf;
                  buf = overwrite (n + 7) [ucast (signed_drop_bit 8 bit_length AND 0xff)] buf;
                  buf = overwrite (n + 8) [ucast bit_length AND 0xff] buf
              in (0, buf))"

lemma overwrite_append:
  assumes "off + length xs + length ys \<le> length buf"
  shows "overwrite (off + length xs) ys (overwrite off xs buf) = overwrite off (xs @ ys) buf"
  using assms by (cases xs) (auto simp: overwrite_def min_def ac_simps)

lemma pad_message_writes:
  assumes "\<not> buffer_length < len + 9" "unat len + 9 \<le> length buf"
  shows "pad_message buf len buffer_length =
    (0, overwrite (unat len) ([0x80] @ replicate 6 0 @
          [ucast (signed_drop_bit 8 (len * 8) AND 0xff), ucast (len * 8) AND 0xff]) buf)"
proof -
  have 1: "overwrite (unat len + 1) (replicate 6 0) (overwrite (unat len) [0x80] buf) =
      overwrite (unat len) ([0x80] @ replicate 6 0) buf"
    using overwrite_append [of "unat len" "[0x80]" "replicate 6 0" buf] assms(2) by simp
  have 2: "overwrite (unat len + 7) [x] (overwrite (unat len) ([0x80] @ replicate 6 0) buf) =
      overwrite (unat len) (([0x80] @ replicate 6 0) @ [x]) buf" for x
    using overwrite_append [of "unat len" "[0x80] @ replicate 6 0" "[x]" buf] assms(2) by simp
  have 3: "overwrite (unat len + 8) [y] (overwrite (unat len) (([0x80] @ replicate 6 0) @ [x]) buf) =
      overwrite (unat len) ((([0x80] @ replicate 6 0) @ [x]) @ [y]) buf" for x y
    using overwrite_append [of "unat len" "([0x80] @ replicate 6 0) @ [x]" "[y]" buf] assms(2)
    by simp
  show ?thesis using assms(1) unfolding pad_message_def Let_def 1 2 3 by simp
qed

text \<open>The two length bytes are the low half of the standard's 64-bit length field.\<close>

lemma and_255_word [simp]: "(x :: u32) AND 0xff = take_bit 8 x"
proof -
  have "(0xff :: u32) = mask 8" by (simp add: mask_eq_exp_minus_1)
  then show ?thesis by (simp only: take_bit_eq_mask)
qed

lemma and_255_byte [simp]: "(x :: byte) AND 0xff = x"
proof -
  have "(0xff :: byte) = -1" by simp
  then show ?thesis by (simp only: and.right_neutral)
qed

lemma short_length_field:
  assumes "n < 8192"
  shows "bytes_be64 (of_nat (8 * n)) = replicate 6 0 @
    [ucast (signed_drop_bit 8 (of_nat n * 8 :: u32) AND 0xff), ucast (of_nat n * 8 :: u32) AND 0xff]"
proof -
  define v where "v = 8 * n"
  have "v < 2 ^ 16" using assms by (simp add: v_def)
  then have high: "\<not> bit v k" if "16 \<le> k" for k using bit_nat_high that by blast
  have v32: "of_nat n * 8 = (of_nat v :: u32)" by (simp add: v_def)
  have six: "replicate 6 (0::byte) = [0, 0, 0, 0, 0, 0]" by (simp add: numeral_eq_Suc)
  show ?thesis
    unfolding v32 v_def [symmetric] bytes_be64_def bytes_be32_def six
    by (auto intro!: bit_word_eqI simp: bit_simps high)
qed

text \<open>On success the buffer holds the padded message of the standard.\<close>

lemma pad_message_padding:
  assumes "n < 8192" "n mod 64 = 55" "n + 9 \<le> unat buflen" "n + 9 \<le> length buf"
  shows "pad_message buf (of_nat n) buflen = (0, overwrite n (sha_padding n) buf)"
proof -
  have un: "unat (of_nat n :: u32) = n" using assms(1) by (simp add: unat_of_nat)
  have "\<not> buflen < of_nat n + 9"
  proof -
    have "unat (of_nat n + 9 :: u32) = n + 9"
      using assms(1) un by (simp add: unat_word_ariths)
    then show ?thesis using assms(3) by (simp add: word_less_nat_alt)
  qed
  moreover have "unat (of_nat n :: u32) + 9 \<le> length buf" using assms(4) un by simp
  moreover have "sha_padding n = [0x80] @ bytes_be64 (of_nat (8 * n))"
    using assms(2) by (simp add: sha_padding_def)
  ultimately show ?thesis
    using short_length_field [OF assms(1)] un by (simp add: pad_message_writes)
qed

section \<open>Difficulty\<close>

text \<open>
  \<open>sscanf (s, "%02x", \<dots>)\<close> reads at most two characters: one or two hexadecimal digits, or the
  prefix \<open>0x\<close> that leaves the value 0.  \<open>None\<close> is a failed conversion, which stores nothing.
  White space and signs, which the conversion also accepts, cannot occur at the place where
  \<open>parse_difficulty\<close> calls it.
\<close>

definition sscanf_02x :: "byte list \<Rightarrow> nat option" where
  "sscanf_02x s =
     (case hex_digit (str_head s) of
        None \<Rightarrow> None
      | Some a \<Rightarrow>
          (if a = 0 \<and> (str_head (tl s) = 120 \<or> str_head (tl s) = 88) then Some 0
           else case hex_digit (str_head (tl s)) of None \<Rightarrow> Some a | Some b \<Rightarrow> Some (16 * a + b)))"

datatype difficulty_result =
    Exit
  | Uninitialised
  | Difficulty byte

definition parse_difficulty :: "byte list \<Rightarrow> difficulty_result" where
  "parse_difficulty hex_difficulty =
     (if strncmp 6 hex_difficulty (ascii ''000000'') > 0 \<or>
         strcmp hex_difficulty (ascii ''00000000'') \<le> 0
      then Exit
      else case sscanf_02x (drop 6 hex_difficulty) of
             None \<Rightarrow> Uninitialised
           | Some v \<Rightarrow> Difficulty (of_nat v))"

section \<open>Timing\<close>

record timeval =
  tv_sec :: int
  tv_usec :: int

record timing_info =
  start :: timeval
  totals :: "timeval list"
  counts :: "int list"
  slot :: nat

definition timeradd :: "timeval \<Rightarrow> timeval \<Rightarrow> timeval" where
  "timeradd a b =
     (let s = tv_sec a + tv_sec b; u = tv_usec a + tv_usec b
      in if 1000000 \<le> u then \<lparr>tv_sec = s + 1, tv_usec = u - 1000000\<rparr>
         else \<lparr>tv_sec = s, tv_usec = u\<rparr>)"

definition timersub :: "timeval \<Rightarrow> timeval \<Rightarrow> timeval" where
  "timersub a b =
     (let s = tv_sec a - tv_sec b; u = tv_usec a - tv_usec b
      in if u < 0 then \<lparr>tv_sec = s - 1, tv_usec = u + 1000000\<rparr>
         else \<lparr>tv_sec = s, tv_usec = u\<rparr>)"

definition reset_timing :: "timing_info \<Rightarrow> timing_info" where
  "reset_timing info =
     info\<lparr>slot := 0, totals := replicate TIMING_SLOTS \<lparr>tv_sec = 0, tv_usec = 0\<rparr>,
          counts := replicate TIMING_SLOTS 0\<rparr>"

definition start_timing :: "timeval \<Rightarrow> timing_info \<Rightarrow> timing_info" where
  "start_timing now info = info\<lparr>slot := 0, start := now\<rparr>"

text \<open>A point past the last slot would write outside the arrays: \<open>None\<close>.\<close>

definition time_point :: "timeval \<Rightarrow> timing_info \<Rightarrow> timing_info option" where
  "time_point now info =
     (let k = slot info
      in if k < TIMING_SLOTS then
           Some (info\<lparr>totals := (totals info)[k := timeradd (totals info ! k) (timersub now (start info))],
                      counts := (counts info)[k := counts info ! k + 1], slot := k + 1\<rparr>)
         else None)"

definition skip_point :: "timing_info \<Rightarrow> timing_info" where
  "skip_point info = info\<lparr>slot := slot info + 1\<rparr>"

text \<open>
  \<open>print_timing\<close> runs over the slots until it meets a zero count; \<open>None\<close> is the read past the
  tenth count.  The result is the list of differences it prints.
\<close>

fun print_loop :: "timing_info \<Rightarrow> nat \<Rightarrow> nat \<Rightarrow> int list option" where
  "print_loop info 0 i = None"
| "print_loop info (Suc n) i =
     (if counts info ! i = 0 then Some []
      else map_option
        ((#) (cdiv (tv_sec (totals info ! i) * 1000 + cdiv (tv_usec (totals info ! i)) 1000) (counts info ! i)))
        (print_loop info n (i + 1)))"

fun differences :: "int \<Rightarrow> int list \<Rightarrow> int list" where
  "differences p [] = []"
| "differences p (t # ts) = (t - p) # differences t ts"

definition print_timing :: "timing_info \<Rightarrow> int list option" where
  "print_timing info = map_option (differences 0) (print_loop info TIMING_SLOTS 0)"

section \<open>Properties of the difficulty parser\<close>

lemma ascii_zeros: "ascii ''000000'' = replicate 6 48" "ascii ''00000000'' = replicate 8 48"
  by (simp_all add: ascii_def numeral_eq_Suc)

lemma above_zero_char:
  assumes "48 \<le> (c :: byte)"
  shows "c \<noteq> 48 \<longleftrightarrow> 48 < uint c"
proof -
  have "c \<noteq> 48 \<longleftrightarrow> 48 < c" using assms by auto
  then show ?thesis by (simp add: word_less_def)
qed

lemma strncmp_zeros:
  assumes "n \<le> length s" "\<forall>c \<in> set s. 48 \<le> c"
  shows "0 < strncmp n s (replicate n 48) \<longleftrightarrow> take n s \<noteq> replicate n 48"
  using assms
proof (induction n arbitrary: s)
  case 0
  then show ?case by simp
next
  case (Suc n)
  then obtain c s' where s: "s = c # s'" by (cases s) auto
  with Suc.prems have "48 \<le> c" by simp
  then have "c \<noteq> 48 \<longleftrightarrow> 48 < uint c" by (rule above_zero_char)
  with Suc s show ?case by (auto simp: str_head_def)
qed

lemma strncmp_longer:
  assumes "n < length s" "\<forall>c \<in> set s. 48 \<le> c" "n < m"
  shows "0 < strncmp m s (replicate n 48)"
  using assms
proof (induction n arbitrary: s m)
  case 0
  then obtain c s' m' where s: "s = c # s'" "m = Suc m'"
    by (cases s; cases m) auto
  with 0 have "48 \<le> uint c" by (simp add: word_le_def)
  then have "c \<noteq> 0" by auto
  with s \<open>48 \<le> uint c\<close> show ?case by (simp add: str_head_def)
next
  case (Suc n)
  then obtain c s' m' where s: "s = c # s'" "m = Suc m'"
    by (cases s; cases m) auto
  with Suc.prems have "48 \<le> c" by simp
  then have "c \<noteq> 48 \<longleftrightarrow> 48 < uint c" by (rule above_zero_char)
  with Suc.prems Suc.IH [of s' m'] s show ?case by (auto simp: str_head_def)
qed

lemma parse_difficulty_hex:
  assumes "length hex = 40" "\<forall>c \<in> set hex. hex_digit c \<noteq> None"
  shows "parse_difficulty hex =
    (if take 6 hex = ascii ''000000''
     then Difficulty (of_nat (16 * the (hex_digit (hex ! 6)) + the (hex_digit (hex ! 7))))
     else Exit)"
proof -
  have ge: "\<forall>c \<in> set hex. 48 \<le> c" using assms(2) hex_digit_ge by blast
  have 1: "strncmp 6 hex (ascii ''000000'') > 0 \<longleftrightarrow> take 6 hex \<noteq> ascii ''000000''"
    unfolding ascii_zeros by (rule strncmp_zeros) (use assms ge in auto)
  have 2: "strcmp hex (ascii ''00000000'') > 0"
    unfolding strcmp_def ascii_zeros by (rule strncmp_longer) (use assms ge in auto)
  have d: "drop 6 hex = hex ! 6 # hex ! 7 # drop 8 hex"
    using assms(1) by (simp add: Cons_nth_drop_Suc numeral_eq_Suc)
  obtain a b where ab: "hex_digit (hex ! 6) = Some a" "hex_digit (hex ! 7) = Some b"
    using assms by (metis nth_mem not_None_eq numeral_less_iff semiring_norm(76-81))
  then have "hex ! 7 \<noteq> 120" "hex ! 7 \<noteq> 88" by (auto simp: hex_digit_def)
  with ab have "sscanf_02x (drop 6 hex) = Some (16 * a + b)"
    by (simp add: sscanf_02x_def d str_head_def)
  with 1 2 ab show ?thesis by (simp add: parse_difficulty_def)
qed

section \<open>The timing accumulator keeps its shape\<close>

definition normalised :: "timeval \<Rightarrow> bool" where
  "normalised t \<longleftrightarrow> 0 \<le> tv_usec t \<and> tv_usec t < 1000000"

definition timing_ok :: "timing_info \<Rightarrow> bool" where
  "timing_ok info \<longleftrightarrow> length (totals info) = TIMING_SLOTS \<and> length (counts info) = TIMING_SLOTS \<and>
     (\<forall>t \<in> set (totals info). normalised t) \<and> (\<forall>c \<in> set (counts info). 0 \<le> c) \<and>
     normalised (start info)"

lemma normalised_ops:
  "normalised a \<Longrightarrow> normalised b \<Longrightarrow> normalised (timeradd a b)"
  "normalised a \<Longrightarrow> normalised b \<Longrightarrow> normalised (timersub a b)"
  by (auto simp: normalised_def timeradd_def timersub_def Let_def)

lemma timeradd_micros:
  "tv_sec (timeradd a b) * 1000000 + tv_usec (timeradd a b) =
   (tv_sec a * 1000000 + tv_usec a) + (tv_sec b * 1000000 + tv_usec b)"
  by (simp add: timeradd_def Let_def)

lemma timersub_micros:
  "tv_sec (timersub a b) * 1000000 + tv_usec (timersub a b) =
   (tv_sec a * 1000000 + tv_usec a) - (tv_sec b * 1000000 + tv_usec b)"
  by (simp add: timersub_def Let_def)

lemma reset_timing_ok: "normalised (start info) \<Longrightarrow> timing_ok (reset_timing info)"
  by (simp add: timing_ok_def reset_timing_def normalised_def)

lemma start_timing_ok: "normalised now \<Longrightarrow> timing_ok info \<Longrightarrow> timing_ok (start_timing now info)"
  by (simp add: timing_ok_def start_timing_def)

lemma time_point_ok:
  assumes "normalised now" "timing_ok info" "time_point now info = Some info'"
  shows "timing_ok info'"
  using assms
  by (auto simp: timing_ok_def time_point_def Let_def normalised_ops split: if_splits
      dest!: set_update_subset_insert [THEN subsetD])

text \<open>One measured round: a sequence of points between two calls of \<open>start_timing\<close>.\<close>

fun time_points :: "timeval list \<Rightarrow> timing_info \<Rightarrow> timing_info option" where
  "time_points [] info = Some info"
| "time_points (now # nows) info =
     (case time_point now info of None \<Rightarrow> None | Some info' \<Rightarrow> time_points nows info')"

definition micros :: "timeval \<Rightarrow> int" where
  "micros t = tv_sec t * 1000000 + tv_usec t"

lemma micros_ops:
  "micros (timeradd a b) = micros a + micros b" "micros (timersub a b) = micros a - micros b"
  by (simp_all add: micros_def timeradd_micros timersub_micros)

lemma time_points_effect:
  assumes "timing_ok info" "\<forall>t \<in> set nows. normalised t" "slot info + length nows \<le> TIMING_SLOTS"
  shows "\<exists>info'. time_points nows info = Some info' \<and> timing_ok info' \<and>
    slot info' = slot info + length nows \<and> start info' = start info \<and>
    (\<forall>k < TIMING_SLOTS.
       micros (totals info' ! k) = micros (totals info ! k) +
         (if slot info \<le> k \<and> k < slot info + length nows
          then micros (nows ! (k - slot info)) - micros (start info) else 0) \<and>
       counts info' ! k = counts info ! k +
         (if slot info \<le> k \<and> k < slot info + length nows then 1 else 0))"
  using assms
proof (induction nows arbitrary: info)
  case Nil
  then show ?case by simp
next
  case (Cons now nows)
  let ?s = "slot info"
  let ?t = "(totals info)[?s := timeradd (totals info ! ?s) (timersub now (start info))]"
  let ?c = "(counts info)[?s := counts info ! ?s + 1]"
  let ?info1 = "info\<lparr>totals := ?t, counts := ?c, slot := ?s + 1\<rparr>"
  have 1: "time_point now info = Some ?info1"
    using Cons.prems(3) by (simp add: time_point_def Let_def)
  have "timing_ok ?info1" by (rule time_point_ok [OF _ _ 1]) (use Cons.prems in simp_all)
  with Cons.IH [of ?info1] Cons.prems obtain info' where
    2: "time_points nows ?info1 = Some info'" "timing_ok info'"
      "slot info' = ?s + 1 + length nows" "start info' = start info"
      "\<forall>k < TIMING_SLOTS.
       micros (totals info' ! k) = micros (?t ! k) +
         (if ?s + 1 \<le> k \<and> k < ?s + 1 + length nows
          then micros (nows ! (k - (?s + 1))) - micros (start info) else 0) \<and>
       counts info' ! k = ?c ! k + (if ?s + 1 \<le> k \<and> k < ?s + 1 + length nows then 1 else 0)"
    by auto
  have len: "length (totals info) = TIMING_SLOTS" "length (counts info) = TIMING_SLOTS"
    using Cons.prems(1) by (simp_all add: timing_ok_def)
  have "micros (totals info' ! k) = micros (totals info ! k) +
         (if ?s \<le> k \<and> k < ?s + length (now # nows)
          then micros ((now # nows) ! (k - ?s)) - micros (start info) else 0) \<and>
       counts info' ! k = counts info ! k + (if ?s \<le> k \<and> k < ?s + length (now # nows) then 1 else 0)"
    if k: "k < TIMING_SLOTS" for k
  proof (cases "k = ?s")
    case True
    with 2(5) k len show ?thesis by (simp add: micros_ops)
  next
    case False
    then have "k - ?s = Suc (k - (?s + 1))" if "?s \<le> k" using that by simp
    with False 2(5) k show ?thesis by auto
  qed
  with 1 2 show ?case by simp
qed

lemma time_points_overrun:
  assumes "TIMING_SLOTS < slot info + length nows" "slot info \<le> TIMING_SLOTS"
  shows "time_points nows info = None"
  using assms
proof (induction nows arbitrary: info)
  case (Cons now nows)
  then show ?case by (auto simp: time_point_def Let_def)
qed simp

lemma print_loop_reads:
  "print_loop info n i \<noteq> None \<longleftrightarrow> (\<exists>k. i \<le> k \<and> k < i + n \<and> counts info ! k = 0)"
proof (induction info n i rule: print_loop.induct)
  case (2 info n i)
  have "(\<exists>k. i \<le> k \<and> k < i + Suc n \<and> counts info ! k = 0) \<longleftrightarrow>
    counts info ! i = 0 \<or> (\<exists>k. i + 1 \<le> k \<and> k < i + 1 + n \<and> counts info ! k = 0)"
    by (metis Suc_eq_plus1 Suc_leI add_Suc add_Suc_right le_neq_implies_less le_refl less_add_Suc1 Suc_leD)
  with 2 show ?case by simp
qed simp

section \<open>Properties\<close>



text \<open>
  (C34) The difficulty parser on a 40-digit hexadecimal object id: it refuses the id unless it starts
  with six zero digits, and otherwise returns the byte given by the seventh and eighth digits.
\<close>

theorem parse_difficulty_correct:
  assumes "length hex = 40" "\<forall>c \<in> set hex. hex_digit c \<noteq> None"
  shows "parse_difficulty hex =
    (if take 6 hex = ascii ''000000''
     then Difficulty (of_nat (16 * the (hex_digit (hex ! 6)) + the (hex_digit (hex ! 7))))
     else Exit)"
  using assms by (rule parse_difficulty_hex)

theorem parse_difficulty_correct_witness:
  "parse_difficulty (ascii ''0000001000000000000000000000000000000000'') = Difficulty 16"
  using parse_difficulty_correct [of "ascii ''0000001000000000000000000000000000000000''"]
  by (simp add: ascii_def hex_digit_def)

text \<open>
  A measured round of the timing accumulator: after \<open>start_timing\<close>, up to ten time points are
  all recorded in bounds, add exactly the elapsed microseconds to the total of their own slot and
  one to its count, touch no other slot and keep the accumulator well formed; an eleventh point
  would be out of bounds.
\<close>

lemma timing_round_correct:
  assumes "timing_ok info" "normalised now" "\<forall>t \<in> set nows. normalised t"
  shows "if length nows \<le> TIMING_SLOTS
    then \<exists>info'. time_points nows (start_timing now info) = Some info' \<and> timing_ok info' \<and>
      (\<forall>k < TIMING_SLOTS.
         micros (totals info' ! k) = micros (totals info ! k) +
           (if k < length nows then micros (nows ! k) - micros now else 0) \<and>
         counts info' ! k = counts info ! k + (if k < length nows then 1 else 0))
    else time_points nows (start_timing now info) = None"
  using time_points_effect [OF start_timing_ok [OF assms(2,1)] assms(3)]
    time_points_overrun [of "start_timing now info" nows]
  by (auto simp: start_timing_def)

text \<open>
  \<open>print_timing\<close> reads its arrays in bounds exactly when one of the ten slots has never been
  counted: its loop has no other end, so with all ten slots in use it runs past the arrays.
\<close>

lemma print_timing_in_bounds:
  "print_timing info \<noteq> None \<longleftrightarrow> (\<exists>k < TIMING_SLOTS. counts info ! k = 0)"
  using print_loop_reads [of info TIMING_SLOTS 0] by (auto simp: print_timing_def)

end
