(* ===== verification/Sha1_Generic.thy ===== *)
theory Sha1_Generic
  imports Sha1_Spec
begin

text \<open>
  libgit2's portable SHA-1 (\<open>libgit2-development/src/hash/hash_generic.c\<close>) and the wrappers of
  \<open>hash.c\<close>, with which the object database names every object the miner writes.
  \<open>SHA_ROUND\<close> and the five \<open>T_*\<close> macros are functions that return the registers they
  assign; the eighty macro calls keep the register rotation of the source.  The context's
  \<open>W\<close> array is used by the code as a 64-byte buffer and modelled as one.  The results are that
  \<open>hash__block\<close> is the compression function, that any sequence of updates followed by
  \<open>git_hash_final\<close> is SHA-1 of the concatenated data, and that the context provides the
  streaming interface of the hashers.
\<close>

section \<open>One block\<close>

type_synonym hash_regs = "u32 list \<times> u32 \<times> u32 \<times> u32 \<times> u32 \<times> u32"

definition SHA_ROT :: "u32 \<Rightarrow> nat \<Rightarrow> nat \<Rightarrow> u32" where
  "SHA_ROT x l r = (push_bit l x OR drop_bit r x)"

definition SHA_ROL :: "u32 \<Rightarrow> nat \<Rightarrow> u32" where
  "SHA_ROL x n = SHA_ROT x n (32 - n)"

definition SHA_ROR :: "u32 \<Rightarrow> nat \<Rightarrow> u32" where
  "SHA_ROR x n = SHA_ROT x (32 - n) n"

definition SHA_SRC :: "byte list \<Rightarrow> nat \<Rightarrow> u32" where
  "SHA_SRC data t = be32 (take 4 (drop (4 * t) data))"

definition SHA_MIX :: "u32 list \<Rightarrow> nat \<Rightarrow> u32" where
  "SHA_MIX array t =
     SHA_ROL (array ! ((t + 13) mod 16) XOR array ! ((t + 8) mod 16) XOR
              array ! ((t + 2) mod 16) XOR array ! (t mod 16)) 1"

definition SHA_ROUND :: "nat \<Rightarrow> u32 \<Rightarrow> u32 \<Rightarrow> u32 \<Rightarrow> hash_regs \<Rightarrow> hash_regs" where
  "SHA_ROUND t TEMP fn constant = (\<lambda>(array, A, B, C, D, E).
     (array[t mod 16 := TEMP], A, SHA_ROR B 2, C, D,
      E + (TEMP + SHA_ROL A 5 + fn + constant)))"

definition T_0_15 :: "byte list \<Rightarrow> nat \<Rightarrow> hash_regs \<Rightarrow> hash_regs" where
  "T_0_15 data t = (\<lambda>(array, A, B, C, D, E).
     SHA_ROUND t (SHA_SRC data t) (((C XOR D) AND B) XOR D) 0x5a827999 (array, A, B, C, D, E))"

definition T_16_19 :: "nat \<Rightarrow> hash_regs \<Rightarrow> hash_regs" where
  "T_16_19 t = (\<lambda>(array, A, B, C, D, E).
     SHA_ROUND t (SHA_MIX array t) (((C XOR D) AND B) XOR D) 0x5a827999 (array, A, B, C, D, E))"

definition T_20_39 :: "nat \<Rightarrow> hash_regs \<Rightarrow> hash_regs" where
  "T_20_39 t = (\<lambda>(array, A, B, C, D, E).
     SHA_ROUND t (SHA_MIX array t) (B XOR C XOR D) 0x6ed9eba1 (array, A, B, C, D, E))"

definition T_40_59 :: "nat \<Rightarrow> hash_regs \<Rightarrow> hash_regs" where
  "T_40_59 t = (\<lambda>(array, A, B, C, D, E).
     SHA_ROUND t (SHA_MIX array t) ((B AND C) + (D AND (B XOR C))) 0x8f1bbcdc (array, A, B, C, D, E))"

definition T_60_79 :: "nat \<Rightarrow> hash_regs \<Rightarrow> hash_regs" where
  "T_60_79 t = (\<lambda>(array, A, B, C, D, E).
     SHA_ROUND t (SHA_MIX array t) (B XOR C XOR D) 0xca62c1d6 (array, A, B, C, D, E))"

definition hash_rounds_0_15 :: "byte list \<Rightarrow> hash_regs \<Rightarrow> hash_regs" where
  "hash_rounds_0_15 data = (\<lambda>(array, A, B, C, D, E).
     let (array, A, B, C, D, E) = T_0_15 data 0 (array, A, B, C, D, E);
         (array, E, A, B, C, D) = T_0_15 data 1 (array, E, A, B, C, D);
         (array, D, E, A, B, C) = T_0_15 data 2 (array, D, E, A, B, C);
         (array, C, D, E, A, B) = T_0_15 data 3 (array, C, D, E, A, B);
         (array, B, C, D, E, A) = T_0_15 data 4 (array, B, C, D, E, A);
         (array, A, B, C, D, E) = T_0_15 data 5 (array, A, B, C, D, E);
         (array, E, A, B, C, D) = T_0_15 data 6 (array, E, A, B, C, D);
         (array, D, E, A, B, C) = T_0_15 data 7 (array, D, E, A, B, C);
         (array, C, D, E, A, B) = T_0_15 data 8 (array, C, D, E, A, B);
         (array, B, C, D, E, A) = T_0_15 data 9 (array, B, C, D, E, A);
         (array, A, B, C, D, E) = T_0_15 data 10 (array, A, B, C, D, E);
         (array, E, A, B, C, D) = T_0_15 data 11 (array, E, A, B, C, D);
         (array, D, E, A, B, C) = T_0_15 data 12 (array, D, E, A, B, C);
         (array, C, D, E, A, B) = T_0_15 data 13 (array, C, D, E, A, B);
         (array, B, C, D, E, A) = T_0_15 data 14 (array, B, C, D, E, A);
         (array, A, B, C, D, E) = T_0_15 data 15 (array, A, B, C, D, E)
     in (array, A, B, C, D, E))"

definition hash_rounds_16_19 :: "hash_regs \<Rightarrow> hash_regs" where
  "hash_rounds_16_19 = (\<lambda>(array, A, B, C, D, E).
     let (array, E, A, B, C, D) = T_16_19 16 (array, E, A, B, C, D);
         (array, D, E, A, B, C) = T_16_19 17 (array, D, E, A, B, C);
         (array, C, D, E, A, B) = T_16_19 18 (array, C, D, E, A, B);
         (array, B, C, D, E, A) = T_16_19 19 (array, B, C, D, E, A)
     in (array, A, B, C, D, E))"

definition hash_rounds_20_39 :: "hash_regs \<Rightarrow> hash_regs" where
  "hash_rounds_20_39 = (\<lambda>(array, A, B, C, D, E).
     let (array, A, B, C, D, E) = T_20_39 20 (array, A, B, C, D, E);
         (array, E, A, B, C, D) = T_20_39 21 (array, E, A, B, C, D);
         (array, D, E, A, B, C) = T_20_39 22 (array, D, E, A, B, C);
         (array, C, D, E, A, B) = T_20_39 23 (array, C, D, E, A, B);
         (array, B, C, D, E, A) = T_20_39 24 (array, B, C, D, E, A);
         (array, A, B, C, D, E) = T_20_39 25 (array, A, B, C, D, E);
         (array, E, A, B, C, D) = T_20_39 26 (array, E, A, B, C, D);
         (array, D, E, A, B, C) = T_20_39 27 (array, D, E, A, B, C);
         (array, C, D, E, A, B) = T_20_39 28 (array, C, D, E, A, B);
         (array, B, C, D, E, A) = T_20_39 29 (array, B, C, D, E, A);
         (array, A, B, C, D, E) = T_20_39 30 (array, A, B, C, D, E);
         (array, E, A, B, C, D) = T_20_39 31 (array, E, A, B, C, D);
         (array, D, E, A, B, C) = T_20_39 32 (array, D, E, A, B, C);
         (array, C, D, E, A, B) = T_20_39 33 (array, C, D, E, A, B);
         (array, B, C, D, E, A) = T_20_39 34 (array, B, C, D, E, A);
         (array, A, B, C, D, E) = T_20_39 35 (array, A, B, C, D, E);
         (array, E, A, B, C, D) = T_20_39 36 (array, E, A, B, C, D);
         (array, D, E, A, B, C) = T_20_39 37 (array, D, E, A, B, C);
         (array, C, D, E, A, B) = T_20_39 38 (array, C, D, E, A, B);
         (array, B, C, D, E, A) = T_20_39 39 (array, B, C, D, E, A)
     in (array, A, B, C, D, E))"

definition hash_rounds_40_59 :: "hash_regs \<Rightarrow> hash_regs" where
  "hash_rounds_40_59 = (\<lambda>(array, A, B, C, D, E).
     let (array, A, B, C, D, E) = T_40_59 40 (array, A, B, C, D, E);
         (array, E, A, B, C, D) = T_40_59 41 (array, E, A, B, C, D);
         (array, D, E, A, B, C) = T_40_59 42 (array, D, E, A, B, C);
         (array, C, D, E, A, B) = T_40_59 43 (array, C, D, E, A, B);
         (array, B, C, D, E, A) = T_40_59 44 (array, B, C, D, E, A);
         (array, A, B, C, D, E) = T_40_59 45 (array, A, B, C, D, E);
         (array, E, A, B, C, D) = T_40_59 46 (array, E, A, B, C, D);
         (array, D, E, A, B, C) = T_40_59 47 (array, D, E, A, B, C);
         (array, C, D, E, A, B) = T_40_59 48 (array, C, D, E, A, B);
         (array, B, C, D, E, A) = T_40_59 49 (array, B, C, D, E, A);
         (array, A, B, C, D, E) = T_40_59 50 (array, A, B, C, D, E);
         (array, E, A, B, C, D) = T_40_59 51 (array, E, A, B, C, D);
         (array, D, E, A, B, C) = T_40_59 52 (array, D, E, A, B, C);
         (array, C, D, E, A, B) = T_40_59 53 (array, C, D, E, A, B);
         (array, B, C, D, E, A) = T_40_59 54 (array, B, C, D, E, A);
         (array, A, B, C, D, E) = T_40_59 55 (array, A, B, C, D, E);
         (array, E, A, B, C, D) = T_40_59 56 (array, E, A, B, C, D);
         (array, D, E, A, B, C) = T_40_59 57 (array, D, E, A, B, C);
         (array, C, D, E, A, B) = T_40_59 58 (array, C, D, E, A, B);
         (array, B, C, D, E, A) = T_40_59 59 (array, B, C, D, E, A)
     in (array, A, B, C, D, E))"

definition hash_rounds_60_79 :: "hash_regs \<Rightarrow> hash_regs" where
  "hash_rounds_60_79 = (\<lambda>(array, A, B, C, D, E).
     let (array, A, B, C, D, E) = T_60_79 60 (array, A, B, C, D, E);
         (array, E, A, B, C, D) = T_60_79 61 (array, E, A, B, C, D);
         (array, D, E, A, B, C) = T_60_79 62 (array, D, E, A, B, C);
         (array, C, D, E, A, B) = T_60_79 63 (array, C, D, E, A, B);
         (array, B, C, D, E, A) = T_60_79 64 (array, B, C, D, E, A);
         (array, A, B, C, D, E) = T_60_79 65 (array, A, B, C, D, E);
         (array, E, A, B, C, D) = T_60_79 66 (array, E, A, B, C, D);
         (array, D, E, A, B, C) = T_60_79 67 (array, D, E, A, B, C);
         (array, C, D, E, A, B) = T_60_79 68 (array, C, D, E, A, B);
         (array, B, C, D, E, A) = T_60_79 69 (array, B, C, D, E, A);
         (array, A, B, C, D, E) = T_60_79 70 (array, A, B, C, D, E);
         (array, E, A, B, C, D) = T_60_79 71 (array, E, A, B, C, D);
         (array, D, E, A, B, C) = T_60_79 72 (array, D, E, A, B, C);
         (array, C, D, E, A, B) = T_60_79 73 (array, C, D, E, A, B);
         (array, B, C, D, E, A) = T_60_79 74 (array, B, C, D, E, A);
         (array, A, B, C, D, E) = T_60_79 75 (array, A, B, C, D, E);
         (array, E, A, B, C, D) = T_60_79 76 (array, E, A, B, C, D);
         (array, D, E, A, B, C) = T_60_79 77 (array, D, E, A, B, C);
         (array, C, D, E, A, B) = T_60_79 78 (array, C, D, E, A, B);
         (array, B, C, D, E, A) = T_60_79 79 (array, B, C, D, E, A)
     in (array, A, B, C, D, E))"

text \<open>The block's local \<open>array\<close> is uninitialised on entry; its contents are the parameter \<open>array\<close>.\<close>

definition hash__block_from :: "u32 list \<Rightarrow> hash_digest \<Rightarrow> byte list \<Rightarrow> hash_digest" where
  "hash__block_from array H data =
     (let regs = (array, h0 H, h1 H, h2 H, h3 H, h4 H);
          regs = hash_rounds_0_15 data regs;
          regs = hash_rounds_16_19 regs;
          regs = hash_rounds_20_39 regs;
          regs = hash_rounds_40_59 regs;
          (array, A, B, C, D, E) = hash_rounds_60_79 regs
      in \<lparr>h0 = h0 H + A, h1 = h1 H + B, h2 = h2 H + C, h3 = h3 H + D, h4 = h4 H + E\<rparr>)"

definition hash__block :: "hash_digest \<Rightarrow> byte list \<Rightarrow> hash_digest" where
  "hash__block H data = hash__block_from (replicate 16 0) H data"

section \<open>The block function is the compression function\<close>

lemma sha_f_choice: "((c XOR d) AND b) XOR d = (b AND c) OR (NOT b AND (d :: u32))"
  by (rule bit_word_eqI) (auto simp: bit_simps)

lemma sha_f_majority:
  "(b AND c) + (d AND (b XOR c)) = (b AND c) OR (b AND d) OR (c AND (d :: u32))"
proof -
  have "(b AND c) AND (d AND (b XOR c)) = 0" by (rule bit_word_eqI) (auto simp: bit_simps)
  then have "(b AND c) + (d AND (b XOR c)) = (b AND c) OR (d AND (b XOR c))"
    by (simp add: disjunctive_add bit_eq_iff bit_simps)
  then show ?thesis by (simp only:) (rule bit_word_eqI, auto simp: bit_simps)
qed

text \<open>
  The five registers the standard prescribes before round \<open>t\<close>, one function each, because the
  source passes them to its macros in rotating order.
\<close>

definition ra :: "u32 list \<Rightarrow> regs \<Rightarrow> nat \<Rightarrow> u32" where
  "ra m r t = fst (sha_rounds m r t)"

definition rb :: "u32 list \<Rightarrow> regs \<Rightarrow> nat \<Rightarrow> u32" where
  "rb m r t = fst (snd (sha_rounds m r t))"

definition rc :: "u32 list \<Rightarrow> regs \<Rightarrow> nat \<Rightarrow> u32" where
  "rc m r t = fst (snd (snd (sha_rounds m r t)))"

definition rd :: "u32 list \<Rightarrow> regs \<Rightarrow> nat \<Rightarrow> u32" where
  "rd m r t = fst (snd (snd (snd (sha_rounds m r t))))"

definition re :: "u32 list \<Rightarrow> regs \<Rightarrow> nat \<Rightarrow> u32" where
  "re m r t = snd (snd (snd (snd (sha_rounds m r t))))"

lemmas reg_defs = ra_def rb_def rc_def rd_def re_def

lemma reg_next:
  "ra m r (t + 1) = rotl32 5 (ra m r t) + sha_f t (rb m r t) (rc m r t) (rd m r t) + re m r t +
     sha_k t + sched m t"
  "rb m r (t + 1) = ra m r t" "rc m r (t + 1) = rotl32 30 (rb m r t)"
  "rd m r (t + 1) = rc m r t" "re m r (t + 1) = rd m r t"
  by (simp_all add: reg_defs sha_round_def case_prod_unfold)

lemma SHA_ROUND_regs:
  assumes "fn = sha_f t (rb m r t) (rc m r t) (rd m r t)" "k = sha_k t" "x = sched m t"
  shows "SHA_ROUND t x fn k (array, ra m r t, rb m r t, rc m r t, rd m r t, re m r t) =
    (array[t mod 16 := x], rb m r (t + 1), rc m r (t + 1), rd m r (t + 1), re m r (t + 1),
     ra m r (t + 1))"
  unfolding assms SHA_ROUND_def reg_next SHA_ROR_def SHA_ROL_def SHA_ROT_def rotl32_def
  by (simp add: ac_simps)

text \<open>Before round \<open>t\<close> the array holds the last sixteen schedule words.\<close>

definition recent :: "u32 list \<Rightarrow> nat \<Rightarrow> u32 list" where
  "recent m t = window m (t - 16)"

lemma mod_shift: "(u + 16 + k) mod 16 = (u + k) mod (16::nat)"
  by (metis add.assoc add.commute mod_add_self2)

lemma SHA_MIX_recent:
  assumes "16 \<le> t"
  shows "SHA_MIX (recent m t) t = sched m t"
proof -
  obtain u where t: "t = u + 16" using assms by (metis add.commute le_Suc_ex)
  show ?thesis
    unfolding t SHA_MIX_def recent_def mod_shift sched_from_window SHA_ROL_def SHA_ROT_def rotl32_def
    by simp
qed

lemma recent_next: "16 \<le> t \<Longrightarrow> (recent m t)[t mod 16 := sched m t] = recent m (t + 1)"
  using window_Suc [of m "t - 16"]
  by (simp add: recent_def le_mod_geq [symmetric] Suc_diff_le [symmetric])

lemma T_steps:
  "16 \<le> t \<Longrightarrow> t < 20 \<Longrightarrow>
     T_16_19 t (recent m t, ra m r t, rb m r t, rc m r t, rd m r t, re m r t) =
     (recent m (t + 1), rb m r (t + 1), rc m r (t + 1), rd m r (t + 1), re m r (t + 1), ra m r (t + 1))"
  "20 \<le> t \<Longrightarrow> t < 40 \<Longrightarrow>
     T_20_39 t (recent m t, ra m r t, rb m r t, rc m r t, rd m r t, re m r t) =
     (recent m (t + 1), rb m r (t + 1), rc m r (t + 1), rd m r (t + 1), re m r (t + 1), ra m r (t + 1))"
  "40 \<le> t \<Longrightarrow> t < 60 \<Longrightarrow>
     T_40_59 t (recent m t, ra m r t, rb m r t, rc m r t, rd m r t, re m r t) =
     (recent m (t + 1), rb m r (t + 1), rc m r (t + 1), rd m r (t + 1), re m r (t + 1), ra m r (t + 1))"
  "60 \<le> t \<Longrightarrow>
     T_60_79 t (recent m t, ra m r t, rb m r t, rc m r t, rd m r t, re m r t) =
     (recent m (t + 1), rb m r (t + 1), rc m r (t + 1), rd m r (t + 1), re m r (t + 1), ra m r (t + 1))"
  unfolding T_16_19_def T_20_39_def T_40_59_def T_60_79_def prod.case
  by (subst SHA_ROUND_regs;
      simp add: SHA_MIX_recent recent_next sha_f_def sha_k_def sha_f_choice sha_f_majority)+

text \<open>During the first sixteen rounds the array is filled from the input.\<close>

definition filling :: "u32 list \<Rightarrow> u32 list \<Rightarrow> nat \<Rightarrow> u32 list" where
  "filling array m t = take t m @ drop t array"

lemma filling_next:
  assumes "t < 16" "length m = 16" "length array = 16"
  shows "(filling array m t)[t := m ! t] = filling array m (t + 1)"
  using assms
  by (intro nth_equalityI) (auto simp: filling_def nth_list_update nth_append min_def)

lemma T_0_15_step:
  assumes "t < 16" "length data = 64" "length array = 16" "m = words_be data"
  shows "T_0_15 data t (filling array m t, ra m r t, rb m r t, rc m r t, rd m r t, re m r t) =
    (filling array m (t + 1), rb m r (t + 1), rc m r (t + 1), rd m r (t + 1), re m r (t + 1),
     ra m r (t + 1))"
proof -
  have len: "length m = 16" using assms(2,4) length_words_be [of data 16] by simp
  have src: "SHA_SRC data t = m ! t"
    using assms nth_words_be [of data 16 t] by (simp add: SHA_SRC_def)
  show ?thesis
    unfolding T_0_15_def prod.case
    by (subst SHA_ROUND_regs)
      (use assms len src filling_next [OF assms(1) len assms(3)] in
        \<open>simp_all add: sched_small sha_f_def sha_k_def sha_f_choice\<close>)
qed

lemma hash_rounds_0_15_regs:
  assumes "length data = 64" "length array = 16" "m = words_be data"
  shows "hash_rounds_0_15 data (filling array m 0, ra m r 0, rb m r 0, rc m r 0, rd m r 0, re m r 0) =
    (filling array m 16, rb m r 16, rc m r 16, rd m r 16, re m r 16, ra m r 16)"
  unfolding hash_rounds_0_15_def Let_def
  by (simp add: T_0_15_step [OF _ assms] del: One_nat_def)

lemma hash_rounds_regs:
  "hash_rounds_16_19 (recent m 16, rb m r 16, rc m r 16, rd m r 16, re m r 16, ra m r 16) =
     (recent m 20, ra m r 20, rb m r 20, rc m r 20, rd m r 20, re m r 20)"
  "hash_rounds_20_39 (recent m 20, ra m r 20, rb m r 20, rc m r 20, rd m r 20, re m r 20) =
     (recent m 40, ra m r 40, rb m r 40, rc m r 40, rd m r 40, re m r 40)"
  "hash_rounds_40_59 (recent m 40, ra m r 40, rb m r 40, rc m r 40, rd m r 40, re m r 40) =
     (recent m 60, ra m r 60, rb m r 60, rc m r 60, rd m r 60, re m r 60)"
  "hash_rounds_60_79 (recent m 60, ra m r 60, rb m r 60, rc m r 60, rd m r 60, re m r 60) =
     (recent m 80, ra m r 80, rb m r 80, rc m r 80, rd m r 80, re m r 80)"
  unfolding hash_rounds_16_19_def hash_rounds_20_39_def hash_rounds_40_59_def hash_rounds_60_79_def
    Let_def
  by (simp_all add: T_steps)

lemma hash__block_from_compress:
  assumes "length data = 64" "length array = 16"
  shows "hash__block_from array H data = sha_compress H (words_be data)"
proof -
  let ?m = "words_be data" and ?r = "regs_of H"
  have len: "length ?m = 16" using assms(1) length_words_be [of data 16] by simp
  have init: "(array, h0 H, h1 H, h2 H, h3 H, h4 H) =
      (filling array ?m 0, ra ?m ?r 0, rb ?m ?r 0, rc ?m ?r 0, rd ?m ?r 0, re ?m ?r 0)"
    by (simp add: filling_def reg_defs regs_of_def)
  have fill: "filling array ?m 16 = recent ?m 16"
    using len assms(2) by (simp add: filling_def recent_def window_0)
  show ?thesis
    unfolding hash__block_from_def Let_def init hash_rounds_0_15_regs [OF assms refl] fill
      hash_rounds_regs prod.case
    by (simp add: sha_compress_def add_regs_def reg_defs case_prod_unfold)
qed

interpretation git_block: sha1_block hash__block
  by unfold_locales (simp add: hash__block_def hash__block_from_compress)

section \<open>The streaming context\<close>

record git_hash_ctx =
  ctx_size :: u64
  ctx_H :: hash_digest
  ctx_W :: "byte list"

definition git_hash_init :: "git_hash_ctx \<Rightarrow> int \<times> git_hash_ctx" where
  "git_hash_init ctx =
     (0, ctx\<lparr>ctx_size := 0,
            ctx_H := \<lparr>h0 = 0x67452301, h1 = 0xefcdab89, h2 = 0x98badcfe, h3 = 0x10325476,
                      h4 = 0xc3d2e1f0\<rparr>\<rparr>)"

function update_loop :: "hash_digest \<Rightarrow> byte list \<Rightarrow> hash_digest \<times> byte list" where
  "update_loop H data =
     (if 64 \<le> length data then update_loop (hash__block H (take 64 data)) (drop 64 data)
      else (H, data))"
  by pat_completeness auto
termination by (relation "measure (\<lambda>(H, data). length data)") auto

declare update_loop.simps [simp del]

definition update_rest :: "git_hash_ctx \<Rightarrow> byte list \<Rightarrow> git_hash_ctx" where
  "update_rest ctx data =
     (let (H, data) = update_loop (ctx_H ctx) data
      in if data \<noteq> [] then ctx\<lparr>ctx_H := H, ctx_W := overwrite 0 data (ctx_W ctx)\<rparr>
         else ctx\<lparr>ctx_H := H\<rparr>)"

definition git_hash_update :: "git_hash_ctx \<Rightarrow> byte list \<Rightarrow> int \<times> git_hash_ctx" where
  "git_hash_update ctx data =
     (let lenW = unat (ctx_size ctx AND 63);
          ctx = ctx\<lparr>ctx_size := ctx_size ctx + of_nat (length data)\<rparr>
      in if lenW \<noteq> 0 then
           let left = 64 - lenW;
               left = (if length data < left then length data else left);
               ctx = ctx\<lparr>ctx_W := overwrite lenW (take left data) (ctx_W ctx)\<rparr>;
               lenW = (lenW + left) mod 64;
               data = drop left data
           in if lenW \<noteq> 0 then (0, ctx)
              else (0, update_rest (ctx\<lparr>ctx_H := hash__block (ctx_H ctx) (ctx_W ctx)\<rparr>) data)
         else (0, update_rest ctx data))"

definition git_hash_final :: "git_hash_ctx \<Rightarrow> int \<times> byte list \<times> git_hash_ctx" where
  "git_hash_final ctx =
     (let pad = (0x80 :: byte) # replicate 63 0;
          padlen = bytes_be32 (ucast (drop_bit 29 (ctx_size ctx))) @
                   bytes_be32 (ucast (push_bit 3 (ctx_size ctx)));
          i = uint (ctx_size ctx AND 63);
          ctx = snd (git_hash_update ctx (take (1 + nat ((55 - i) mod 64)) pad));
          ctx = snd (git_hash_update ctx padlen)
      in (0, bytes_be32 (h0 (ctx_H ctx)) @ bytes_be32 (h1 (ctx_H ctx)) @ bytes_be32 (h2 (ctx_H ctx)) @
             bytes_be32 (h3 (ctx_H ctx)) @ bytes_be32 (h4 (ctx_H ctx)), ctx))"

definition git_hash_buf :: "git_hash_ctx \<Rightarrow> byte list \<Rightarrow> int \<times> byte list option" where
  "git_hash_buf ctx data =
     (let (rc, ctx) = git_hash_init ctx
      in if rc < 0 then (- 1, None)
         else let (error, ctx) = git_hash_update ctx data
              in if 0 \<le> error then let (error, out, ctx) = git_hash_final ctx in (error, Some out)
                 else (error, None))"

fun hash_vec_loop :: "git_hash_ctx \<Rightarrow> byte list list \<Rightarrow> int \<times> git_hash_ctx" where
  "hash_vec_loop ctx [] = (0, ctx)"
| "hash_vec_loop ctx (v # vs) =
     (let (error, ctx) = git_hash_update ctx v
      in if error < 0 then (error, ctx) else hash_vec_loop ctx vs)"

definition git_hash_vec :: "git_hash_ctx \<Rightarrow> byte list list \<Rightarrow> int \<times> byte list option" where
  "git_hash_vec ctx vec =
     (let (rc, ctx) = git_hash_init ctx
      in if rc < 0 then (- 1, None)
         else let (error, ctx) = hash_vec_loop ctx vec
              in if error < 0 then (error, None)
                 else let (error, out, ctx) = git_hash_final ctx in (error, Some out))"

section \<open>The context refines the message absorbed so far\<close>

definition ctx_holds :: "git_hash_ctx \<Rightarrow> byte list \<Rightarrow> bool" where
  "ctx_holds ctx m \<longleftrightarrow>
     ctx_size ctx = of_nat (length m) \<and> length (ctx_W ctx) = 64 \<and>
     (\<exists>blk rest. m = blk @ rest \<and> length blk mod 64 = 0 \<and> length rest < 64 \<and>
        ctx_H ctx = sha_absorb sha_init blk \<and> take (length rest) (ctx_W ctx) = rest)"

lemma low_six_bits: "unat ((of_nat n :: u64) AND 63) = n mod 64"
proof -
  have "(63 :: u64) = mask 6" by (simp add: mask_eq_exp_minus_1)
  then have "(of_nat n :: u64) AND 63 = take_bit 6 (of_nat n)" by (simp only: take_bit_eq_mask)
  then have "unat ((of_nat n :: u64) AND 63) = take_bit 6 (take_bit 64 n)"
    by (simp only: unsigned_take_bit_eq unsigned_of_nat) simp
  then show ?thesis by (simp only: take_bit_take_bit) (simp add: take_bit_eq_mod)
qed

lemma update_loop_absorb:
  "update_loop H data =
     (sha_absorb H (take (64 * (length data div 64)) data), drop (64 * (length data div 64)) data)"
proof (induction H data rule: update_loop.induct)
  case (1 H data)
  show ?case
  proof (cases "64 \<le> length data")
    case True
    then obtain q where q: "length data div 64 = Suc q" "length (drop 64 data) div 64 = q"
      by (simp add: le_div_geq)
    have split: "take (64 * Suc q) data = take 64 data @ take (64 * q) (drop 64 data)"
      by (simp add: take_add)
    have "sha_absorb H (take (64 * Suc q) data) =
        sha_absorb (hash__block H (take 64 data)) (take (64 * q) (drop 64 data))"
      using True unfolding split by (simp add: sha_absorb_append git_block.block_absorb)
    with True 1 q show ?thesis
      by (simp add: update_loop.simps [of H data] add.commute)
  next
    case False
    then show ?thesis by (simp add: update_loop.simps [of H data])
  qed
qed

lemma update_rest_holds:
  assumes "ctx_size ctx = of_nat (length m + length data)" "length (ctx_W ctx) = 64"
    and "length m mod 64 = 0" "ctx_H ctx = sha_absorb sha_init m"
  shows "ctx_holds (update_rest ctx data) (m @ data)"
proof -
  let ?k = "64 * (length data div 64)"
  let ?blk = "m @ take ?k data" and ?rest = "drop ?k data"
  have rest: "length ?rest < 64" by simp
  have "length (take ?k data) = ?k"
    using times_div_less_eq_dividend [of 64 "length data"] by (simp add: min_absorb2)
  then have len: "length ?blk mod 64 = 0" using assms(3) by simp
  have H: "sha_absorb sha_init ?blk = sha_absorb (ctx_H ctx) (take ?k data)"
    using assms(3,4) by (simp add: sha_absorb_append)
  have "take (length ?rest) (ctx_W (update_rest ctx data)) = ?rest"
    by (simp add: update_rest_def update_loop_absorb Let_def overwrite_def)
  moreover have "length (ctx_W (update_rest ctx data)) = 64"
    using assms(2) rest by (auto simp: update_rest_def update_loop_absorb Let_def)
  moreover have "ctx_H (update_rest ctx data) = sha_absorb sha_init ?blk"
    "ctx_size (update_rest ctx data) = of_nat (length (m @ data))"
    using H assms(1) by (simp_all add: update_rest_def update_loop_absorb Let_def)
  ultimately show ?thesis
    unfolding ctx_holds_def using len rest by (intro conjI exI [of _ ?blk] exI [of _ ?rest]) simp_all
qed

text \<open>The two ways in which a partly filled buffer takes new data.\<close>

lemma fill_partly:
  assumes "m = blk @ rest" "length blk mod 64 = 0" "length (rest @ data) < 64"
    and "ctx_H ctx = sha_absorb sha_init blk" "take (length rest) (ctx_W ctx) = rest"
    and "ctx_size ctx = of_nat (length (m @ data))" "length (ctx_W ctx) = 64"
  shows "ctx_holds (ctx\<lparr>ctx_W := overwrite (length rest) data (ctx_W ctx)\<rparr>) (m @ data)"
proof -
  have "take (length (rest @ data)) (overwrite (length rest) data (ctx_W ctx)) = rest @ data"
    using assms(3,5,7) by (simp add: overwrite_def)
  with assms show ?thesis unfolding ctx_holds_def
    by (intro conjI exI [of _ blk] exI [of _ "rest @ data"]) simp_all
qed

lemma fill_and_hash:
  assumes "m = blk @ rest" "length blk mod 64 = 0" "length rest + left = 64" "left \<le> length data"
    and "ctx_H ctx = sha_absorb sha_init blk" "take (length rest) (ctx_W ctx) = rest"
    and "ctx_size ctx = of_nat (length (m @ data))" "length (ctx_W ctx) = 64"
    and "W = overwrite (length rest) (take left data) (ctx_W ctx)"
  shows "ctx_holds (update_rest (ctx\<lparr>ctx_W := W, ctx_H := hash__block (ctx_H ctx) W\<rparr>) (drop left data))
    (m @ data)"
proof -
  have W: "W = rest @ take left data" "length W = 64"
    using assms by (simp_all add: overwrite_def)
  have "ctx_holds (update_rest (ctx\<lparr>ctx_W := W, ctx_H := hash__block (ctx_H ctx) W\<rparr>) (drop left data))
      ((m @ take left data) @ drop left data)"
  proof (rule update_rest_holds)
    show "length (m @ take left data) mod 64 = 0" using assms(1-4) by simp
    show "ctx_H (ctx\<lparr>ctx_W := W, ctx_H := hash__block (ctx_H ctx) W\<rparr>) =
        sha_absorb sha_init (m @ take left data)"
      using assms(1,2,5) W by (simp add: git_block.block_absorb sha_absorb_append)
    have "length (m @ take left data) + length (drop left data) = length (m @ data)"
      using assms(4) by simp
    moreover have "ctx_size (ctx\<lparr>ctx_W := W, ctx_H := hash__block (ctx_H ctx) W\<rparr>) = ctx_size ctx"
      by simp
    ultimately show "ctx_size (ctx\<lparr>ctx_W := W, ctx_H := hash__block (ctx_H ctx) W\<rparr>) =
        of_nat (length (m @ take left data) + length (drop left data))"
      by (simp only: assms(7))
  qed (use W(2) in simp)
  then show ?thesis by simp
qed

lemma git_hash_update_holds:
  assumes "ctx_holds ctx m"
  shows "\<exists>ctx'. git_hash_update ctx data = (0, ctx') \<and> ctx_holds ctx' (m @ data)"
proof -
  obtain blk rest where m: "m = blk @ rest" "length blk mod 64 = 0" "length rest < 64"
      "ctx_H ctx = sha_absorb sha_init blk" "take (length rest) (ctx_W ctx) = rest"
      "ctx_size ctx = of_nat (length m)" "length (ctx_W ctx) = 64"
    using assms by (auto simp: ctx_holds_def)
  have "length m mod 64 = length rest"
    using m(1-3) by (simp add: mod_add_multiple)
  then have lenW: "unat (ctx_size ctx AND 63) = length rest"
    by (simp only: m(6) low_six_bits)
  let ?c = "ctx\<lparr>ctx_size := ctx_size ctx + of_nat (length data)\<rparr>"
  have sz: "ctx_size ?c = of_nat (length (m @ data))" using m(6) by simp
  consider "rest = []" | "rest \<noteq> []" "length (rest @ data) < 64" | "rest \<noteq> []" "64 \<le> length (rest @ data)"
    by linarith
  then show ?thesis
  proof cases
    case 1
    then have "git_hash_update ctx data = (0, update_rest ?c data)"
      using lenW by (simp add: git_hash_update_def Let_def)
    moreover have "ctx_holds (update_rest ?c data) (m @ data)"
      by (rule update_rest_holds) (use 1 m sz in simp_all)
    ultimately show ?thesis by simp
  next
    case 2
    then have "git_hash_update ctx data = (0, ?c\<lparr>ctx_W := overwrite (length rest) data (ctx_W ?c)\<rparr>)"
      using lenW by (simp add: git_hash_update_def Let_def)
    moreover have "ctx_holds (?c\<lparr>ctx_W := overwrite (length rest) data (ctx_W ?c)\<rparr>) (m @ data)"
      by (rule fill_partly) (use 2 m sz in simp_all)
    ultimately show ?thesis by blast
  next
    case 3
    define W where "W = overwrite (length rest) (take (64 - length rest) data) (ctx_W ?c)"
    have "git_hash_update ctx data =
        (0, update_rest (?c\<lparr>ctx_W := W, ctx_H := hash__block (ctx_H ?c) W\<rparr>) (drop (64 - length rest) data))"
      using 3 lenW m(3) by (auto simp: git_hash_update_def Let_def W_def not_less)
    moreover have "ctx_holds (update_rest (?c\<lparr>ctx_W := W, ctx_H := hash__block (ctx_H ?c) W\<rparr>)
        (drop (64 - length rest) data)) (m @ data)"
      by (rule fill_and_hash) (use 3 m sz W_def in simp_all)
    ultimately show ?thesis by blast
  qed
qed

lemma git_hash_init_holds:
  assumes "length (ctx_W ctx) = 64"
  shows "\<exists>ctx'. git_hash_init ctx = (0, ctx') \<and> ctx_holds ctx' []"
proof -
  have "ctx_holds (snd (git_hash_init ctx)) []"
    unfolding ctx_holds_def using assms
    by (intro conjI exI [of _ "[]"] exI [of _ "[]"]) (simp_all add: git_hash_init_def sha_init_def)
  then show ?thesis by (simp add: git_hash_init_def)
qed

lemma ctx_holds_complete:
  assumes "ctx_holds ctx m" "length m mod 64 = 0"
  shows "ctx_H ctx = sha_absorb sha_init m"
proof -
  obtain blk rest where m: "m = blk @ rest" "length blk mod 64 = 0" "length rest < 64"
      "ctx_H ctx = sha_absorb sha_init blk"
    using assms(1) by (auto simp: ctx_holds_def)
  then have "length rest = 0" using assms(2) by (simp add: mod_add_multiple)
  with m show ?thesis by simp
qed

lemma final_zeros:
  assumes "r < 64"
  shows "nat ((55 - int r) mod 64) = (119 - r) mod 64"
proof (cases "r < 56")
  case True
  then have "(55 - int r) mod 64 = 55 - int r" by simp
  moreover have "(119 - r) mod 64 = 55 - r" using True by (simp add: le_mod_geq)
  ultimately show ?thesis using True by simp
next
  case False
  have "(55 - int r) mod 64 = (55 - int r + 64) mod 64" by (simp only: mod_add_self2)
  also have "\<dots> = (119 - int r) mod 64" by simp
  also have "\<dots> = 119 - int r" using False assms by (intro mod_pos_pos_trivial) auto
  finally show ?thesis using False assms by simp
qed

lemma final_length_field:
  "bytes_be32 (ucast (drop_bit 29 (of_nat n :: u64))) @ bytes_be32 (ucast (push_bit 3 (of_nat n :: u64))) =
   bytes_be64 (of_nat (8 * n))"
proof -
  have "(of_nat (8 * n) :: u64) = push_bit 3 (of_nat n)" by (simp add: push_bit_eq_mult)
  moreover have "ucast (drop_bit 32 (push_bit 3 x :: u64)) = (ucast (drop_bit 29 x) :: u32)" for x
    by (rule bit_word_eqI) (auto simp: bit_simps)
  ultimately show ?thesis by (simp only: bytes_be64_def)
qed

lemma git_hash_final_sha1:
  assumes "ctx_holds ctx m"
  shows "\<exists>ctx'. git_hash_final ctx = (0, sha1 m, ctx')"
proof -
  have size: "ctx_size ctx = of_nat (length m)" using assms by (simp add: ctx_holds_def)
  have i: "uint (of_nat (length m) AND (63 :: u64)) = int (length m mod 64)"
    using low_six_bits [of "length m"] by (metis of_nat_unat)
  let ?z = "(119 - length m mod 64) mod 64"
  have pad: "take (1 + nat ((55 - uint (of_nat (length m) AND (63 :: u64))) mod 64))
      ((0x80 :: byte) # replicate 63 0) = [0x80] @ replicate ?z 0"
    unfolding i by (simp add: final_zeros min_def)
  obtain c1 where c1: "git_hash_update ctx ([0x80] @ replicate ?z 0) = (0, c1)"
      "ctx_holds c1 (m @ [0x80] @ replicate ?z 0)"
    using git_hash_update_holds [OF assms] by blast
  obtain c2 where c2: "git_hash_update c1 (bytes_be64 (of_nat (8 * length m))) = (0, c2)"
      "ctx_holds c2 ((m @ [0x80] @ replicate ?z 0) @ bytes_be64 (of_nat (8 * length m)))"
    using git_hash_update_holds [OF c1(2)] by blast
  then have "ctx_holds c2 (m @ sha_padding (length m))" by (simp add: sha_padding_def)
  then have "ctx_H c2 = sha_state m"
    by (simp add: ctx_holds_complete sha_state_def padded_length)
  then have "git_hash_final ctx = (0, sha1 m, c2)"
    by (simp only: git_hash_final_def Let_def size pad final_length_field c1(1) c2(1) snd_conv
        sha1_def digest_bytes_def)
  then show ?thesis by blast
qed

section \<open>Whole messages\<close>

lemma hash_vec_loop_holds:
  "ctx_holds ctx m \<Longrightarrow> \<exists>ctx'. hash_vec_loop ctx vs = (0, ctx') \<and> ctx_holds ctx' (m @ concat vs)"
proof (induction vs arbitrary: ctx m)
  case Nil
  then show ?case by simp
next
  case (Cons v vs)
  then obtain c where "git_hash_update ctx v = (0, c)" "ctx_holds c (m @ v)"
    using git_hash_update_holds by blast
  with Cons.IH [of c "m @ v"] show ?case by auto
qed

lemma git_hash_buf_sha1:
  assumes "length (ctx_W ctx) = 64"
  shows "git_hash_buf ctx data = (0, Some (sha1 data))"
proof -
  obtain c0 where c0: "git_hash_init ctx = (0, c0)" "ctx_holds c0 []"
    using git_hash_init_holds [OF assms] by blast
  obtain c1 where c1: "git_hash_update c0 data = (0, c1)" "ctx_holds c1 data"
    using git_hash_update_holds [OF c0(2)] by auto
  obtain c2 where "git_hash_final c1 = (0, sha1 data, c2)"
    using git_hash_final_sha1 [OF c1(2)] by blast
  with c0 c1 show ?thesis by (simp add: git_hash_buf_def)
qed

lemma git_hash_vec_sha1:
  assumes "length (ctx_W ctx) = 64"
  shows "git_hash_vec ctx vec = (0, Some (sha1 (concat vec)))"
proof -
  obtain c0 where c0: "git_hash_init ctx = (0, c0)" "ctx_holds c0 []"
    using git_hash_init_holds [OF assms] by blast
  obtain c1 where c1: "hash_vec_loop c0 vec = (0, c1)" "ctx_holds c1 (concat vec)"
    using hash_vec_loop_holds [OF c0(2)] by auto
  obtain c2 where "git_hash_final c1 = (0, sha1 (concat vec), c2)"
    using git_hash_final_sha1 [OF c1(2)] by blast
  with c0 c1 show ?thesis by (simp add: git_hash_vec_def)
qed

text \<open>The context as a provider of the streaming interface.\<close>

definition fresh_ctx :: git_hash_ctx where
  "fresh_ctx = \<lparr>ctx_size = 0, ctx_H = sha_init, ctx_W = replicate 64 0\<rparr>"

definition git_midstate :: "byte list \<Rightarrow> hash_digest" where
  "git_midstate bs = ctx_H (snd (git_hash_update (snd (git_hash_init fresh_ctx)) bs))"

interpretation git_stream: sha1_stream git_midstate
proof
  fix bs :: "byte list"
  assume len: "length bs mod 64 = 0"
  obtain c0 where c0: "git_hash_init fresh_ctx = (0, c0)" "ctx_holds c0 []"
    using git_hash_init_holds [of fresh_ctx] by (auto simp: fresh_ctx_def)
  obtain c1 where "git_hash_update c0 bs = (0, c1)" "ctx_holds c1 bs"
    using git_hash_update_holds [OF c0(2)] by auto
  with c0 len show "git_midstate bs = sha_absorb sha_init bs"
    by (simp add: git_midstate_def ctx_holds_complete)
qed

section \<open>Properties\<close>

text \<open>
  (C11) The streaming hash of libgit2's \<open>hash_generic.c\<close> is SHA-1 on vectors of buffers: whatever
  the pieces are, \<open>git_hash_vec\<close> returns success and the SHA-1 of their concatenation, from any
  context.
\<close>

theorem git_hash_vec_correct:
  assumes "length (ctx_W ctx) = 64"
  shows "git_hash_vec ctx vec = (0, Some (sha1 (concat vec)))"
  using assms by (rule git_hash_vec_sha1)

theorem git_hash_vec_correct_witness:
  "git_hash_vec fresh_ctx [[1, 2], [], replicate 100 7] = (0, Some (sha1 (1 # 2 # replicate 100 7)))"
  using git_hash_vec_correct [of fresh_ctx "[[1, 2], [], replicate 100 7]"] by (simp add: fresh_ctx_def)

text \<open>
  (C20) The hash context refines the list of bytes absorbed so far: initialisation gives the empty
  message, every update succeeds and appends its data, wherever the 64-byte block boundaries fall,
  and finalisation returns the SHA-1 of the message.
\<close>

theorem git_hash_refines_message:
  assumes "ctx_holds ctx m"
  shows "(\<exists>ctx'. git_hash_update ctx data = (0, ctx') \<and> ctx_holds ctx' (m @ data)) \<and>
    (\<exists>ctx'. git_hash_final ctx = (0, sha1 m, ctx')) \<and>
    (\<exists>ctx'. git_hash_init ctx = (0, ctx') \<and> ctx_holds ctx' [])"
  using git_hash_update_holds [OF assms] git_hash_final_sha1 [OF assms]
    git_hash_init_holds [of ctx] assms by (auto simp: ctx_holds_def)

theorem git_hash_refines_message_witness:
  "\<exists>ctx'. git_hash_update fresh_ctx [97, 98, 99] = (0, ctx') \<and> ctx_holds ctx' [97, 98, 99]"
proof -
  have "ctx_holds fresh_ctx []" by (simp add: ctx_holds_def fresh_ctx_def)
  then show ?thesis using git_hash_refines_message [of fresh_ctx "[]" "[97, 98, 99]"] by simp
qed

end
