(* ===== verification/Cuda_Hasher.thy ===== *)
theory Cuda_Hasher
  imports Sha1_Kernel Level1_Common Sha1_Generic
begin

text \<open>
  The host side of the CUDA hasher (\<open>level1/src/cuda.c\<close>): \<open>init_hasher\<close>,
  \<open>force_hash\<close> and \<open>free_hasher\<close>.  The CUDA runtime and OpenSSL are not part of the
  repository; their return codes and the OpenSSL midstate are fields of \<open>cuda_env\<close>, together
  with the values of the shared stop flag at successive polls.  The search loop of
  \<open>force_hash\<close> runs until it is stopped or finds a nonce, so it carries fuel; the fuel that
  is enough is stated with each result.
\<close>

section \<open>The host program\<close>

record cuda_env =
  midstate :: "byte list \<Rightarrow> hash_digest"
  rc_memset :: u32
  rc_block :: u32
  rc_difficulty :: u32
  rc_ctx :: u32
  rc_copy :: "nat \<Rightarrow> u32"
  stop_flag :: "nat \<Rightarrow> bool"

record cuda_state =
  dev :: device
  host_result :: u32
  difficulty :: byte
  gpu_errors :: "u32 list"

definition gpuAssert :: "u32 \<Rightarrow> cuda_state \<Rightarrow> cuda_state" where
  "gpuAssert code st = (if code \<noteq> 0 then st\<lparr>gpu_errors := gpu_errors st @ [code]\<rparr> else st)"

definition init_hasher :: "byte \<Rightarrow> cuda_state \<Rightarrow> int \<times> cuda_state" where
  "init_hasher diff st = (0, st\<lparr>difficulty := diff\<rparr>)"

definition block_words :: "byte list \<Rightarrow> u32 list" where
  "block_words buf =
     map (\<lambda>i. bswap32 (le32 (take 4 (drop (BUFFER_LENGTH - BLOCK_LENGTH + 4 * i) buf)))) [0..<16]"

definition store_word :: "nat \<Rightarrow> u32 \<Rightarrow> byte list \<Rightarrow> byte list" where
  "store_word i v buf = overwrite (BUFFER_LENGTH - BLOCK_LENGTH + 4 * i) (bytes_le32 v) buf"

fun force_loop ::
  "cuda_env \<Rightarrow> nat \<Rightarrow> nat \<Rightarrow> cuda_state \<Rightarrow> hash_args \<Rightarrow> (cuda_state \<times> hash_args) option" where
  "force_loop env 0 n st args = None"
| "force_loop env (Suc fuel) n st args =
     (if stop_flag env n then Some (st, args)
      else let i = of_nat n :: u32;
               st = st\<lparr>dev := force_kernel i (dev st)\<rparr>;
               st = (if rc_copy env n = 0 then st\<lparr>host_result := d_result (dev st)\<rparr> else st)
           in if host_result st \<noteq> 0 then
                let args = args\<lparr>found := 1\<rparr>;
                    args = args\<lparr>msg := store_word 12 (bswap32 (host_result st - 1)) (msg args)\<rparr>;
                    args = args\<lparr>msg := store_word 11 (bswap32 i) (msg args)\<rparr>
                in Some (st, args)
              else force_loop env fuel (n + 1) st args)"

definition force_hash ::
  "cuda_env \<Rightarrow> nat \<Rightarrow> cuda_state \<Rightarrow> hash_args \<Rightarrow> (cuda_state \<times> hash_args) option" where
  "force_hash env fuel st args =
     (let h_ctx = midstate env (take (BUFFER_LENGTH - BLOCK_LENGTH) (msg args));
          words = block_words (msg args);
          st = (if rc_memset env = 0 then st\<lparr>dev := (dev st)\<lparr>d_result := 0\<rparr>\<rparr> else st);
          (rc, d) = copy_constants (rc_block env) (rc_difficulty env) (rc_ctx env)
                      words (difficulty st) h_ctx (dev st);
          st = gpuAssert rc (st\<lparr>dev := d\<rparr>)
      in force_loop env fuel 0 st args)"

definition free_hasher :: "cuda_state \<Rightarrow> int \<times> cuda_state" where
  "free_hasher st = (0, st)"

section \<open>What a found message looks like\<close>

definition cuda_ok :: "cuda_env \<Rightarrow> bool" where
  "cuda_ok env \<longleftrightarrow> rc_memset env = 0 \<and> rc_block env = 0 \<and> rc_difficulty env = 0 \<and> rc_ctx env = 0 \<and>
     (\<forall>n. rc_copy env n = 0)"

definition padded_commit :: "byte list \<Rightarrow> bool" where
  "padded_commit buf \<longleftrightarrow> length buf = BUFFER_LENGTH \<and> drop COMMIT_LENGTH buf = sha_padding COMMIT_LENGTH"

definition zero_bits_36 :: "byte list \<Rightarrow> bool" where
  "zero_bits_36 m \<longleftrightarrow> take 4 (sha1 m) = [0, 0, 0, 0] \<and> drop_bit 4 (sha1 m ! 4) = 0"

definition with_nonce :: "u32 \<Rightarrow> u32 \<Rightarrow> byte list \<Rightarrow> byte list" where
  "with_nonce idx gid buf = overwrite 236 (bytes_be32 idx) (overwrite 240 (bytes_be32 gid) buf)"

lemma sha_padding_247: "length (sha_padding 247) = 9"
  by (simp add: length_sha_padding)

lemma with_nonce_padded:
  assumes "padded_commit buf"
  shows "padded_commit (with_nonce idx gid buf)"
    and "take 192 (with_nonce idx gid buf) = take 192 buf"
  using assms by (simp_all add: padded_commit_def with_nonce_def geometry buffer_simps)

lemma stored_nonce:
  "store_word 11 (bswap32 idx) (store_word 12 (bswap32 gid) buf) = with_nonce idx gid buf"
  by (simp add: store_word_def with_nonce_def geometry bytes_le32_bswap32)

lemma block_words_be:
  assumes "length buf = 256"
  shows "block_words buf = words_be (drop 192 buf)"
proof (rule nth_equalityI)
  have len: "length (drop 192 buf) = 4 * 16" using assms by simp
  show "length (block_words buf) = length (words_be (drop 192 buf))"
    using length_words_be [OF len] by (simp add: block_words_def)
  fix i assume "i < length (block_words buf)"
  then have i: "i < 16" by (simp add: block_words_def)
  show "block_words buf ! i = words_be (drop 192 buf) ! i"
    using nth_words_be [OF len i] i by (simp add: block_words_def geometry bswap32_le32 add.commute)
qed

lemma words_with_nonce:
  assumes "length buf = 256"
  shows "words_be (drop 192 (with_nonce idx gid buf)) = (words_be (drop 192 buf))[11 := idx, 12 := gid]"
proof (rule nth_equalityI)
  let ?b = "with_nonce idx gid buf"
  have len: "length (drop 192 buf) = 4 * 16" "length (drop 192 ?b) = 4 * 16"
    using assms by (simp_all add: with_nonce_def)
  show eq: "length (words_be (drop 192 ?b)) = length ((words_be (drop 192 buf))[11 := idx, 12 := gid])"
    using len length_words_be by simp
  fix i assume "i < length (words_be (drop 192 ?b))"
  then have i: "i < 16" using length_words_be [OF len(2)] by simp
  have "take 4 (drop (192 + 4 * i) ?b) =
      (if i = 11 then bytes_be32 idx else if i = 12 then bytes_be32 gid
       else take 4 (drop (192 + 4 * i) buf))"
  proof -
    consider "i = 11" | "i = 12" | "i < 11" | "12 < i" by linarith
    then show ?thesis using i assms
      by cases (auto intro!: nth_equalityI simp: with_nonce_def buffer_simps)
  qed
  then show "words_be (drop 192 ?b) ! i = (words_be (drop 192 buf))[11 := idx, 12 := gid] ! i"
    using nth_words_be [OF len(1) i] nth_words_be [OF len(2) i] i length_words_be [OF len(1)]
    by (simp add: nth_list_update add.commute)
qed

lemma bytes_be32_zero: "bytes_be32 x = [0, 0, 0, 0] \<longleftrightarrow> x = 0"
proof
  assume "bytes_be32 x = [0, 0, 0, 0]"
  then have "x = be32 [0, 0, 0, 0]" by (metis be32_bytes_be32)
  then show "x = 0" by (simp add: be32_def)
qed (simp add: bytes_be32_def)

lemma zero_bits_36_iff:
  "zero_bits_36 m \<longleftrightarrow> h0 (sha_state m) = 0 \<and> drop_bit 28 (h1 (sha_state m)) = 0"
proof -
  let ?d = "sha_state m"
  have b4: "sha1 m ! 4 = ucast (drop_bit 24 (h1 ?d))"
    by (simp add: sha1_def digest_bytes_def nth_append bytes_be32_def)
  have "drop_bit 4 (ucast (drop_bit 24 x) :: byte) = 0 \<longleftrightarrow> drop_bit 28 (x :: u32) = 0" for x
  proof -
    have "drop_bit 4 (ucast (drop_bit 24 x) :: byte) = ucast (drop_bit 28 x)"
      using bit_imp_le_length [of x] by (intro bit_word_eqI) (force simp: bit_simps)
    moreover have "(ucast (drop_bit 28 x) :: byte) = 0 \<longleftrightarrow> drop_bit 28 x = 0"
    proof
      assume eq: "(ucast (drop_bit 28 x) :: byte) = 0"
      show "drop_bit 28 x = 0"
      proof (rule bit_word_eqI)
        fix n assume "n < LENGTH(32)"
        have "bit (ucast (drop_bit 28 x) :: byte) n = bit (0 :: byte) n" using eq by simp
        then show "bit (drop_bit 28 x) n = bit 0 n"
          by (auto simp: bit_simps dest: bit_imp_le_length)
      qed
    qed simp
    ultimately show ?thesis by simp
  qed
  moreover have "take 4 (sha1 m) = bytes_be32 (h0 ?d)"
    by (simp add: sha1_def digest_bytes_def)
  ultimately show ?thesis by (simp add: zero_bits_36_def b4 bytes_be32_zero)
qed

text \<open>The device constants of a search and the connection to the hash of the whole message.\<close>

definition loaded :: "cuda_env \<Rightarrow> byte list \<Rightarrow> device \<Rightarrow> bool" where
  "loaded env buf d \<longleftrightarrow> c_block d = words_be (drop 192 buf) \<and> c_ctx d = midstate env (take 192 buf)"

lemma hit_is_target:
  assumes "sha1_stream (midstate env)" "padded_commit buf" "loaded env buf d"
  shows "kernel_hit d idx gid \<longleftrightarrow> zero_bits_36 (take COMMIT_LENGTH (with_nonce idx gid buf))"
proof -
  let ?b = "with_nonce idx gid buf"
  have len: "length buf = 256" using assms(2) by (simp add: padded_commit_def geometry)
  have pb: "length ?b = 256" "drop 247 ?b = sha_padding 247" "take 192 ?b = take 192 buf"
    using with_nonce_padded [OF assms(2), of idx gid] by (simp_all add: padded_commit_def geometry)
  have "sha_compress (midstate env (take 192 ?b)) (words_be (drop 192 ?b)) = sha_state (take 247 ?b)"
  proof (rule sha1_stream.finish_from_midstate [OF assms(1)])
    show "take 192 ?b @ drop 192 ?b = take 247 ?b @ sha_padding (length (take 247 ?b))"
      using pb(1) by (simp flip: pb(2))
  qed (use pb len in simp_all)
  moreover have "length (c_block d) = 16"
    using assms(3) len length_words_be [of "drop 192 buf" 16] by (simp add: loaded_def)
  ultimately show ?thesis
    using assms(3) len pb(3)
    by (simp add: kernel_hit_iff loaded_def words_with_nonce zero_bits_36_iff Let_def geometry)
qed

section \<open>The search loop\<close>

lemma force_kernel_frame:
  "c_block (force_kernel idx d) = c_block d" "c_ctx (force_kernel idx d) = c_ctx d"
  by (simp_all add: force_kernel_def run_threads_fold)

lemma loaded_force_kernel: "loaded env buf d \<Longrightarrow> loaded env buf (force_kernel idx d)"
  by (simp add: loaded_def force_kernel_frame)

text \<open>
  One induction over the loop gives everything: if it returns, then either the stop flag was seen
  before any launch reported, or the message carries a nonce of the first launch that reports one.
\<close>

lemma force_loop_result:
  assumes "sha1_stream (midstate env)" "padded_commit (msg args)" "cuda_ok env"
    and "loaded env (msg args) (dev st)" "d_result (dev st) = 0"
    and "force_loop env fuel n st args = Some (st', args')"
  shows "(\<exists>k \<ge> n. stop_flag env k \<and> args' = args) \<or>
    (\<exists>k \<ge> n. \<exists>g \<in> launch_nonces. args' = args\<lparr>found := 1, msg := with_nonce (of_nat k) g (msg args)\<rparr> \<and>
       zero_bits_36 (take COMMIT_LENGTH (msg args')))"
  using assms(4-6)
proof (induction fuel arbitrary: n st)
  case 0
  then show ?case by simp
next
  case (Suc fuel)
  let ?d = "force_kernel (of_nat n) (dev st)"
  have copy: "rc_copy env n = 0" using assms(3) by (simp add: cuda_ok_def)
  show ?case
  proof (cases "stop_flag env n")
    case True
    with Suc.prems show ?thesis by auto
  next
    case run: False
    show ?thesis
    proof (cases "d_result ?d = 0")
      case True
      with Suc.prems(3) run copy
      have "force_loop env fuel (n + 1) (st\<lparr>dev := ?d, host_result := 0\<rparr>) args = Some (st', args')"
        by (simp add: Let_def)
      from Suc.IH [OF _ _ this] Suc.prems(1) True show ?thesis
        by (auto simp: loaded_force_kernel dest: Suc_leD)
    next
      case False
      let ?g = "d_result ?d - 1"
      have g: "?g \<in> launch_nonces" "kernel_hit (dev st) (of_nat n) ?g"
        using force_kernel_result(2) [OF Suc.prems(2) False] by auto
      have "args' = args\<lparr>found := 1, msg := with_nonce (of_nat n) ?g (msg args)\<rparr>"
        using Suc.prems(3) run copy False by (auto simp: Let_def stored_nonce)
      moreover have "zero_bits_36 (take COMMIT_LENGTH (with_nonce (of_nat n) ?g (msg args)))"
        using g(2) hit_is_target [OF assms(1,2) Suc.prems(1)] by simp
      ultimately show ?thesis using g(1) by auto
    qed
  qed
qed

lemma force_hash_loaded:
  assumes "cuda_ok env" "length (msg args) = 256"
  shows "\<exists>st0. force_hash env fuel st args = force_loop env fuel 0 st0 args \<and>
    loaded env (msg args) (dev st0) \<and> d_result (dev st0) = 0 \<and> gpu_errors st0 = gpu_errors st"
proof -
  have "take 16 (block_words (msg args)) = words_be (drop 192 (msg args))"
  proof -
    have "length (block_words (msg args)) = 16" by (simp add: block_words_def)
    then show ?thesis using block_words_be [OF assms(2)] by simp
  qed
  with assms show ?thesis
    by (simp add: force_hash_def copy_constants_def cuda_ok_def gpuAssert_def loaded_def geometry Let_def)
      (rule exI, intro conjI, rule refl, simp_all)
qed

lemma force_loop_returns:
  assumes "\<exists>k. n \<le> k \<and> k < n + fuel \<and> stop_flag env k"
  shows "\<exists>r. force_loop env fuel n st args = Some r"
  using assms
proof (induction fuel arbitrary: n st)
  case 0
  then show ?case by auto
next
  case (Suc fuel)
  show ?case
  proof (cases "stop_flag env n")
    case False
    with Suc.prems have "\<exists>k. n + 1 \<le> k \<and> k < n + 1 + fuel \<and> stop_flag env k"
      by (metis Suc_eq_plus1 add_Suc add_Suc_right le_neq_implies_less Suc_leI)
    with Suc.IH False show ?thesis by (simp add: Let_def)
  qed simp
qed

lemma kernel_hit_force_kernel: "kernel_hit (force_kernel i d) idx g \<longleftrightarrow> kernel_hit d idx g"
  by (simp add: kernel_hit_def force_kernel_frame)

text \<open>The first launch that covers a hit is the one that ends the search.\<close>

lemma force_loop_finds:
  assumes "cuda_ok env" "d_result (dev st) = 0" "n \<le> m" "m - n < fuel"
    and "\<And>k. n \<le> k \<Longrightarrow> k < m \<Longrightarrow> \<not> (\<exists>g \<in> launch_nonces. kernel_hit (dev st) (of_nat k) g)"
    and "\<And>k. n \<le> k \<Longrightarrow> k \<le> m \<Longrightarrow> \<not> stop_flag env k"
    and "\<exists>g \<in> launch_nonces. kernel_hit (dev st) (of_nat m) g"
  shows "\<exists>st'. \<exists>g \<in> launch_nonces. kernel_hit (dev st) (of_nat m) g \<and>
    force_loop env fuel n st args =
      Some (st', args\<lparr>found := 1, msg := with_nonce (of_nat m) g (msg args)\<rparr>)"
  using assms(2-7)
proof (induction fuel arbitrary: n st)
  case 0
  then show ?case by simp
next
  case (Suc fuel)
  let ?d = "force_kernel (of_nat n) (dev st)"
  have go: "\<not> stop_flag env n" "rc_copy env n = 0"
    using Suc.prems(2,5) assms(1) by (simp_all add: cuda_ok_def)
  show ?case
  proof (cases "n = m")
    case True
    then have nz: "d_result ?d \<noteq> 0"
      using force_kernel_result(1) [OF Suc.prems(1)] Suc.prems(6) by simp
    then have "force_loop env (Suc fuel) n st args = Some (st\<lparr>dev := ?d, host_result := d_result ?d\<rparr>,
        args\<lparr>found := 1, msg := with_nonce (of_nat n) (d_result ?d - 1) (msg args)\<rparr>)"
      using go by (simp add: Let_def stored_nonce)
    with True force_kernel_result(2) [OF Suc.prems(1) nz] show ?thesis by blast
  next
    case False
    then have "\<not> (\<exists>g \<in> launch_nonces. kernel_hit (dev st) (of_nat n) g)"
      using Suc.prems(2) Suc.prems(4) [of n] by simp
    then have z: "d_result ?d = 0"
      using force_kernel_result(1) [OF Suc.prems(1), of "of_nat n"] by blast
    let ?st = "st\<lparr>dev := ?d, host_result := 0\<rparr>"
    have "force_loop env (Suc fuel) n st args = force_loop env fuel (n + 1) ?st args"
      using go z by (simp add: Let_def)
    moreover have "\<exists>st'. \<exists>g \<in> launch_nonces. kernel_hit (dev ?st) (of_nat m) g \<and>
      force_loop env fuel (n + 1) ?st args =
        Some (st', args\<lparr>found := 1, msg := with_nonce (of_nat m) g (msg args)\<rparr>)"
      by (rule Suc.IH) (use Suc.prems False z in \<open>auto simp: kernel_hit_force_kernel\<close>)
    ultimately show ?thesis by (simp add: kernel_hit_force_kernel)
  qed
qed

section \<open>The whole search\<close>

lemma force_hash_result:
  assumes "sha1_stream (midstate env)" "padded_commit (msg args)" "cuda_ok env"
    and "force_hash env fuel st args = Some (st', args')"
  shows "(\<exists>k. stop_flag env k \<and> args' = args) \<or>
    (\<exists>k. \<exists>g \<in> launch_nonces. args' = args\<lparr>found := 1, msg := with_nonce (of_nat k) g (msg args)\<rparr> \<and>
       zero_bits_36 (take COMMIT_LENGTH (msg args')))"
proof -
  have "length (msg args) = 256" using assms(2) by (simp add: padded_commit_def geometry)
  then obtain st0 where st0: "force_hash env fuel st args = force_loop env fuel 0 st0 args"
      "loaded env (msg args) (dev st0)" "d_result (dev st0) = 0"
    using force_hash_loaded [OF assms(3)] by blast
  with force_loop_result [OF assms(1-3) st0(2,3)] assms(4) show ?thesis by fastforce
qed

lemma force_hash_search:
  assumes "sha1_stream (midstate env)" "padded_commit (msg args)" "cuda_ok env" "m < fuel"
    and "\<And>k. k < m \<Longrightarrow> \<not> (\<exists>g \<in> launch_nonces. zero_bits_36 (take COMMIT_LENGTH (with_nonce (of_nat k) g (msg args))))"
    and "\<And>k. k \<le> m \<Longrightarrow> \<not> stop_flag env k"
    and "\<exists>g \<in> launch_nonces. zero_bits_36 (take COMMIT_LENGTH (with_nonce (of_nat m) g (msg args)))"
  shows "\<exists>st' g. g \<in> launch_nonces \<and> force_hash env fuel st args =
    Some (st', args\<lparr>found := 1, msg := with_nonce (of_nat m) g (msg args)\<rparr>)"
proof -
  have "length (msg args) = 256" using assms(2) by (simp add: padded_commit_def geometry)
  then obtain st0 where st0: "force_hash env fuel st args = force_loop env fuel 0 st0 args"
      "loaded env (msg args) (dev st0)" "d_result (dev st0) = 0"
    using force_hash_loaded [OF assms(3)] by blast
  note hit = hit_is_target [OF assms(1,2) st0(2)]
  have "\<exists>st'. \<exists>g \<in> launch_nonces. kernel_hit (dev st0) (of_nat m) g \<and>
    force_loop env fuel 0 st0 args =
      Some (st', args\<lparr>found := 1, msg := with_nonce (of_nat m) g (msg args)\<rparr>)"
    by (rule force_loop_finds [OF assms(3) st0(3)]) (use assms(4-7) hit in auto)
  with st0(1) show ?thesis by metis
qed

section \<open>A sample search\<close>

definition sample_msg :: "byte list" where
  "sample_msg = replicate 192 0 @ replicate 40 0 @ [0, 0x0A, 0x90, 0x0E] @ replicate 11 0 @
     [0x80, 0, 0, 0, 0, 0, 0, 7, 0xB8]"

definition sample_env :: cuda_env where
  "sample_env = \<lparr>midstate = git_midstate, rc_memset = 0, rc_block = 0, rc_difficulty = 0, rc_ctx = 0,
     rc_copy = (\<lambda>_. 0), stop_flag = (\<lambda>n. 5 \<le> n)\<rparr>"

definition sample_state :: cuda_state where
  "sample_state = \<lparr>dev = \<lparr>c_block = [], c_ctx = sha_init, c_difficulty = 0, d_result = 7\<rparr>,
     host_result = 0, difficulty = 0, gpu_errors = []\<rparr>"

lemma sample_ok: "sha1_stream (midstate sample_env)" "cuda_ok sample_env"
  using git_stream.sha1_stream_axioms by (simp_all add: sample_env_def cuda_ok_def)

lemma sample_padded: "padded_commit sample_msg"
  by (simp add: padded_commit_def sample_msg_def geometry sha_padding_def bytes_be64_def bytes_be32_def)

lemma words_zero_block: "words_be (replicate 64 0) = [0, 0, 0, 0, 0, 0, 0, 0, 0, 0, 0, 0, 0, 0, 0, 0]"
  by code_simp

lemma sample_words:
  "words_be (drop 192 sample_msg) = [0, 0, 0, 0, 0, 0, 0, 0, 0, 0, 0xA900E, 0, 0, 0x80, 0, 0x7B8]"
proof -
  have "words_be (replicate 40 0 @ [0, 0x0A, 0x90, 0x0E] @ replicate 11 0 @ [0x80, 0, 0, 0, 0, 0, 0, 7, 0xB8]) =
    [0, 0, 0, 0, 0, 0, 0, 0, 0, 0, 0xA900E, 0, 0, 0x80, 0, 0x7B8]" by code_simp
  then show ?thesis by (simp add: sample_msg_def)
qed

lemma sample_midstate:
  "git_midstate (replicate 192 0) =
     \<lparr>h0 = 0x7E7135C2, h1 = 0x7644D299, h2 = 0xF11833F9, h3 = 0x3F968B70, h4 = 0x77504B79\<rparr>"
proof -
  have "replicate 192 (0::byte) = replicate 64 0 @ replicate 64 0 @ replicate 64 0"
    by (simp flip: replicate_add)
  then show ?thesis
    by (simp add: git_stream.midstate_absorb sha_absorb_append sha_absorb_block words_zero_block
        sha_init_def compress_zero_1 compress_zero_2 compress_zero_3)
qed

lemma sample_hit: "zero_bits_36 (take COMMIT_LENGTH (with_nonce 0 0x5003628 sample_msg))"
proof -
  have "loaded sample_env sample_msg sample_device"
    using sample_words sample_midstate
    by (simp add: loaded_def sample_device_def sample_env_def sample_msg_def)
  from hit_is_target [OF sample_ok(1) sample_padded this] sample_launch(2) show ?thesis by simp
qed

lemma sample_search:
  "\<exists>st' g. g \<in> launch_nonces \<and> force_hash sample_env 1 sample_state \<lparr>msg = sample_msg, found = 0\<rparr> =
     Some (st', \<lparr>msg = with_nonce 0 g sample_msg, found = 1\<rparr>)"
  using force_hash_search [of sample_env "\<lparr>msg = sample_msg, found = 0\<rparr>" 0 1 sample_state]
    sample_ok sample_padded sample_hit sample_launch(1)
  by (auto simp: sample_env_def)

section \<open>Properties\<close>

text \<open>
  (C2) Soundness of the CUDA search: whatever \<open>force_hash\<close> returns, either the stop flag was seen
  and the arguments are untouched, or \<open>found\<close> is set, the commit has a SHA-1 digest that starts
  with 36 zero bits, its length is unchanged and only the eight nonce bytes 236 to 243 may differ.
\<close>

theorem force_hash_sound:
  assumes "sha1_stream (midstate env)" "padded_commit (msg args)" "cuda_ok env"
    and "force_hash env fuel st args = Some (st', args')"
  shows "((\<exists>k. stop_flag env k) \<and> args' = args) \<or>
    (found args' = 1 \<and> zero_bits_36 (take COMMIT_LENGTH (msg args')) \<and> padded_commit (msg args') \<and>
     take 236 (msg args') = take 236 (msg args) \<and> drop 244 (msg args') = drop 244 (msg args))"
  using force_hash_result [OF assms] assms(2)
proof (elim disjE exE bexE conjE)
  fix k g
  assume args': "args' = args\<lparr>found := 1, msg := with_nonce (of_nat k) g (msg args)\<rparr>"
    and zero: "zero_bits_36 (take COMMIT_LENGTH (msg args'))"
  have "length (msg args) = 256" using assms(2) by (simp add: padded_commit_def geometry)
  then have "take 236 (msg args') = take 236 (msg args)" "drop 244 (msg args') = drop 244 (msg args)"
    by (simp_all add: args' with_nonce_def buffer_simps)
  moreover have "padded_commit (msg args')" "found args' = 1"
    using with_nonce_padded(1) [OF assms(2)] by (simp_all add: args')
  ultimately show ?thesis using zero by blast
qed auto

theorem force_hash_sound_witness:
  "\<exists>st' args'. force_hash sample_env 1 sample_state \<lparr>msg = sample_msg, found = 0\<rparr> = Some (st', args') \<and>
     found args' = 1 \<and> zero_bits_36 (take COMMIT_LENGTH (msg args'))"
proof -
  obtain st' g where r: "force_hash sample_env 1 sample_state \<lparr>msg = sample_msg, found = 0\<rparr> =
      Some (st', \<lparr>msg = with_nonce 0 g sample_msg, found = 1\<rparr>)"
    using sample_search by blast
  show ?thesis
    using force_hash_sound [OF sample_ok(1) _ sample_ok(2) r] r sample_padded by auto
qed

text \<open>
  (C3) Completeness and termination of the CUDA search: if launch \<open>m\<close> is the first whose nonces
  contain one with 36 leading zero bits, and the search is not stopped before it, then
  \<open>force_hash\<close> returns after that launch with \<open>found\<close> set and a nonce of that launch stored.
\<close>

theorem force_hash_complete:
  assumes "sha1_stream (midstate env)" "padded_commit (msg args)" "cuda_ok env" "m < fuel"
    and "\<forall>k < m. \<forall>g \<in> launch_nonces. \<not> zero_bits_36 (take COMMIT_LENGTH (with_nonce (of_nat k) g (msg args)))"
    and "\<forall>k \<le> m. \<not> stop_flag env k"
    and "\<exists>g \<in> launch_nonces. zero_bits_36 (take COMMIT_LENGTH (with_nonce (of_nat m) g (msg args)))"
  shows "\<exists>st' g. g \<in> launch_nonces \<and> force_hash env fuel st args =
    Some (st', args\<lparr>found := 1, msg := with_nonce (of_nat m) g (msg args)\<rparr>)"
  by (rule force_hash_search) (use assms in auto)

theorem force_hash_complete_witness:
  "\<exists>st' g. g \<in> launch_nonces \<and> force_hash sample_env 1 sample_state \<lparr>msg = sample_msg, found = 0\<rparr> =
     Some (st', \<lparr>msg = with_nonce 0 g sample_msg, found = 1\<rparr>)"
  using force_hash_complete [of sample_env "\<lparr>msg = sample_msg, found = 0\<rparr>" 0 1 sample_state]
    sample_ok sample_padded sample_hit sample_launch(1)
  by (auto simp: sample_env_def)

text \<open>
  (C10) The search can always be stopped: once the stop flag is set at some poll, \<open>force_hash\<close>
  returns, whatever the device reports and whatever the return codes of the CUDA calls are.
\<close>

theorem force_hash_stops:
  assumes "stop_flag env k" "k < fuel"
  shows "\<exists>r. force_hash env fuel st args = Some r"
  unfolding force_hash_def Let_def case_prod_unfold
  by (rule force_loop_returns) (use assms in auto)

theorem force_hash_stops_witness:
  "\<exists>r. force_hash sample_env 6 sample_state \<lparr>msg = [], found = 0\<rparr> = Some r"
  by (rule force_hash_stops [of _ 5]) (simp_all add: sample_env_def)

end
