(* ===== verification/Oid.thy ===== *)
theory Oid
  imports C_Strings
begin

text \<open>
  Object ids of libgit2 (\<open>src/oid.c\<close>, \<open>src/oid.h\<close>): parsing and printing in hexadecimal,
  comparison, comparison of prefixes and the header lines of commits.  An id is the list of its
  20 bytes.  A C string is the list of its bytes before the terminating NUL, which a read at the
  end of the list returns; a read after it or a write past an id is \<open>None\<close>.
\<close>

section \<open>Hexadecimal digits\<close>

definition GIT_OID_RAWSZ :: nat where "GIT_OID_RAWSZ = 20"
definition GIT_OID_HEXSZ :: nat where "GIT_OID_HEXSZ = GIT_OID_RAWSZ * 2"

definition git__fromhex :: "byte \<Rightarrow> int" where
  "git__fromhex h =
     (if 48 \<le> h \<and> h \<le> 57 then uint h - 48
      else if 65 \<le> h \<and> h \<le> 70 then uint h - 55
      else if 97 \<le> h \<and> h \<le> 102 then uint h - 87
      else - 1)"

definition to_hex :: "byte list" where
  "to_hex = ascii ''0123456789abcdef''"

definition char_at :: "byte list \<Rightarrow> nat \<Rightarrow> byte option" where
  "char_at str p = (if p < length str then Some (str ! p) else if p = length str then Some 0 else None)"

section \<open>Parsing\<close>

text \<open>
  The loop bound \<open>length - 1\<close> is computed in \<open>size_t\<close>: it wraps around for the length 0.
\<close>

function fromstr_loop ::
  "byte list \<Rightarrow> nat \<Rightarrow> nat \<Rightarrow> byte list \<Rightarrow> (int \<times> nat \<times> byte list) option" where
  "fromstr_loop str bound p out =
     (if p < bound then
        case (char_at str p, char_at str (p + 1)) of
          (Some c0, Some c1) \<Rightarrow>
            (let v = push_bit 4 (git__fromhex c0) OR git__fromhex c1
             in if v < 0 then Some (- 1, p, out)
                else if p div 2 < length out
                then fromstr_loop str bound (p + 2) (out[p div 2 := word_of_int v])
                else None)
        | _ \<Rightarrow> None
      else Some (0, p, out))"
  by pat_completeness auto
termination by (relation "measure (\<lambda>(str, bound, p, out). bound - p)") auto

declare fromstr_loop.simps [simp del]

definition git_oid_fromstrn :: "byte list \<Rightarrow> byte list \<Rightarrow> nat \<Rightarrow> (int \<times> byte list) option" where
  "git_oid_fromstrn out str len =
     (if len > GIT_OID_HEXSZ then Some (- 1, out)
      else case fromstr_loop str (unat (of_nat len - 1 :: u64)) 0 out of
             None \<Rightarrow> None
           | Some (rc, p, out) \<Rightarrow>
               (if rc < 0 then Some (- 1, out)
                else if len mod 2 = 1 then
                  (case char_at str p of
                     None \<Rightarrow> None
                   | Some c \<Rightarrow>
                       (let v = push_bit 4 (git__fromhex c)
                        in if v < 0 then Some (- 1, out)
                           else let out = out[p div 2 := word_of_int v]; p = p + 2
                                in Some (0, overwrite (p div 2) (replicate ((GIT_OID_HEXSZ - p) div 2) 0) out)))
                else Some (0, overwrite (p div 2) (replicate ((GIT_OID_HEXSZ - p) div 2) 0) out)))"

definition git_oid_fromstrp :: "byte list \<Rightarrow> byte list \<Rightarrow> (int \<times> byte list) option" where
  "git_oid_fromstrp out str = git_oid_fromstrn out str (strlen str)"

definition git_oid_fromstr :: "byte list \<Rightarrow> byte list \<Rightarrow> (int \<times> byte list) option" where
  "git_oid_fromstr out str = git_oid_fromstrn out str GIT_OID_HEXSZ"

section \<open>Printing\<close>

definition fmt_one :: "byte \<Rightarrow> byte list" where
  "fmt_one val = [to_hex ! unat (drop_bit 4 val), to_hex ! unat (val AND 0xf)]"

text \<open>The \<open>n\<close> bytes that \<open>git_oid_nfmt\<close> writes; \<open>None\<close> is the null pointer.\<close>

definition git_oid_nfmt :: "nat \<Rightarrow> byte list option \<Rightarrow> byte list" where
  "git_oid_nfmt n oid =
     (case oid of
        None \<Rightarrow> replicate n 0
      | Some i \<Rightarrow>
          (let tail = (if n > GIT_OID_HEXSZ then replicate (n - GIT_OID_HEXSZ) 0 else []);
               n = (if n > GIT_OID_HEXSZ then GIT_OID_HEXSZ else n);
               max_i = n div 2
           in concat (map (\<lambda>k. fmt_one (i ! k)) [0..<max_i]) @
              (if n mod 2 = 1 then [to_hex ! unat (drop_bit 4 (i ! max_i))] else []) @ tail))"

definition git_oid_fmt :: "byte list \<Rightarrow> byte list" where
  "git_oid_fmt oid = git_oid_nfmt GIT_OID_HEXSZ (Some oid)"

definition git_oid_pathfmt :: "byte list \<Rightarrow> byte list" where
  "git_oid_pathfmt oid = fmt_one (oid ! 0) @ [47] @ concat (map (\<lambda>k. fmt_one (oid ! k)) [1..<GIT_OID_RAWSZ])"

definition git_oid_allocfmt :: "bool \<Rightarrow> byte list option \<Rightarrow> byte list option" where
  "git_oid_allocfmt malloc_ok oid = (if malloc_ok then Some (git_oid_nfmt (GIT_OID_HEXSZ + 1) oid) else None)"

text \<open>
  \<open>git_oid_tostr\<close> gives the string in the buffer: what stands before the first NUL.  Without a
  buffer it returns the empty string.
\<close>

definition git_oid_tostr :: "nat \<Rightarrow> byte list option \<Rightarrow> byte list" where
  "git_oid_tostr n oid =
     (if n = 0 then []
      else let n = (if n > GIT_OID_HEXSZ + 1 then GIT_OID_HEXSZ + 1 else n)
           in takeWhile (\<lambda>c. c \<noteq> 0) (git_oid_nfmt (n - 1) oid @ [0]))"

section \<open>Header lines\<close>

text \<open>
  The buffer is the list of the bytes between \<open>buffer\<close> and \<open>buffer_end\<close>; on success the rest after
  the line is returned.
\<close>

definition git_oid__parse ::
  "byte list \<Rightarrow> byte list \<Rightarrow> byte list \<Rightarrow> (int \<times> byte list \<times> byte list) option" where
  "git_oid__parse oid buffer header =
     (let header_len = strlen header
      in if length buffer < header_len + GIT_OID_HEXSZ + 1 then Some (- 1, oid, buffer)
         else if take header_len buffer \<noteq> take header_len header then Some (- 1, oid, buffer)
         else if buffer ! (header_len + GIT_OID_HEXSZ) \<noteq> 10 then Some (- 1, oid, buffer)
         else case git_oid_fromstr oid (drop header_len buffer) of
                None \<Rightarrow> None
              | Some (rc, oid) \<Rightarrow>
                  if rc < 0 then Some (- 1, oid, buffer)
                  else Some (0, oid, drop (header_len + GIT_OID_HEXSZ + 1) buffer))"

definition git_oid__writebuf :: "byte list \<Rightarrow> byte list \<Rightarrow> byte list \<Rightarrow> byte list" where
  "git_oid__writebuf buf header oid = buf @ header @ git_oid_fmt oid @ [10]"

definition git_oid_fromraw :: "byte list \<Rightarrow> byte list" where
  "git_oid_fromraw raw = take GIT_OID_RAWSZ raw"

definition git_oid_cpy :: "byte list \<Rightarrow> byte list" where
  "git_oid_cpy src = take GIT_OID_RAWSZ src"

section \<open>Comparison\<close>

fun git_oid__hashcmp :: "byte list \<Rightarrow> byte list \<Rightarrow> int" where
  "git_oid__hashcmp (x # sha1) (y # sha2) =
     (if x \<noteq> y then uint x - uint y else git_oid__hashcmp sha1 sha2)"
| "git_oid__hashcmp _ _ = 0"

definition git_oid_cmp :: "byte list \<Rightarrow> byte list \<Rightarrow> int" where
  "git_oid_cmp a b = git_oid__hashcmp a b"

fun ncmp_loop :: "nat \<Rightarrow> byte list \<Rightarrow> byte list \<Rightarrow> int" where
  "ncmp_loop (Suc (Suc len)) (x # a) (y # b) = (if x \<noteq> y then 1 else ncmp_loop len a b)"
| "ncmp_loop (Suc 0) (x # a) (y # b) = (if (x XOR y) AND 0xf0 \<noteq> 0 then 1 else 0)"
| "ncmp_loop _ _ _ = 0"

definition git_oid_ncmp :: "byte list \<Rightarrow> byte list \<Rightarrow> nat \<Rightarrow> int" where
  "git_oid_ncmp oid_a oid_b len =
     ncmp_loop (if len > GIT_OID_HEXSZ then GIT_OID_HEXSZ else len) oid_a oid_b"

fun git_oid_strcmp :: "byte list \<Rightarrow> byte list \<Rightarrow> int" where
  "git_oid_strcmp (a # oid) (c # str) =
     (if git__fromhex c < 0 then - 1
      else case str of
             [] \<Rightarrow> (let strval = word_of_int (push_bit 4 (git__fromhex c)) :: byte
                   in if a \<noteq> strval then uint a - uint strval else 0)
           | d # str' \<Rightarrow>
               (if git__fromhex d < 0 then - 1
                else let strval = word_of_int (push_bit 4 (git__fromhex c)) OR word_of_int (git__fromhex d) :: byte
                     in if a \<noteq> strval then uint a - uint strval else git_oid_strcmp oid str'))"
| "git_oid_strcmp _ _ = 0"

definition git_oid_streq :: "byte list \<Rightarrow> byte list \<Rightarrow> int" where
  "git_oid_streq oid str = (if git_oid_strcmp oid str = 0 then 0 else - 1)"

definition git_oid_iszero :: "byte list \<Rightarrow> bool" where
  "git_oid_iszero oid = list_all (\<lambda>x. x = 0) oid"

section \<open>Ids as sequences of hexadecimal digits\<close>

definition hi :: "byte \<Rightarrow> int" where "hi b = uint (drop_bit 4 b)"
definition lo :: "byte \<Rightarrow> int" where "lo b = uint (take_bit 4 b)"

definition digits :: "byte list \<Rightarrow> int list" where
  "digits oid = concat (map (\<lambda>b. [hi b, lo b]) oid)"

definition join :: "int \<Rightarrow> int \<Rightarrow> byte" where
  "join a b = word_of_int (16 * a + b)"

fun pack :: "int list \<Rightarrow> byte list" where
  "pack (a # b # ds) = join a b # pack ds"
| "pack _ = []"

definition digit :: "int \<Rightarrow> bool" where "digit d \<longleftrightarrow> 0 \<le> d \<and> d < 16"

lemma digits_simps [simp]: "digits [] = []" "digits (b # oid) = hi b # lo b # digits oid"
  by (simp_all add: digits_def)

lemma length_digits [simp]: "length (digits oid) = 2 * length oid"
  by (induction oid) auto

lemma and_15: "(b :: byte) AND 0xf = take_bit 4 b"
proof -
  have "(0xf :: byte) = mask 4" by (simp add: mask_eq_exp_minus_1)
  then show ?thesis by (simp only: take_bit_eq_mask)
qed

lemma hi_lo: "hi b = uint b div 16" "lo b = uint b mod 16"
proof -
  have "uint (drop_bit 4 b) = drop_bit 4 (uint b)"
    using uint_lt2p [of b] by (simp add: unsigned_drop_bit_eq take_bit_int_eq_self)
  moreover have "uint (take_bit 4 b) = take_bit 4 (uint b)" by (simp add: unsigned_take_bit_eq)
  ultimately show "hi b = uint b div 16" "lo b = uint b mod 16"
    by (simp_all add: hi_def lo_def drop_bit_int_def take_bit_int_def)
qed

lemma digit_hi_lo [simp]: "digit (hi b)" "digit (lo b)"
  using uint_lt2p [of b] uint_ge_0 [of b] by (simp_all add: digit_def hi_lo pos_imp_zdiv_nonneg_iff)

lemma digits_digit: "d \<in> set (digits oid) \<Longrightarrow> digit d"
  by (induction oid) auto

lemma join_hi_lo [simp]: "join (hi b) (lo b) = b"
proof -
  have "16 * hi b + lo b = uint b" by (simp add: hi_lo)
  then show ?thesis by (simp only: join_def word_of_int_uint)
qed

lemma pack_digits [simp]: "pack (digits oid) = oid"
  by (induction oid) simp_all

lemma split_join:
  assumes "digit a" "digit b"
  shows "hi (join a b) = a" "lo (join a b) = b"
proof -
  have "uint (join a b) = (16 * a + b) mod 256" unfolding join_def by (simp only: uint_word_of_int) simp
  then have "uint (join a b) = 16 * a + b" using assms by (simp add: digit_def)
  then show "hi (join a b) = a" "lo (join a b) = b"
    using assms by (simp_all add: hi_lo digit_def)
qed

lemma digits_pack: "even (length ds) \<Longrightarrow> \<forall>d \<in> set ds. digit d \<Longrightarrow> digits (pack ds) = ds"
  by (induction ds rule: pack.induct) (auto simp: split_join)

lemma length_pack [simp]: "length (pack ds) = length ds div 2"
  by (induction ds rule: pack.induct) auto

lemma nth_pack: "i < length ds div 2 \<Longrightarrow> pack ds ! i = join (ds ! (2 * i)) (ds ! (2 * i + 1))"
proof (induction ds arbitrary: i rule: pack.induct)
  case (1 a b ds)
  then show ?case by (cases i) auto
qed auto

lemma shift_or:
  assumes "digit a" "digit b"
  shows "push_bit 4 a OR b = 16 * a + b"
proof -
  have "list_all (\<lambda>a. list_all (\<lambda>b. push_bit 4 a OR b = 16 * a + b) [0..15]) [0..(15::int)]" by code_simp
  with assms show ?thesis by (force simp: list_all_iff digit_def)
qed

lemma shift_neg:
  "- 1 \<le> a \<Longrightarrow> - 1 \<le> b \<Longrightarrow> push_bit 4 a OR b < 0 \<longleftrightarrow> a < 0 \<or> (b :: int) < 0"
  "push_bit 4 a < 0 \<longleftrightarrow> (a :: int) < 0"
  by (auto simp: push_bit_eq_mult)

lemma fromhex_range: "- 1 \<le> git__fromhex c \<and> git__fromhex c < 16"
  by (auto simp: git__fromhex_def word_le_def)

lemma fromhex_digit: "0 \<le> git__fromhex c \<longleftrightarrow> digit (git__fromhex c)"
  using fromhex_range [of c] by (auto simp: digit_def)

lemma fromhex_to_hex: "digit d \<Longrightarrow> git__fromhex (to_hex ! nat d) = d"
proof -
  assume "digit d"
  moreover have "list_all (\<lambda>d. git__fromhex (to_hex ! nat d) = d) [0..15]" by code_simp
  ultimately show ?thesis by (force simp: list_all_iff digit_def)
qed

lemma to_hex_nonzero: "digit d \<Longrightarrow> to_hex ! nat d \<noteq> 0"
  using fromhex_to_hex [of d] by (auto simp: git__fromhex_def digit_def)

section \<open>Printing and parsing\<close>

definition hex_string :: "int list \<Rightarrow> byte list" where
  "hex_string ds = map (\<lambda>d. to_hex ! nat d) ds"

lemma length_hex_string [simp]: "length (hex_string ds) = length ds"
  by (simp add: hex_string_def)

lemma fmt_one_digits: "fmt_one b = hex_string [hi b, lo b]"
  by (simp add: fmt_one_def hex_string_def hi_def lo_def and_15)

lemma fmt_pairs:
  assumes "m \<le> length oid"
  shows "concat (map (\<lambda>k. fmt_one (oid ! k)) [0..<m]) = hex_string (take (2 * m) (digits oid))"
proof -
  have "map (\<lambda>k. fmt_one (oid ! k)) [0..<m] = map fmt_one (take m oid)"
    using assms by (intro nth_equalityI) auto
  moreover have "concat (map fmt_one xs) = hex_string (digits xs)" for xs
    by (induction xs) (simp_all add: hex_string_def fmt_one_digits)
  moreover have "digits (take m oid) = take (2 * m) (digits oid)"
    by (induction oid arbitrary: m) (auto simp: take_Cons' numeral_eq_Suc split: nat.splits)
  ultimately show ?thesis by simp
qed

lemma nth_digits: "k < length oid \<Longrightarrow> digits oid ! (2 * k) = hi (oid ! k) \<and> digits oid ! (2 * k + 1) = lo (oid ! k)"
proof (induction oid arbitrary: k)
  case (Cons b oid)
  then show ?case by (cases k) auto
qed simp

lemma nfmt_digits:
  assumes "length oid = GIT_OID_RAWSZ" "n \<le> GIT_OID_HEXSZ"
  shows "git_oid_nfmt n (Some oid) = hex_string (take n (digits oid))"
proof -
  have h: "hex_string (take (2 * (n div 2)) (digits oid)) @
      (if n mod 2 = 1 then [to_hex ! unat (drop_bit 4 (oid ! (n div 2)))] else []) =
      hex_string (take n (digits oid))"
  proof (cases "n mod 2 = 1")
    case True
    then have n: "n = Suc (2 * (n div 2))" by presburger
    then have k: "n div 2 < length oid" using assms by (auto simp: GIT_OID_HEXSZ_def)
    have "take (Suc (2 * (n div 2))) (digits oid) = take (2 * (n div 2)) (digits oid) @ [hi (oid ! (n div 2))]"
      using k nth_digits [OF k] by (simp add: take_Suc_conv_app_nth)
    with n True show ?thesis by (simp add: hex_string_def hi_def)
  next
    case False
    then have "2 * (n div 2) = n" by presburger
    with False show ?thesis by simp
  qed
  have "n div 2 \<le> length oid" using assms by (simp add: GIT_OID_HEXSZ_def)
  from fmt_pairs [OF this] h assms(2) show ?thesis by (simp add: git_oid_nfmt_def Let_def)
qed

lemma fmt_digits: "length oid = GIT_OID_RAWSZ \<Longrightarrow> git_oid_fmt oid = hex_string (digits oid)"
  by (simp add: git_oid_fmt_def nfmt_digits GIT_OID_HEXSZ_def)

definition hexval :: "byte list \<Rightarrow> int list" where
  "hexval str = map git__fromhex str"

lemma char_at_nth [simp]: "p < length str \<Longrightarrow> char_at str p = Some (str ! p)"
  by (simp add: char_at_def)

lemma loop_bound: "0 < len \<Longrightarrow> len \<le> GIT_OID_HEXSZ \<Longrightarrow> unat (of_nat len - 1 :: u64) = len - 1"
  by (cases len) (simp_all add: unat_of_nat GIT_OID_HEXSZ_def GIT_OID_RAWSZ_def)

text \<open>The pairs of digits are stored one after the other.\<close>

lemma fromstr_loop_pairs:
  assumes "2 * m \<le> length str" "m \<le> length out" "\<forall>c \<in> set (take (2 * m) str). 0 \<le> git__fromhex c"
    and "bound = 2 * m \<or> bound + 1 = 2 * m" "j \<le> m"
  shows "fromstr_loop str bound (2 * j) out =
    Some (0, 2 * m, overwrite j (drop j (pack (hexval (take (2 * m) str)))) out)"
  using assms(2,5)
proof (induction "m - j" arbitrary: j out)
  case 0
  then show ?case using assms(1,4)
    by (auto simp: fromstr_loop.simps [of str bound] overwrite_def hexval_def)
next
  case (Suc k)
  let ?ds = "hexval (take (2 * m) str)"
  have j: "2 * j + 1 < length str" "2 * j + 1 < 2 * m" "2 * j < bound" using Suc.hyps(2) assms(1,4) by auto
  have in_set: "str ! (2 * j) \<in> set (take (2 * m) str)" "str ! (2 * j + 1) \<in> set (take (2 * m) str)"
    using j assms(1) nth_mem [of "2 * j" "take (2 * m) str"] nth_mem [of "2 * j + 1" "take (2 * m) str"]
    by simp_all
  then have d: "digit (git__fromhex (str ! (2 * j)))" "digit (git__fromhex (str ! (2 * j + 1)))"
    using assms(3) fromhex_digit by blast+
  have len: "length (pack ?ds) = m" using assms(1) by (simp add: hexval_def)
  have "pack ?ds ! j = join (git__fromhex (str ! (2 * j))) (git__fromhex (str ! (2 * j + 1)))"
    using nth_pack [of j ?ds] j assms(1) by (simp add: hexval_def)
  then have b: "word_of_int (push_bit 4 (git__fromhex (str ! (2 * j))) OR git__fromhex (str ! Suc (2 * j))) = pack ?ds ! j"
    by (simp only: shift_or [OF d] join_def Suc_eq_plus1)
  have "fromstr_loop str bound (2 * j) out = fromstr_loop str bound (2 * Suc j) (out[j := pack ?ds ! j])"
    using j d Suc.prems Suc.hyps(2)
    by (simp add: fromstr_loop.simps [of str bound "2 * j"] b digit_def)
  also have "\<dots> = Some (0, 2 * m, overwrite (Suc j) (drop (Suc j) (pack ?ds)) (out[j := pack ?ds ! j]))"
    by (rule Suc.hyps(1)) (use Suc.hyps(2) Suc.prems in auto)
  also have "overwrite (Suc j) (drop (Suc j) (pack ?ds)) (out[j := pack ?ds ! j]) =
      overwrite j (drop j (pack ?ds)) out"
    by (rule nth_equalityI) (use Suc.hyps(2) Suc.prems len in \<open>auto simp: nth_overwrite nth_list_update less_Suc_eq\<close>)
  finally show ?case .
qed

text \<open>A string that ends at an even position is read one byte past its terminator.\<close>

lemma fromstr_loop_overread:
  assumes "length str = 2 * m" "m \<le> length out" "\<forall>c \<in> set str. 0 \<le> git__fromhex c" "2 * m < bound" "j \<le> m"
  shows "fromstr_loop str bound (2 * j) out = None"
  using assms(2,5)
proof (induction "m - j" arbitrary: j out)
  case 0
  then show ?case using assms(1,4)
    by (simp add: fromstr_loop.simps [of str bound "2 * j"] char_at_def)
next
  case (Suc k)
  then have j: "2 * j + 1 < length str" "2 * j < bound" "j < length out" using assms(1,4) by auto
  then have d: "\<not> git__fromhex (str ! (2 * j)) < 0" "\<not> git__fromhex (str ! Suc (2 * j)) < 0"
    using assms(3) by (simp_all add: not_less)
  have next_pair: "fromstr_loop str bound (2 * Suc j) out' = None" if "length out' = length out" for out'
    by (rule Suc.hyps(1)) (use Suc.hyps(2) Suc.prems that in auto)
  from next_pair [OF length_list_update] j d show ?case
    by (simp add: fromstr_loop.simps [of str bound "2 * j"] Let_def)
qed

lemma pack_append: "even (length xs) \<Longrightarrow> pack (xs @ ys) = pack xs @ pack ys"
  by (induction xs rule: pack.induct) auto

lemma pack_zeros: "pack (replicate (2 * k) 0) = replicate k 0"
  by (induction k) (simp_all add: join_def)

lemma fromstrn_even:
  assumes "len = 2 * m" "0 < m" "m \<le> 20" "2 * m \<le> length str" "length out = GIT_OID_RAWSZ"
    and "\<forall>c \<in> set (take (2 * m) str). 0 \<le> git__fromhex c"
  shows "git_oid_fromstrn out str len = Some (0, pack (hexval (take len str)) @ replicate (20 - m) 0)"
proof -
  let ?ds = "hexval (take (2 * m) str)"
  have "unat (of_nat len - 1 :: u64) = 2 * m - 1"
    using loop_bound [of len] assms(1-3) by (simp add: GIT_OID_HEXSZ_def GIT_OID_RAWSZ_def)
  then have loop: "fromstr_loop str (unat (of_nat len - 1 :: u64)) 0 out = Some (0, 2 * m, overwrite 0 (pack ?ds) out)"
    using fromstr_loop_pairs [of m str out "2 * m - 1" 0] assms by (simp add: GIT_OID_RAWSZ_def)
  have "length (pack ?ds) = m" using assms(4) by (simp add: hexval_def)
  then have "overwrite m (replicate (20 - m) 0) (overwrite 0 (pack ?ds) out) = pack ?ds @ replicate (20 - m) 0"
    using assms(3,5) by (simp add: overwrite_def GIT_OID_RAWSZ_def)
  moreover have "(40 - 2 * m) div 2 = 20 - m" by arith
  ultimately show ?thesis unfolding git_oid_fromstrn_def loop
    using assms(1-3) by (simp add: GIT_OID_HEXSZ_def GIT_OID_RAWSZ_def)
qed

lemma fromstrn_odd:
  assumes "len = 2 * m + 1" "m < 20" "2 * m < length str" "length out = GIT_OID_RAWSZ"
    and "\<forall>c \<in> set (take len str). 0 \<le> git__fromhex c"
  shows "git_oid_fromstrn out str len =
    Some (0, pack (hexval (take (2 * m) str)) @ join (git__fromhex (str ! (2 * m))) 0 # replicate (19 - m) 0)"
proof -
  let ?ds = "hexval (take (2 * m) str)"
  have take: "take len str = take (2 * m) str @ [str ! (2 * m)]"
    using assms(1,3) by (simp add: take_Suc_conv_app_nth)
  then have hex: "\<forall>c \<in> set (take (2 * m) str). 0 \<le> git__fromhex c" "digit (git__fromhex (str ! (2 * m)))"
    using assms(5) by (simp_all add: fromhex_digit)
  have "unat (of_nat len - 1 :: u64) = 2 * m"
    using loop_bound [of len] assms(1,2) by (simp add: GIT_OID_HEXSZ_def GIT_OID_RAWSZ_def)
  then have loop: "fromstr_loop str (unat (of_nat len - 1 :: u64)) 0 out = Some (0, 2 * m, overwrite 0 (pack ?ds) out)"
    using fromstr_loop_pairs [of m str out "2 * m" 0] assms hex(1) by (simp add: GIT_OID_RAWSZ_def)
  have "length (pack ?ds) = m" using assms(3) by (simp add: hexval_def)
  then have "overwrite (Suc m) (replicate (19 - m) 0) ((overwrite 0 (pack ?ds) out)[m := b]) =
      pack ?ds @ b # replicate (19 - m) 0" for b
    using assms(2,4) by (simp add: overwrite_def GIT_OID_RAWSZ_def list_update_append take_Suc_conv_app_nth nth_append)
  moreover have "(38 - 2 * m) div 2 = 19 - m" by arith
  moreover have "word_of_int (push_bit 4 (git__fromhex (str ! (2 * m)))) = join (git__fromhex (str ! (2 * m))) 0"
    by (simp only: join_def push_bit_eq_mult) (simp add: mult.commute)
  ultimately show ?thesis unfolding git_oid_fromstrn_def loop
    using assms(1-3) hex(2)
    by (simp add: Let_def shift_neg digit_def GIT_OID_HEXSZ_def GIT_OID_RAWSZ_def)
qed

lemma fromstrn_prefix:
  assumes "0 < len" "len \<le> GIT_OID_HEXSZ" "len \<le> length str" "length out = GIT_OID_RAWSZ"
    and "\<forall>c \<in> set (take len str). 0 \<le> git__fromhex c"
  shows "git_oid_fromstrn out str len =
    Some (0, pack (hexval (take len str) @ replicate (GIT_OID_HEXSZ - len) 0))"
proof (cases "even len")
  case True
  then obtain m where m: "len = 2 * m" by blast
  then have "pack (hexval (take len str) @ replicate (GIT_OID_HEXSZ - len) 0) =
      pack (hexval (take len str)) @ replicate (20 - m) 0"
    using assms(2,3) pack_zeros [of "20 - m"]
    by (simp add: pack_append hexval_def GIT_OID_HEXSZ_def GIT_OID_RAWSZ_def right_diff_distrib')
  with fromstrn_even [OF m, of str out] m assms show ?thesis by (simp add: GIT_OID_HEXSZ_def GIT_OID_RAWSZ_def)
next
  case False
  then obtain m where m: "len = 2 * m + 1" by (rule oddE)
  have "hexval (take len str) @ replicate (GIT_OID_HEXSZ - len) 0 =
      hexval (take (2 * m) str) @ git__fromhex (str ! (2 * m)) # 0 # replicate (2 * (19 - m)) 0"
  proof -
    have "GIT_OID_HEXSZ - len = Suc (2 * (19 - m))"
      using m assms(2) by (simp add: GIT_OID_HEXSZ_def GIT_OID_RAWSZ_def)
    then show ?thesis using m assms(3) by (simp add: hexval_def take_Suc_conv_app_nth)
  qed
  then have "pack (hexval (take len str) @ replicate (GIT_OID_HEXSZ - len) 0) =
      pack (hexval (take (2 * m) str)) @ join (git__fromhex (str ! (2 * m))) 0 # replicate (19 - m) 0"
    using m assms(3) by (simp add: pack_append pack_zeros hexval_def)
  with fromstrn_odd [OF m, of str out] m assms show ?thesis by (simp add: GIT_OID_HEXSZ_def GIT_OID_RAWSZ_def)
qed

lemma hexval_hex_string: "\<forall>d \<in> set ds. digit d \<Longrightarrow> hexval (hex_string ds) = ds"
  by (induction ds) (simp_all add: hexval_def hex_string_def fromhex_to_hex)

lemma hex_string_hex:
  "\<forall>d \<in> set ds. digit d \<Longrightarrow> \<forall>c \<in> set (hex_string ds). 0 \<le> git__fromhex c \<and> c \<noteq> 0"
  by (auto simp: hex_string_def fromhex_to_hex to_hex_nonzero) (simp add: digit_def)

lemma fromstr_fmt:
  assumes "length oid = GIT_OID_RAWSZ" "length out = GIT_OID_RAWSZ"
  shows "git_oid_fromstr out (git_oid_fmt oid @ rest) = Some (0, oid)"
proof -
  have len: "length (git_oid_fmt oid) = GIT_OID_HEXSZ"
    using assms(1) by (simp add: fmt_digits GIT_OID_HEXSZ_def)
  have d: "\<forall>d \<in> set (digits oid). digit d" using digits_digit by blast
  have "git_oid_fromstrn out (git_oid_fmt oid @ rest) GIT_OID_HEXSZ =
      Some (0, pack (hexval (git_oid_fmt oid) @ replicate 0 0))"
    using fromstrn_prefix [of GIT_OID_HEXSZ "git_oid_fmt oid @ rest" out] assms len
      hex_string_hex [OF d] fmt_digits [OF assms(1)] by (simp add: GIT_OID_HEXSZ_def GIT_OID_RAWSZ_def)
  then show ?thesis
    using hexval_hex_string [OF d] fmt_digits [OF assms(1)] by (simp add: git_oid_fromstr_def)
qed

lemma tostr_fmt:
  assumes "length oid = GIT_OID_RAWSZ" "0 < n"
  shows "git_oid_tostr n (Some oid) = take (n - 1) (git_oid_fmt oid)"
proof -
  have stop: "takeWhile (\<lambda>c. c \<noteq> 0) (hex_string (take k (digits oid)) @ [0]) = hex_string (take k (digits oid))" for k
  proof -
    have "\<forall>c \<in> set (hex_string (take k (digits oid))). c \<noteq> 0"
      using hex_string_hex digits_digit by (metis in_set_takeD)
    then show ?thesis by (simp add: takeWhile_append2)
  qed
  show ?thesis
  proof (cases "n > GIT_OID_HEXSZ + 1")
    case True
    then show ?thesis using assms stop [of GIT_OID_HEXSZ]
      by (simp add: git_oid_tostr_def Let_def nfmt_digits fmt_digits GIT_OID_HEXSZ_def)
  next
    case False
    then show ?thesis using assms stop [of "n - 1"]
      by (simp add: git_oid_tostr_def Let_def nfmt_digits fmt_digits hex_string_def take_map)
  qed
qed

section \<open>Comparisons\<close>

lemma hashcmp_zero:
  "length a = length b \<Longrightarrow> git_oid__hashcmp a b = 0 \<longleftrightarrow> a = b"
  by (induction a b rule: git_oid__hashcmp.induct) (auto simp: word_uint_eq_iff)

lemma hashcmp_lex:
  "length a = length b \<Longrightarrow> git_oid__hashcmp a b < 0 \<longleftrightarrow> ord_class.lexordp a b"
  by (induction a b rule: git_oid__hashcmp.induct) (auto simp: word_less_def word_uint_eq_iff)

lemma hashcmp_swap: "git_oid__hashcmp a b = - git_oid__hashcmp b a"
  by (induction a b rule: git_oid__hashcmp.induct) auto

lemma byte_eq_hi_lo: "x = y \<longleftrightarrow> hi x = hi y \<and> lo x = lo y"
  by (metis join_hi_lo)

lemma xor_zero: "(x :: byte) XOR y = 0 \<longleftrightarrow> x = y"
  by (auto simp: bit_eq_iff bit_xor_iff)

lemma high_nibble_differs: "((x :: byte) XOR y) AND 0xf0 = 0 \<longleftrightarrow> hi x = hi y"
proof -
  let ?w = "x XOR y"
  have "(0xf0 :: byte) = push_bit 4 (mask 4)" by (simp add: mask_eq_exp_minus_1)
  then have "?w AND 0xf0 = ?w AND push_bit 4 (mask 4)" by (simp only:)
  also have "\<dots> = push_bit 4 (drop_bit 4 ?w)" by (rule bit_word_eqI) (auto simp: bit_simps)
  finally have "?w AND 0xf0 = push_bit 4 (drop_bit 4 ?w)" .
  moreover have "push_bit 4 (drop_bit 4 ?w) = 0 \<longleftrightarrow> drop_bit 4 ?w = 0"
  proof
    assume z: "push_bit 4 (drop_bit 4 ?w) = 0"
    have "\<not> bit (drop_bit 4 ?w) n" for n
    proof
      assume b: "bit (drop_bit 4 ?w) n"
      then have "n + 4 < 8" using bit_imp_le_length [of ?w "n + 4"] by (simp add: bit_simps add.commute)
      with b have "bit (push_bit 4 (drop_bit 4 ?w)) (n + 4)" by (simp add: bit_simps add.commute)
      with z show False by simp
    qed
    then show "drop_bit 4 ?w = 0" by (simp add: bit_eq_iff)
  qed simp
  ultimately have "?w AND 0xf0 = 0 \<longleftrightarrow> drop_bit 4 x = drop_bit 4 y" by (simp add: xor_zero)
  then show ?thesis unfolding hi_def by (simp only: word_uint_eq_iff [symmetric])
qed

lemma ncmp_loop_prefix:
  assumes "length a = length b" "n \<le> 2 * length a"
  shows "ncmp_loop n a b = 0 \<longleftrightarrow> take n (digits a) = take n (digits b)"
  using assms
proof (induction n a b rule: ncmp_loop.induct)
  case (1 len x a y b)
  then show ?case using byte_eq_hi_lo [of x y] by auto
next
  case (2 x a y b)
  then show ?case using high_nibble_differs [of x y] by auto
qed auto

lemma strcmp_pairs:
  assumes "length str = 2 * length oid" "\<forall>c \<in> set str. 0 \<le> git__fromhex c"
  shows "git_oid_strcmp oid str = 0 \<longleftrightarrow> pack (hexval str) = oid"
  using assms
proof (induction oid str rule: git_oid_strcmp.induct)
  case (1 a oid c str)
  then obtain d str' where str: "str = d # str'" by (cases str) auto
  have d: "digit (git__fromhex c)" "digit (git__fromhex d)"
    using 1 str by (simp_all add: fromhex_digit)
  have "(word_of_int (push_bit 4 (git__fromhex c)) OR word_of_int (git__fromhex d) :: byte) =
      join (git__fromhex c) (git__fromhex d)"
    unfolding join_def shift_or [OF d, symmetric] by (rule bit_word_eqI) (simp add: bit_simps)
  with 1 str d show ?case
    by (auto simp: hexval_def Let_def digit_def dest: word_uint_eqI)
qed (auto simp: hexval_def)

section \<open>Header lines\<close>

lemma parse_writebuf:
  assumes "length oid = GIT_OID_RAWSZ" "length out = GIT_OID_RAWSZ" "0 \<notin> set header"
  shows "git_oid__parse out (git_oid__writebuf [] header oid @ rest) header = Some (0, oid, rest)"
proof -
  let ?b = "git_oid__writebuf [] header oid @ rest"
  have len: "length (git_oid_fmt oid) = GIT_OID_HEXSZ"
    using assms(1) by (simp add: fmt_digits GIT_OID_HEXSZ_def)
  have b: "?b = header @ git_oid_fmt oid @ 10 # rest" by (simp add: git_oid__writebuf_def)
  show ?thesis
    using fromstr_fmt [OF assms(1,2), of "10 # rest"] len assms(3)
    by (simp add: git_oid__parse_def Let_def b nth_append)
qed

definition parse_parent :: "byte list \<Rightarrow> (byte list \<times> byte list) option" where
  "parse_parent buf =
     (case git_oid__parse (replicate GIT_OID_RAWSZ 0) buf (ascii ''parent '') of
        Some (rc, oid, rest) \<Rightarrow> if rc = 0 then Some (oid, rest) else None
      | None \<Rightarrow> None)"

interpretation parent_line: prefix_codec
  "\<lambda>oid. length oid = GIT_OID_RAWSZ" "git_oid__writebuf [] (ascii ''parent '')" parse_parent
proof
  fix oid rest :: "byte list"
  assume "length oid = GIT_OID_RAWSZ"
  then show "parse_parent (git_oid__writebuf [] (ascii ''parent '') oid @ rest) = Some (oid, rest)"
    using parse_writebuf [of oid "replicate GIT_OID_RAWSZ 0" "ascii ''parent ''" rest]
    by (simp add: parse_parent_def ascii_def)
qed (simp add: git_oid__writebuf_def)

section \<open>Properties\<close>

text \<open>
  (C27) Printing and parsing ids are inverse: the forty digits that \<open>git_oid_fmt\<close> writes parse back
  to the id, \<open>git_oid_tostr\<close> gives their prefix that fits the buffer, and a header line written by
  \<open>git_oid__writebuf\<close> is read back by \<open>git_oid__parse\<close>, which leaves the rest of the buffer.
\<close>

theorem git_oid_roundtrip:
  assumes "length oid = GIT_OID_RAWSZ" "length out = GIT_OID_RAWSZ" "0 \<notin> set header"
  shows "git_oid_fromstr out (git_oid_fmt oid @ rest) = Some (0, oid) \<and>
    (\<forall>n > 0. git_oid_tostr n (Some oid) = take (n - 1) (git_oid_fmt oid)) \<and>
    git_oid__parse out (git_oid__writebuf [] header oid @ rest) header = Some (0, oid, rest)"
  using fromstr_fmt [OF assms(1,2)] tostr_fmt [OF assms(1)] parse_writebuf [OF assms] by simp

theorem git_oid_roundtrip_witness:
  "git_oid__parse (replicate 20 0) (git_oid__writebuf [] (ascii ''tree '') (replicate 20 0xAB) @ [7]) (ascii ''tree '') =
     Some (0, replicate 20 0xAB, [7])"
  using git_oid_roundtrip [of "replicate 20 0xAB" "replicate 20 0" "ascii ''tree ''" "[7]"]
  by (simp add: GIT_OID_RAWSZ_def ascii_def)

text \<open>
  Parsing a prefix of \<open>len\<close> hexadecimal digits, odd or even, gives the id whose first \<open>len\<close>
  digits they are and whose other digits are zero.
\<close>

lemma git_oid_fromstrn_prefix:
  assumes "0 < len" "len \<le> GIT_OID_HEXSZ" "len \<le> length str" "length out = GIT_OID_RAWSZ"
    and "\<forall>c \<in> set (take len str). 0 \<le> git__fromhex c"
  shows "\<exists>oid. git_oid_fromstrn out str len = Some (0, oid) \<and> length oid = GIT_OID_RAWSZ \<and>
    digits oid = map git__fromhex (take len str) @ replicate (GIT_OID_HEXSZ - len) 0"
proof -
  let ?ds = "hexval (take len str) @ replicate (GIT_OID_HEXSZ - len) 0"
  have len: "length ?ds = GIT_OID_HEXSZ" using assms(2,3) by (simp add: hexval_def)
  have "digit 0" by (simp add: digit_def)
  with assms(5) have "\<forall>d \<in> set ?ds. digit d" by (auto simp: hexval_def simp flip: fromhex_digit)
  then have "digits (pack ?ds) = ?ds" by (rule digits_pack [rotated]) (simp only: len, simp add: GIT_OID_HEXSZ_def)
  with fromstrn_prefix [OF assms] len show ?thesis by (simp add: hexval_def GIT_OID_HEXSZ_def)
qed

text \<open>
  The comparisons of ids: \<open>git_oid_cmp\<close> is the lexicographic order on the bytes and zero exactly
  on equal ids, \<open>git_oid_ncmp\<close> is zero exactly when the first \<open>len\<close> hexadecimal digits agree, and
  \<open>git_oid_streq\<close> accepts a string of forty digits exactly when it parses to the id.
\<close>

lemma git_oid_comparisons:
  assumes "length a = GIT_OID_RAWSZ" "length b = GIT_OID_RAWSZ"
    and "length str = GIT_OID_HEXSZ" "\<forall>c \<in> set str. 0 \<le> git__fromhex c"
  shows "(git_oid_cmp a b < 0 \<longleftrightarrow> ord_class.lexordp a b) \<and> (git_oid_cmp a b = 0 \<longleftrightarrow> a = b) \<and>
    git_oid_cmp b a = - git_oid_cmp a b \<and>
    (git_oid_ncmp a b len = 0 \<longleftrightarrow> take len (digits a) = take len (digits b)) \<and>
    (git_oid_streq a str = 0 \<longleftrightarrow> git_oid_fromstr b str = Some (0, a))"
proof -
  have n: "git_oid_ncmp a b len = 0 \<longleftrightarrow> take len (digits a) = take len (digits b)"
  proof (cases "len > GIT_OID_HEXSZ")
    case True
    then show ?thesis using ncmp_loop_prefix [of a b GIT_OID_HEXSZ] assms(1,2)
      by (simp add: git_oid_ncmp_def GIT_OID_HEXSZ_def)
  next
    case False
    then show ?thesis using ncmp_loop_prefix [of a b len] assms(1,2)
      by (simp add: git_oid_ncmp_def GIT_OID_HEXSZ_def)
  qed
  have "git_oid_fromstr b str = Some (0, pack (hexval str))"
    using fromstrn_prefix [of GIT_OID_HEXSZ str b] assms(2-4)
    by (simp add: git_oid_fromstr_def GIT_OID_HEXSZ_def GIT_OID_RAWSZ_def)
  with strcmp_pairs [of str a] assms
  have s: "git_oid_streq a str = 0 \<longleftrightarrow> git_oid_fromstr b str = Some (0, a)"
    by (simp add: git_oid_streq_def GIT_OID_HEXSZ_def)
  show ?thesis
    using n s hashcmp_zero [of a b] hashcmp_lex [of a b] hashcmp_swap [of b a] assms(1,2)
    by (simp add: git_oid_cmp_def)
qed

text \<open>
  (C40) The parser reads past the end of a string that is shorter than an id: for the empty string,
  whose loop bound wraps around, and for a string with an even number of digits below forty, it
  touches the byte after the terminating NUL.
\<close>

theorem git_oid_fromstr_overread:
  assumes "length out = GIT_OID_RAWSZ" "length str < GIT_OID_HEXSZ" "even (length str)"
    and "\<forall>c \<in> set str. 0 \<le> git__fromhex c"
  shows "git_oid_fromstr out str = None \<and> git_oid_fromstrp out [] = None"
proof -
  obtain m where m: "length str = 2 * m" using assms(3) by blast
  have "fromstr_loop str 39 0 out = None"
    using fromstr_loop_overread [of str m out 39 0] m assms by (simp add: GIT_OID_HEXSZ_def GIT_OID_RAWSZ_def)
  moreover have "fromstr_loop [] (unat (- 1 :: u64)) 0 out = None"
    using fromstr_loop_overread [of "[]" 0 out "unat (- 1 :: u64)" 0] by (simp add: unat_gt_0)
  ultimately show ?thesis
    using loop_bound [of GIT_OID_HEXSZ]
    by (simp add: git_oid_fromstr_def git_oid_fromstrp_def git_oid_fromstrn_def GIT_OID_HEXSZ_def GIT_OID_RAWSZ_def)
qed

theorem git_oid_fromstr_overread_witness:
  "git_oid_fromstr (replicate 20 0) (ascii ''ab'') = None"
  using git_oid_fromstr_overread [of "replicate 20 0" "ascii ''ab''"]
  by (simp add: ascii_def GIT_OID_HEXSZ_def GIT_OID_RAWSZ_def git__fromhex_def)

end
