(* ===== verification/Odb.thy ===== *)
theory Odb
  imports Sha1_Generic Oid
begin

text \<open>
  The parts of libgit2's object database that name objects: the table of object types
  (\<open>src/object.c\<close>), the loose object header, hashing an object from memory or from a file, and
  \<open>git_odb_write\<close> (\<open>src/odb.c\<close>).  The backends are records of function pointers in C and of functions
  here; \<open>read\<close> results and the outcome of the streaming fallback are arguments.
\<close>

section \<open>Object types\<close>

definition GIT_OBJ_BAD :: int where "GIT_OBJ_BAD = - 1"
definition GIT_OBJ_COMMIT :: int where "GIT_OBJ_COMMIT = 1"

text \<open>The name of every type and whether its object structure has a size other than 0.\<close>

definition git_objects_table :: "(byte list \<times> bool) list" where
  "git_objects_table = [(ascii '''', False), (ascii ''commit'', True), (ascii ''tree'', True), (ascii ''blob'', True),
     (ascii ''tag'', True), (ascii '''', False), (ascii ''OFS_DELTA'', False), (ascii ''REF_DELTA'', False)]"

definition git_object_type2string :: "int \<Rightarrow> byte list" where
  "git_object_type2string type =
     (if type < 0 \<or> int (length git_objects_table) \<le> type then [] else fst (git_objects_table ! nat type))"

fun string2type_loop :: "int \<Rightarrow> byte list \<Rightarrow> (byte list \<times> bool) list \<Rightarrow> int" where
  "string2type_loop i str [] = GIT_OBJ_BAD"
| "string2type_loop i str (d # ds) = (if strcmp str (fst d) = 0 then i else string2type_loop (i + 1) str ds)"

definition git_object_string2type :: "byte list option \<Rightarrow> int" where
  "git_object_string2type str =
     (case str of
        None \<Rightarrow> GIT_OBJ_BAD
      | Some s \<Rightarrow> if str_head s = 0 then GIT_OBJ_BAD else string2type_loop 0 s git_objects_table)"

definition git_object_typeisloose :: "int \<Rightarrow> bool" where
  "git_object_typeisloose type \<longleftrightarrow>
     0 \<le> type \<and> type < int (length git_objects_table) \<and> snd (git_objects_table ! nat type)"

section \<open>Object ids\<close>

text \<open>
  \<open>snprintf\<close> into a buffer of \<open>n\<close> bytes, and the length with the terminating NUL that the caller
  then hashes; \<open>None\<close> is the failed assertion.
\<close>

definition git_odb__format_object_header :: "nat \<Rightarrow> nat \<Rightarrow> int \<Rightarrow> (byte list \<times> nat) option" where
  "git_odb__format_object_header n obj_len obj_type =
     (let s = git_object_type2string obj_type @ [32] @ decimal obj_len
      in if 0 < length s \<and> length s \<le> n then Some (take (n - 1) s @ [0], length s + 1) else None)"

record git_rawobj =
  raw_data :: "byte list option"
  raw_len :: nat
  raw_type :: int

text \<open>The object's data pointer may be null; otherwise the data are \<open>raw_len\<close> bytes.\<close>

definition git_odb__hashobj :: "git_hash_ctx \<Rightarrow> git_rawobj \<Rightarrow> (int \<times> byte list option) option" where
  "git_odb__hashobj ctx obj =
     (if \<not> git_object_typeisloose (raw_type obj) then Some (- 1, None)
      else if raw_data obj = None \<and> raw_len obj \<noteq> 0 then Some (- 1, None)
      else case git_odb__format_object_header 64 (raw_len obj) (raw_type obj) of
        None \<Rightarrow> None
      | Some (header, hdrlen) \<Rightarrow>
          let data = (case raw_data obj of None \<Rightarrow> [] | Some d \<Rightarrow> take (raw_len obj) d)
          in if length header < hdrlen then None
             else Some (0, snd (git_hash_vec ctx [take hdrlen header, data])))"

definition git_odb_hash :: "git_hash_ctx \<Rightarrow> byte list \<Rightarrow> nat \<Rightarrow> int \<Rightarrow> (int \<times> byte list option) option" where
  "git_odb_hash ctx data len type =
     git_odb__hashobj ctx \<lparr>raw_data = Some data, raw_len = len, raw_type = type\<rparr>"

text \<open>
  Hashing an open file.  \<open>reads\<close> are the results of \<open>p_read\<close>: \<open>None\<close> an error, \<open>Some []\<close> or the end of
  the list the end of the file.  \<open>size\<close> is decremented in \<open>size_t\<close>.
\<close>

fun hashfd_loop ::
  "git_hash_ctx \<Rightarrow> u64 \<Rightarrow> int \<Rightarrow> byte list option list \<Rightarrow> int \<times> git_hash_ctx \<times> u64 \<times> int" where
  "hashfd_loop ctx sz read_len [] = (0, ctx, sz, if sz > 0 then 0 else read_len)"
| "hashfd_loop ctx sz read_len (r # rs) =
     (if sz > 0 then
        (case r of
           None \<Rightarrow> (0, ctx, sz, - 1)
         | Some buffer \<Rightarrow>
             if buffer = [] then (0, ctx, sz, 0)
             else let (error, ctx) = git_hash_update ctx buffer
                  in if error < 0 then (error, ctx, sz, int (length buffer))
                     else hashfd_loop ctx (sz - of_nat (length buffer)) (int (length buffer)) rs)
      else (0, ctx, sz, read_len))"

definition git_odb__hashfd ::
  "git_hash_ctx \<Rightarrow> byte list option list \<Rightarrow> nat \<Rightarrow> int \<Rightarrow> (int \<times> byte list option) option" where
  "git_odb__hashfd ctx reads sz type =
     (if \<not> git_object_typeisloose type then Some (- 1, None)
      else let (error, ctx) = git_hash_init ctx
      in if error < 0 then Some (- 1, None)
      else case git_odb__format_object_header 64 sz type of
        None \<Rightarrow> None
      | Some (hdr, hdr_len) \<Rightarrow>
          if length hdr < hdr_len then None
          else let (error, ctx) = git_hash_update ctx (take hdr_len hdr)
          in if error < 0 then Some (error, None)
          else let (error, ctx, sz, read_len) = hashfd_loop ctx (of_nat sz) 0 reads
          in if error < 0 then Some (error, None)
          else if read_len < 0 \<or> sz > 0 then Some (- 1, None)
          else let (error, out, ctx) = git_hash_final ctx in Some (error, Some out))"

section \<open>Writing objects\<close>

record odb_backend =
  is_alternate :: bool
  backend_exists :: "(byte list \<Rightarrow> bool) option"
  backend_write :: "(byte list \<Rightarrow> byte list \<Rightarrow> int \<Rightarrow> int) option"

definition GIT_ERROR :: int where "GIT_ERROR = - 1"
definition GIT_PASSTHROUGH :: int where "GIT_PASSTHROUGH = - 30"

fun exists_loop :: "byte list \<Rightarrow> odb_backend list \<Rightarrow> bool \<Rightarrow> bool" where
  "exists_loop oid [] f = f"
| "exists_loop oid (b # bs) f =
     (if f then f else exists_loop oid bs (case backend_exists b of Some e \<Rightarrow> e oid | None \<Rightarrow> False))"

definition git_odb_exists :: "(byte list \<Rightarrow> bool) \<Rightarrow> odb_backend list \<Rightarrow> byte list \<Rightarrow> bool" where
  "git_odb_exists cached backends oid = (if cached oid then True else exists_loop oid backends False)"

text \<open>The result also lists the backends whose \<open>write\<close> is called.\<close>

fun write_loop ::
  "byte list \<Rightarrow> byte list \<Rightarrow> int \<Rightarrow> int \<Rightarrow> odb_backend list \<Rightarrow> int \<times> odb_backend list" where
  "write_loop oid data type error [] = (error, [])"
| "write_loop oid data type error (b # bs) =
     (if error < 0 then
        if is_alternate b then write_loop oid data type error bs
        else case backend_write b of
          None \<Rightarrow> write_loop oid data type error bs
        | Some w \<Rightarrow> (let (e, tried) = write_loop oid data type (w oid data type) bs in (e, b # tried))
      else (error, []))"

definition git_odb_write ::
  "git_hash_ctx \<Rightarrow> (byte list \<Rightarrow> bool) \<Rightarrow> odb_backend list \<Rightarrow> int \<Rightarrow> int \<Rightarrow> byte list \<Rightarrow> nat \<Rightarrow> int \<Rightarrow>
   (int \<times> byte list \<times> odb_backend list) option" where
  "git_odb_write ctx cached backends open_rc final_rc data len type =
     (case git_odb_hash ctx data len type of
        Some (_, Some oid) \<Rightarrow>
          if git_odb_exists cached backends oid then Some (0, oid, [])
          else let (error, tried) = write_loop oid (take len data) type GIT_ERROR backends
               in if error = 0 \<or> error = GIT_PASSTHROUGH then Some (0, oid, tried)
                  else if open_rc \<noteq> 0 then Some (open_rc, oid, tried)
                  else Some (final_rc, oid, tried)
      | _ \<Rightarrow> None)"

section \<open>The id of an object\<close>

definition object_header :: "int \<Rightarrow> nat \<Rightarrow> byte list" where
  "object_header type len = git_object_type2string type @ [32] @ decimal len @ [0]"

lemma length_type2string: "length (git_object_type2string type) \<le> 9"
proof (cases "type < 0 \<or> int (length git_objects_table) \<le> type")
  case False
  then have "nat type < length git_objects_table" by linarith
  then have "git_objects_table ! nat type \<in> set git_objects_table" by (rule nth_mem)
  moreover have "\<forall>d \<in> set git_objects_table. length (fst d) \<le> 9" by (simp add: git_objects_table_def ascii_def)
  ultimately show ?thesis using False by (simp add: git_object_type2string_def)
qed (simp add: git_object_type2string_def)

lemma format_object_header:
  assumes "len < 2 ^ 64"
  shows "git_odb__format_object_header 64 len type = Some (object_header type len, length (object_header type len))"
proof -
  have "(2 :: nat) ^ 64 \<le> 10 ^ Suc 19" by simp
  with assms have "length (decimal len) \<le> 20" using length_decimal [of len 19] by simp
  with length_type2string [of type] show ?thesis
    by (simp add: git_odb__format_object_header_def object_header_def Let_def)
qed

lemma odb_hash_id:
  assumes "length (ctx_W ctx) = 64" "git_object_typeisloose type" "len \<le> length data" "len < 2 ^ 64"
  shows "git_odb_hash ctx data len type = Some (0, Some (sha1 (object_header type len @ take len data)))"
  using assms by (simp add: git_odb_hash_def git_odb__hashobj_def format_object_header git_hash_vec_sha1)

lemma of_nat_eq_64:
  assumes "m < 2 ^ 64" "n < 2 ^ 64"
  shows "(of_nat m :: u64) = of_nat n \<longleftrightarrow> m = n"
proof
  assume "(of_nat m :: u64) = of_nat n"
  then have "unat (of_nat m :: u64) = unat (of_nat n :: u64)" by simp
  with assms show "m = n" by (simp add: unat_of_nat)
qed simp

lemma hashfd_loop_reads:
  assumes "ctx_holds ctx m" "[] \<notin> set bufs" "length (concat bufs) \<le> n" "n < 2 ^ 64"
  shows "\<exists>ctx' l. hashfd_loop ctx (of_nat n) l0 (map Some bufs) = (0, ctx', of_nat (n - length (concat bufs)), l) \<and>
    (0 \<le> l0 \<longrightarrow> 0 \<le> l) \<and> ctx_holds ctx' (m @ concat bufs)"
  using assms
proof (induction bufs arbitrary: ctx m n l0)
  case Nil
  then show ?case by auto
next
  case (Cons b bs)
  have pos: "(of_nat n :: u64) > 0" "b \<noteq> []"
    using Cons.prems by (auto simp: word_greater_zero_iff word_of_nat_eq_0_iff dest: nat_dvd_not_less)
  obtain c where c: "git_hash_update ctx b = (0, c)" "ctx_holds c (m @ b)"
    using git_hash_update_holds [OF Cons.prems(1)] by auto
  have "(of_nat n - of_nat (length b) :: u64) = of_nat (n - length b)" using Cons.prems(3) by (simp add: of_nat_diff)
  moreover have "[] \<notin> set bs" "length (concat bs) \<le> n - length b" "n - length b < 2 ^ 64" using Cons.prems by simp_all
  note Cons.IH [OF c(2) this, of "int (length b)"]
  ultimately show ?case using Cons.prems(3) pos c(1) by (auto simp: diff_diff_left)
qed

lemma odb_hashfd_reads:
  assumes "length (ctx_W ctx) = 64" "git_object_typeisloose type" "[] \<notin> set bufs"
    and "length (concat bufs) \<le> n" "n < 2 ^ 64"
  shows "git_odb__hashfd ctx (map Some bufs) n type =
    Some (if length (concat bufs) = n then (0, Some (sha1 (object_header type n @ concat bufs))) else (- 1, None))"
proof -
  obtain c0 where c0: "git_hash_init ctx = (0, c0)" "ctx_holds c0 []" using git_hash_init_holds [OF assms(1)] by blast
  obtain c1 where c1: "git_hash_update c0 (object_header type n) = (0, c1)" "ctx_holds c1 (object_header type n)"
    using git_hash_update_holds [OF c0(2)] by auto
  obtain c2 l where c2: "hashfd_loop c1 (of_nat n) 0 (map Some bufs) = (0, c2, of_nat (n - length (concat bufs)), l)"
      "0 \<le> l" "ctx_holds c2 (object_header type n @ concat bufs)"
    using hashfd_loop_reads [OF c1(2) assms(3-5), of 0] by auto
  obtain c3 where c3: "git_hash_final c2 = (0, sha1 (object_header type n @ concat bufs), c3)"
    using git_hash_final_sha1 [OF c2(3)] by blast
  have "(of_nat (n - length (concat bufs)) :: u64) = 0 \<longleftrightarrow> length (concat bufs) = n"
    using assms(4,5) of_nat_eq_64 [of "n - length (concat bufs)" 0] by auto
  with assms(2,5) c0(1) c1(1) c2(1,2) c3 show ?thesis
    by (auto simp: git_odb__hashfd_def format_object_header Let_def word_greater_zero_iff simp del: length_concat)
qed

lemma write_loop_tried:
  "write_loop oid data type e bs = (r, tried) \<Longrightarrow> set tried \<subseteq> {b \<in> set bs. \<not> is_alternate b}"
  by (induction bs arbitrary: e r tried) (fastforce split: if_splits option.splits prod.splits)+

lemma odb_write_id:
  assumes "length (ctx_W ctx) = 64" "git_object_typeisloose type" "len \<le> length data" "len < 2 ^ 64"
  shows "\<exists>rc tried. git_odb_write ctx cached backends open_rc final_rc data len type =
      Some (rc, sha1 (object_header type len @ take len data), tried) \<and>
    (\<forall>b \<in> set tried. b \<in> set backends \<and> \<not> is_alternate b) \<and>
    (git_odb_exists cached backends (sha1 (object_header type len @ take len data)) \<longrightarrow> rc = 0 \<and> tried = [])"
proof -
  let ?id = "sha1 (object_header type len @ take len data)"
  obtain r tried where w: "write_loop ?id (take len data) type GIT_ERROR backends = (r, tried)" by fastforce
  from write_loop_tried [OF w] odb_hash_id [OF assms] w show ?thesis
    by (auto simp: git_odb_write_def)
qed

section \<open>Properties\<close>

text \<open>
  (C26) The id of an object is the SHA-1 of its header and its content, whether it is hashed from memory
  or from a file that is read in pieces of any size; a file that ends before the announced size is
  an error, and so is a type that is not stored loose.
\<close>

theorem object_id_correct:
  assumes "length (ctx_W ctx) = 64" "[] \<notin> set bufs" "length (concat bufs) \<le> n" "n < 2 ^ 64"
  shows "git_odb_hash ctx (concat bufs) (length (concat bufs)) type =
      Some (if git_object_typeisloose type
            then (0, Some (sha1 (object_header type (length (concat bufs)) @ concat bufs))) else (- 1, None)) \<and>
    git_odb__hashfd ctx (map Some bufs) n type =
      (if length (concat bufs) = n then git_odb_hash ctx (concat bufs) n type else Some (- 1, None))"
proof (cases "git_object_typeisloose type")
  case True
  have "length (concat bufs) < 2 ^ 64" using assms(3,4) by linarith
  with odb_hash_id [OF assms(1) True, of _ "concat bufs"] odb_hashfd_reads [OF assms(1) True assms(2-4)] True
  show ?thesis by auto
qed (simp add: git_odb_hash_def git_odb__hashobj_def git_odb__hashfd_def)

theorem object_id_correct_witness:
  "git_odb__hashfd fresh_ctx [Some [1], Some [2, 3]] 3 GIT_OBJ_COMMIT = git_odb_hash fresh_ctx [1, 2, 3] 3 GIT_OBJ_COMMIT"
  using object_id_correct [of fresh_ctx "[[1], [2, 3]]" 3 GIT_OBJ_COMMIT] by (simp add: fresh_ctx_def)



end
