(* ===== verification/Level1_Main.thy ===== *)
theory Level1_Main
  imports Odb Cuda_Hasher
begin

text \<open>
  The operations of \<open>level1/src/level1.c\<close> that the threads of \<open>Miner\<close> perform: building the commit,
  committing and pushing it, resetting, and the start of the program.  \<open>Inl\<close> is the exit status
  of a call of \<open>exit\<close>.  Return codes of libgit2 that the code only tests, the shell commands and the
  clock are arguments; the references of the repository are a map.
\<close>

section \<open>Errors\<close>

text \<open>\<open>printf\<close>'s \<open>%d\<close>.\<close>

definition print_d :: "int \<Rightarrow> byte list" where
  "print_d n = (if n < 0 then 45 # decimal (nat (- n)) else decimal (nat n))"

text \<open>The text that \<open>log_lg2\<close> prints; \<open>lg2err\<close> is the message of the last error of the library.\<close>

definition log_lg2 :: "int \<Rightarrow> byte list \<Rightarrow> byte list option \<Rightarrow> byte list option \<Rightarrow> int \<times> byte list" where
  "log_lg2 error message extra lg2err =
     (if error = 0 then (error, [])
      else let (lg2msg, lg2spacer) = (case lg2err of Some m \<Rightarrow> (m, ascii '' - '') | None \<Rightarrow> ([], []))
           in (error, message @
                (case extra of Some e \<Rightarrow> [32, 39] @ e @ [39] | None \<Rightarrow> []) @
                ascii '' ['' @ print_d error @ ascii '']'' @ lg2spacer @ lg2msg @ [10]))"

definition check_lg2 :: "int \<Rightarrow> byte list \<Rightarrow> byte list option \<Rightarrow> byte list option \<Rightarrow> int + unit" where
  "check_lg2 error message extra lg2err =
     (let _ = log_lg2 error message extra lg2err in if error \<noteq> 0 then Inl 1 else Inr ())"

section \<open>The repository\<close>

record repository =
  refs :: "byte list \<rightharpoonup> byte list"

definition GIT_ENOTFOUND :: int where "GIT_ENOTFOUND = - 3"

definition origin_master :: "byte list" where "origin_master = ascii ''refs/remotes/origin/master''"
definition heads_master :: "byte list" where "heads_master = ascii ''refs/heads/master''"

text \<open>
  \<open>git reset --hard\<close> to the remote head moves the checked-out branch, \<open>master\<close>, to it.
\<close>

definition reset_hard :: "int \<Rightarrow> int \<Rightarrow> repository \<Rightarrow> int + repository" where
  "reset_hard peel_rc reset_rc repo =
     (case refs repo origin_master of
        None \<Rightarrow> (case check_lg2 GIT_ENOTFOUND (ascii ''Could not lookup master branch'') None None of
                   Inl e \<Rightarrow> Inl e | Inr _ \<Rightarrow> Inr repo)
      | Some remote_commit \<Rightarrow>
          (case check_lg2 peel_rc (ascii ''Could not peel remote commit'') None None of
             Inl e \<Rightarrow> Inl e
           | Inr _ \<Rightarrow>
               (case check_lg2 reset_rc (ascii ''Could not reset to remote head'') None None of
                  Inl e \<Rightarrow> Inl e
                | Inr _ \<Rightarrow> Inr (repo\<lparr>refs := (refs repo)(heads_master \<mapsto> remote_commit)\<rparr>))))"

text \<open>\<open>fetch\<close> is what \<open>git fetch\<close> does to the references, \<open>pclose_rc\<close> the result of \<open>pclose\<close>.\<close>

definition fetch_updates :: "(repository \<Rightarrow> repository) \<Rightarrow> int \<Rightarrow> repository \<Rightarrow> int + repository" where
  "fetch_updates fetch pclose_rc repo = (if pclose_rc = - 1 then Inl 1 else Inr (fetch repo))"

definition check_updates :: "(repository \<Rightarrow> repository) \<Rightarrow> int \<Rightarrow> repository \<Rightarrow> int + bool \<times> repository" where
  "check_updates fetch pclose_rc repo =
     (case refs repo origin_master of
        None \<Rightarrow> Inl 1
      | Some before_head \<Rightarrow>
          (case fetch_updates fetch pclose_rc repo of
             Inl e \<Rightarrow> Inl e
           | Inr repo \<Rightarrow>
               (case refs repo origin_master of
                  None \<Rightarrow> Inl 1
                | Some after_head \<Rightarrow> Inr (git_oid_cmp before_head after_head \<noteq> 0, repo))))"

section \<open>The commit\<close>

text \<open>\<open>snprintf\<close> into a buffer: at most \<open>n - 1\<close> bytes and a terminating NUL.\<close>

definition snprintf :: "nat \<Rightarrow> byte list \<Rightarrow> byte list \<Rightarrow> byte list" where
  "snprintf n s buf = overwrite 0 (take (n - 1) s @ [0]) buf"

definition commit_text :: "byte list \<Rightarrow> byte list \<Rightarrow> int \<Rightarrow> int \<Rightarrow> byte list" where
  "commit_text tree_str parent_str t1 t2 =
     ascii ''commit '' @ print_d (int MSG_LENGTH) @ [0] @
     ascii ''tree '' @ tree_str @ [10] @
     ascii ''parent '' @ parent_str @ [10] @
     ascii ''author null           <nulles@bytess.com> '' @ print_d t1 @ ascii '' +0000'' @ [10] @
     ascii ''committer null           <nulles@bytess.com> '' @ print_d t2 @ ascii '' +0000'' @ [10] @
     [10] @
     ascii ''coins now'' @ replicate 11 1"

text \<open>
  \<open>tree\<close> and \<open>parent\<close> are the ids of the index's tree and of the head commit, \<open>t1\<close> and \<open>t2\<close> the two
  readings of the clock, \<open>buf\<close> the message buffer before.
\<close>

definition prepare_index ::
  "int \<Rightarrow> int \<Rightarrow> byte list \<Rightarrow> byte list \<Rightarrow> int \<Rightarrow> int \<Rightarrow> byte list \<Rightarrow> int + byte list" where
  "prepare_index read_rc add_rc tree parent t1 t2 buf =
     (let parent_str = git_oid_tostr (GIT_OID_HEXSZ + 1) (Some parent)
      in case check_lg2 read_rc (ascii ''Could not re-read index from disk'') None None of
        Inl e \<Rightarrow> Inl e
      | Inr _ \<Rightarrow>
          (case check_lg2 add_rc (ascii ''Could not add to index'') (Some (ascii ''LEDGER.txt'')) None of
             Inl e \<Rightarrow> Inl e
           | Inr _ \<Rightarrow>
               let tree_str = git_oid_tostr (GIT_OID_HEXSZ + 1) (Some tree);
                   buf = snprintf BUFFER_LENGTH (commit_text tree_str parent_str t1 t2) buf
               in Inr (snd (pad_message buf (of_nat COMMIT_LENGTH) (of_nat BUFFER_LENGTH)))))"

definition commit_result ::
  "int \<Rightarrow> int \<Rightarrow> (byte list \<Rightarrow> nat \<Rightarrow> int \<Rightarrow> (int \<times> byte list \<times> odb_backend list) option) \<Rightarrow> byte list \<Rightarrow> repository \<Rightarrow>
   (int + byte list \<times> repository) option" where
  "commit_result odb_rc ref_rc write buf repo =
     (case check_lg2 odb_rc (ascii ''Could not allocate odb poiner'') None None of
        Inl e \<Rightarrow> Some (Inl e)
      | Inr _ \<Rightarrow>
          (case write (drop PREAMBLE_LENGTH buf) MSG_LENGTH GIT_OBJ_COMMIT of
             None \<Rightarrow> None
           | Some (err, commit, _) \<Rightarrow>
               (case check_lg2 err (ascii ''Error writing commit'') None None of
                  Inl e \<Rightarrow> Some (Inl e)
                | Inr _ \<Rightarrow>
                    (case check_lg2 ref_rc (ascii ''Could not update head'') None None of
                       Inl e \<Rightarrow> Some (Inl e)
                     | Inr _ \<Rightarrow> Some (Inr (commit, repo\<lparr>refs := (refs repo)(heads_master \<mapsto> commit)\<rparr>))))))"

section \<open>Pushing\<close>

definition push_command :: "byte list option \<Rightarrow> byte list" where
  "push_command commit =
     (let cmd = snprintf 128
        (ascii ''git push origin '' @ git_oid_tostr (GIT_OID_HEXSZ + 1) commit @ ascii '':master'') (replicate 128 0)
      in take (strlen cmd) cmd)"

definition push_result_shell :: "(byte list \<Rightarrow> int) \<Rightarrow> byte list option \<Rightarrow> int" where
  "push_result_shell shell commit = shell (push_command commit)"

text \<open>The status callback of the library version: it records a message of the server as a failure.\<close>

definition record_push_status_cb :: "byte list option \<Rightarrow> int \<Rightarrow> int" where
  "record_push_status_cb message retval = (if message \<noteq> None then retval OR 1 else retval)"

definition push_result_lib ::
  "int \<Rightarrow> (byte list \<Rightarrow> int) \<Rightarrow> int \<Rightarrow> bool \<Rightarrow> byte list option list \<Rightarrow> byte list option \<Rightarrow> int + int" where
  "push_result_lib new_rc add_refspec finish_rc unpack_ok statuses commit =
     (let cmd = git_oid_tostr (GIT_OID_HEXSZ + 1) commit @ ascii '':refs/heads/master''
      in case check_lg2 new_rc (ascii ''Error creating push'') None None of
        Inl e \<Rightarrow> Inl e
      | Inr _ \<Rightarrow>
          (case check_lg2 (add_refspec cmd) (ascii ''Failed to add refspec to push'') None None of
             Inl e \<Rightarrow> Inl e
           | Inr _ \<Rightarrow>
               let retval = fst (log_lg2 finish_rc (ascii ''Failed to finish push'') None None)
               in if retval \<noteq> 0 \<or> \<not> unpack_ok then Inr 1
                  else Inr (fold record_push_status_cb statuses retval)))"

section \<open>Start\<close>

text \<open>
  \<open>init_args\<close>: the first forty characters of \<open>difficulty.txt\<close>; \<open>rest\<close> is what follows the array
  in memory, which \<open>fscanf\<close> does not terminate.
\<close>

definition init_args :: "byte list \<Rightarrow> byte list \<Rightarrow> difficulty_result" where
  "init_args file rest = parse_difficulty (take 40 file @ rest)"

definition init_git :: "int \<Rightarrow> int \<Rightarrow> int + unit" where
  "init_git open_rc index_rc =
     (case check_lg2 open_rc (ascii ''No git repository'') None None of
        Inl e \<Rightarrow> Inl e
      | Inr _ \<Rightarrow> check_lg2 index_rc (ascii ''Could not open repository index'') None None)"

section \<open>Layout of the commit\<close>

lemma check_lg2_ok [simp]: "check_lg2 0 message extra lg2err = Inr ()"
  by (simp add: check_lg2_def)

lemma print_d_length:
  assumes "10 ^ 9 \<le> t" "t < 10 ^ 10"
  shows "length (print_d t) = 10"
proof -
  have dec: "length (decimal n) = Suc k" if "10 ^ k \<le> n" "n < 10 ^ Suc k" for n k
    using that
  proof (induction k arbitrary: n)
    case 0
    then show ?case by (simp add: decimal.simps)
  next
    case (Suc k)
    then have "10 ^ k \<le> n div 10" "n div 10 < 10 ^ Suc k" "\<not> n < 10"
      by (auto simp: less_mult_imp_div_less mult.commute less_eq_div_iff_mult_less_eq)
        (metis One_nat_def leD le_trans less_le_trans mult.right_neutral mult_le_mono2 one_le_numeral one_le_power)
    from Suc.IH [OF this(1,2)] this(3) show ?case by (simp add: decimal.simps [of n])
  qed
  have "10 ^ 9 \<le> nat t" "nat t < 10 ^ Suc 9" using assms by auto
  from dec [OF this] assms show ?thesis by (simp add: print_d_def)
qed

lemma tostr_full:
  assumes "length oid = GIT_OID_RAWSZ"
  shows "git_oid_tostr (GIT_OID_HEXSZ + 1) (Some oid) = git_oid_fmt oid" and "length (git_oid_fmt oid) = 40"
  using assms tostr_fmt [OF assms, of "GIT_OID_HEXSZ + 1"]
  by (simp_all add: fmt_digits GIT_OID_HEXSZ_def GIT_OID_RAWSZ_def)

lemma header_236: "object_header GIT_OBJ_COMMIT MSG_LENGTH = ascii ''commit '' @ print_d (int MSG_LENGTH) @ [0]"
  by (simp add: object_header_def git_object_type2string_def GIT_OBJ_COMMIT_def git_objects_table_def print_d_def ascii_def)

lemma print_236: "print_d 236 = [50, 51, 54]"
  by (simp add: print_d_def decimal.simps)

lemma MSG_LENGTH_text: "print_d (int MSG_LENGTH) = [50, 51, 54]"
  by (simp add: print_236 geometry)

lemma length_commit_text:
  assumes "length tree_str = 40" "length parent_str = 40" "10 ^ 9 \<le> t1" "t1 < 10 ^ 10" "10 ^ 9 \<le> t2" "t2 < 10 ^ 10"
  shows "length (commit_text tree_str parent_str t1 t2) = COMMIT_LENGTH"
  using assms print_d_length [of t1] print_d_length [of t2]
  by (simp add: commit_text_def print_236 ascii_def geometry)

lemma prepare_index_text:
  assumes "length tree = GIT_OID_RAWSZ" "length parent = GIT_OID_RAWSZ" "length buf = BUFFER_LENGTH"
    and "10 ^ 9 \<le> t1" "t1 < 10 ^ 10" "10 ^ 9 \<le> t2" "t2 < 10 ^ 10"
  shows "prepare_index 0 0 tree parent t1 t2 buf =
    Inr (commit_text (git_oid_fmt tree) (git_oid_fmt parent) t1 t2 @ sha_padding COMMIT_LENGTH)"
proof -
  let ?t = "commit_text (git_oid_fmt tree) (git_oid_fmt parent) t1 t2"
  have len: "length ?t = COMMIT_LENGTH" using length_commit_text assms tostr_full(2) by simp
  then have sn: "snprintf BUFFER_LENGTH ?t buf = ?t @ 0 # drop 248 buf"
    using assms(3) by (simp add: snprintf_def overwrite_def geometry)
  have "pad_message (?t @ 0 # drop 248 buf) (of_nat COMMIT_LENGTH) (of_nat BUFFER_LENGTH) =
      (0, overwrite COMMIT_LENGTH (sha_padding COMMIT_LENGTH) (?t @ 0 # drop 248 buf))"
    using len assms(3) by (intro pad_message_padding) (simp_all add: geometry)
  moreover have "overwrite COMMIT_LENGTH (sha_padding COMMIT_LENGTH) (?t @ 0 # drop 248 buf) = ?t @ sha_padding COMMIT_LENGTH"
    using len assms(3) by (simp add: overwrite_def geometry sha_padding_247)
  ultimately show ?thesis
    using sn tostr_full(1) [OF assms(1)] tostr_full(1) [OF assms(2)] by (simp add: prepare_index_def Let_def)
qed

text \<open>The object that \<open>commit_result\<close> stores is the hashed buffer without its header.\<close>

lemma hashed_commit:
  assumes "take PREAMBLE_LENGTH buf = object_header GIT_OBJ_COMMIT MSG_LENGTH" "length buf = BUFFER_LENGTH"
  shows "object_header GIT_OBJ_COMMIT MSG_LENGTH @ take MSG_LENGTH (drop PREAMBLE_LENGTH buf) = take COMMIT_LENGTH buf"
  using assms(1) [symmetric] take_add [of PREAMBLE_LENGTH MSG_LENGTH buf] by (simp add: geometry)

lemma commit_is_loose: "git_object_typeisloose GIT_OBJ_COMMIT"
  by (simp add: git_object_typeisloose_def git_objects_table_def GIT_OBJ_COMMIT_def)

lemma commit_result_id:
  assumes "take PREAMBLE_LENGTH buf = object_header GIT_OBJ_COMMIT MSG_LENGTH" "length buf = BUFFER_LENGTH"
    and "length (ctx_W ctx) = 64"
    and "commit_result odb_rc ref_rc (git_odb_write ctx cached backends open_rc final_rc) buf repo = Some (Inr (commit, repo'))"
  shows "commit = sha1 (take COMMIT_LENGTH buf)" and "refs repo' = (refs repo)(heads_master \<mapsto> commit)"
proof -
  let ?data = "drop PREAMBLE_LENGTH buf"
  have "MSG_LENGTH \<le> length ?data" "MSG_LENGTH < 2 ^ 64" using assms(2) by (simp_all add: geometry)
  from odb_write_id [OF assms(3) commit_is_loose this, of cached backends open_rc final_rc]
  obtain r tried where w: "git_odb_write ctx cached backends open_rc final_rc ?data MSG_LENGTH GIT_OBJ_COMMIT =
      Some (r, sha1 (take COMMIT_LENGTH buf), tried)"
    unfolding hashed_commit [OF assms(1,2)] by blast
  from assms(4) w show "commit = sha1 (take COMMIT_LENGTH buf)" "refs repo' = (refs repo)(heads_master \<mapsto> commit)"
    by (auto simp: commit_result_def check_lg2_def split: if_splits)
qed

lemma sample_ids: "length (replicate 20 (0xab :: byte)) = GIT_OID_RAWSZ"
  by (simp add: GIT_OID_RAWSZ_def)

section \<open>Properties\<close>

text \<open>
  (C6) The prepared buffer is a commit object ready for the hasher: with ids of twenty bytes and ten-digit
  times it is exactly 247 bytes of object and nine bytes of SHA-1 padding, it starts with the object
  header of a commit of 236 bytes, the tree and parent lines parse back to the ids, and the eight
  bytes that the hasher overwrites lie in the filler at the end of the message.
\<close>

theorem prepare_index_layout:
  assumes "length tree = GIT_OID_RAWSZ" "length parent = GIT_OID_RAWSZ" "length buf = BUFFER_LENGTH"
    and "10 ^ 9 \<le> t1" "t1 < 10 ^ 10" "10 ^ 9 \<le> t2" "t2 < 10 ^ 10"
  shows "\<exists>buf' rest rest'. prepare_index 0 0 tree parent t1 t2 buf = Inr buf' \<and> padded_commit buf' \<and>
    take PREAMBLE_LENGTH buf' = object_header GIT_OBJ_COMMIT MSG_LENGTH \<and>
    git_oid__parse (replicate 20 0) (drop PREAMBLE_LENGTH buf') (ascii ''tree '') = Some (0, tree, rest) \<and>
    git_oid__parse (replicate 20 0) rest (ascii ''parent '') = Some (0, parent, rest') \<and>
    take 11 (drop 236 buf') = replicate 11 1"
proof -
  let ?t = "commit_text (git_oid_fmt tree) (git_oid_fmt parent) t1 t2"
  let ?b = "?t @ sha_padding COMMIT_LENGTH"
  have len: "length ?t = COMMIT_LENGTH" using length_commit_text assms tostr_full(2) by simp
  obtain pre where pre: "?t = pre @ replicate 11 1" "length pre = 236"
    using len by (simp add: commit_text_def geometry)
  obtain author where t: "?b = object_header GIT_OBJ_COMMIT MSG_LENGTH @
      git_oid__writebuf [] (ascii ''tree '') tree @ git_oid__writebuf [] (ascii ''parent '') parent @ author"
    by (simp add: commit_text_def header_236 git_oid__writebuf_def)
  have h: "length (object_header GIT_OBJ_COMMIT MSG_LENGTH) = PREAMBLE_LENGTH"
    by (simp add: header_236 MSG_LENGTH_text ascii_def PREAMBLE_LENGTH_def)
  have parse: "git_oid__parse (replicate 20 0) (git_oid__writebuf [] hd oid @ r) hd = Some (0, oid, r)"
    if "length oid = GIT_OID_RAWSZ" "0 \<notin> set hd" for oid hd r
    using parse_writebuf [OF that(1) _ that(2), of "replicate 20 0" r] by (simp add: GIT_OID_RAWSZ_def)
  have "git_oid__parse (replicate 20 0) (drop PREAMBLE_LENGTH ?b) (ascii ''tree '') =
      Some (0, tree, git_oid__writebuf [] (ascii ''parent '') parent @ author)"
    unfolding t using parse [OF assms(1)] h by (simp add: ascii_def)
  moreover have "git_oid__parse (replicate 20 0) (git_oid__writebuf [] (ascii ''parent '') parent @ author) (ascii ''parent '') =
      Some (0, parent, author)" using parse [OF assms(2)] by (simp add: ascii_def)
  moreover have "take PREAMBLE_LENGTH ?b = object_header GIT_OBJ_COMMIT MSG_LENGTH" unfolding t using h by simp
  moreover have "padded_commit ?b" using len by (simp add: padded_commit_def geometry sha_padding_247)
  moreover have "take 11 (drop 236 ?b) = replicate 11 1" using pre by simp
  ultimately show ?thesis using prepare_index_text [OF assms] by blast
qed

theorem prepare_index_layout_witness:
  "\<exists>buf'. prepare_index 0 0 (replicate 20 0xab) (replicate 20 0xab) 1400000000 1400000001 (replicate 256 0) = Inr buf' \<and>
     padded_commit buf'"
  using prepare_index_layout [OF sample_ids sample_ids, of "replicate 256 0" 1400000000 1400000001]
  by (auto simp: BUFFER_LENGTH_def)

text \<open>
  (C32) The command of the worker: a commit is pushed by its forty digits; a null commit gives the
  command that deletes the branch on the remote.
\<close>

theorem push_command_correct:
  assumes "length oid = GIT_OID_RAWSZ"
  shows "push_command (Some oid) = ascii ''git push origin '' @ git_oid_fmt oid @ ascii '':master'' \<and>
    push_command None = ascii ''git push origin :master''"
proof -
  have cut: "push_command c = ascii ''git push origin '' @ s @ ascii '':master''"
    if "git_oid_tostr (GIT_OID_HEXSZ + 1) c = s" "0 \<notin> set s" "length s \<le> 40" for c s
  proof -
    let ?x = "ascii ''git push origin '' @ s @ ascii '':master''"
    have x: "0 \<notin> set ?x" "length ?x \<le> 63" using that by (auto simp: ascii_def)
    then have "snprintf 128 ?x (replicate 128 0) = ?x @ 0 # replicate (127 - length ?x) 0"
      by (simp add: snprintf_def overwrite_def drop_replicate del: append_assoc)
    moreover have "takeWhile (\<lambda>c. c \<noteq> 0) (xs @ 0 # r) = xs" if "0 \<notin> set xs" for xs r :: "byte list"
      using that by (subst takeWhile_append2) auto
    then have "strlen (?x @ 0 # r) = length ?x" for r using x(1) unfolding strlen_def by metis
    ultimately show ?thesis unfolding push_command_def that(1) Let_def by (simp del: append_assoc)
  qed
  have "0 \<notin> set (git_oid_fmt oid)"
    using hex_string_hex [of "digits oid"] digits_digit fmt_digits [OF assms] by auto
  with cut [OF tostr_full(1) [OF assms]] tostr_full(2) [OF assms]
  have "push_command (Some oid) = ascii ''git push origin '' @ git_oid_fmt oid @ ascii '':master''" by simp
  moreover have "git_oid_tostr (GIT_OID_HEXSZ + 1) None = []"
    by (simp add: git_oid_tostr_def git_oid_nfmt_def GIT_OID_HEXSZ_def GIT_OID_RAWSZ_def)
  from cut [OF this] have "push_command None = ascii ''git push origin :master''" by (simp add: ascii_def)
  ultimately show ?thesis by blast
qed

theorem push_command_correct_witness:
  "push_command (Some (replicate 20 0xab)) = ascii ''git push origin '' @ git_oid_fmt (replicate 20 0xab) @ ascii '':master''"
  using push_command_correct [OF sample_ids] by blast

end
