(* ===== verification/Coin.thy ===== *)
theory Coin
  imports Cuda_Hasher Level1_Main
begin

text \<open>
  One whole round of the miner: the commit that \<open>prepare_index\<close> lays out, the nonce that the CUDA
  \<open>force_hash\<close> puts into it, and the object that \<open>commit_result\<close> writes.  The sample is a commit with a
  nonce of the first launch for which the digest starts with 36 zero bits.
\<close>

section \<open>A sample commit\<close>

definition coin_block_1 :: "byte list" where
  "coin_block_1 =
     [99, 111, 109, 109, 105, 116, 32, 50, 51, 54, 0, 116, 114, 101, 101, 32, 97, 98, 97, 98, 97, 98, 97,
     98, 97, 98, 97, 98, 97, 98, 97, 98, 97, 98, 97, 98, 97, 98, 97, 98, 97, 98, 97, 98, 97, 98, 97, 98,
     97, 98, 97, 98, 97, 98, 97, 98, 10, 112, 97, 114, 101, 110, 116, 32]"

definition coin_block_2 :: "byte list" where
  "coin_block_2 =
     [97, 98, 97, 98, 97, 98, 97, 98, 97, 98, 97, 98, 97, 98, 97, 98, 97, 98, 97, 98, 97, 98, 97, 98, 97,
     98, 97, 98, 97, 98, 97, 98, 97, 98, 97, 98, 97, 98, 97, 98, 10, 97, 117, 116, 104, 111, 114, 32,
     110, 117, 108, 108, 32, 32, 32, 32, 32, 32, 32, 32, 32, 32, 32, 60]"

definition coin_block_3 :: "byte list" where
  "coin_block_3 =
     [110, 117, 108, 108, 101, 115, 64, 98, 121, 116, 101, 115, 115, 46, 99, 111, 109, 62, 32, 49, 52,
     48, 48, 48, 48, 48, 48, 48, 48, 32, 43, 48, 48, 48, 48, 10, 99, 111, 109, 109, 105, 116, 116, 101,
     114, 32, 110, 117, 108, 108, 32, 32, 32, 32, 32, 32, 32, 32, 32, 32, 32, 60, 110, 117]"

definition coin_block_4 :: "byte list" where
  "coin_block_4 =
     [108, 108, 101, 115, 64, 98, 121, 116, 101, 115, 115, 46, 99, 111, 109, 62, 32, 49, 52, 48, 48, 48,
     57, 49, 49, 53, 53, 32, 43, 48, 48, 48, 48, 10, 10, 99, 111, 105, 110, 115, 32, 110, 111, 119, 0, 0,
     0, 0, 1, 0, 23, 146, 1, 1, 1, 128, 0, 0, 0, 0, 0, 0, 7, 184]"

lemma coin_words_1: "length coin_block_1 = 64" "words_be coin_block_1 =
     [0x636F6D6D, 0x69742032, 0x33360074, 0x72656520, 0x61626162, 0x61626162, 0x61626162, 0x61626162,
     0x61626162, 0x61626162, 0x61626162, 0x61626162, 0x61626162, 0x61626162, 0xA706172, 0x656E7420]"
  by code_simp+

lemma compress_coin_1:
  "sha_compress \<lparr>h0 = 0x67452301, h1 = 0xEFCDAB89, h2 = 0x98BADCFE, h3 = 0x10325476, h4 = 0xC3D2E1F0\<rparr>
     [0x636F6D6D, 0x69742032, 0x33360074, 0x72656520, 0x61626162, 0x61626162, 0x61626162, 0x61626162,
     0x61626162, 0x61626162, 0x61626162, 0x61626162, 0x61626162, 0x61626162, 0xA706172, 0x656E7420] =
   \<lparr>h0 = 0x606804F8, h1 = 0x15477D10, h2 = 0x8EEE7874, h3 = 0x176E6A6B, h4 = 0xB135D113\<rparr>"
  by (subst sha_compress_eval, simp, simp, simp add: eval_schedule del: extend_words.simps(2) run_rounds.simps cong: extend_cong)
    (simp add: eval_rounds del: run_rounds.simps(2) cong: run_rounds_cong)

lemma coin_words_2: "length coin_block_2 = 64" "words_be coin_block_2 =
     [0x61626162, 0x61626162, 0x61626162, 0x61626162, 0x61626162, 0x61626162, 0x61626162, 0x61626162,
     0x61626162, 0x61626162, 0xA617574, 0x686F7220, 0x6E756C6C, 0x20202020, 0x20202020, 0x2020203C]"
  by code_simp+

lemma compress_coin_2:
  "sha_compress \<lparr>h0 = 0x606804F8, h1 = 0x15477D10, h2 = 0x8EEE7874, h3 = 0x176E6A6B, h4 = 0xB135D113\<rparr>
     [0x61626162, 0x61626162, 0x61626162, 0x61626162, 0x61626162, 0x61626162, 0x61626162, 0x61626162,
     0x61626162, 0x61626162, 0xA617574, 0x686F7220, 0x6E756C6C, 0x20202020, 0x20202020, 0x2020203C] =
   \<lparr>h0 = 0xE7BB0AC2, h1 = 0x2C1DB8B4, h2 = 0xF17F1048, h3 = 0x27973283, h4 = 0x58626599\<rparr>"
  by (subst sha_compress_eval, simp, simp, simp add: eval_schedule del: extend_words.simps(2) run_rounds.simps cong: extend_cong)
    (simp add: eval_rounds del: run_rounds.simps(2) cong: run_rounds_cong)

lemma coin_words_3: "length coin_block_3 = 64" "words_be coin_block_3 =
     [0x6E756C6C, 0x65734062, 0x79746573, 0x732E636F, 0x6D3E2031, 0x34303030, 0x30303030, 0x30202B30,
     0x3030300A, 0x636F6D6D, 0x69747465, 0x72206E75, 0x6C6C2020, 0x20202020, 0x20202020, 0x203C6E75]"
  by code_simp+

lemma compress_coin_3:
  "sha_compress \<lparr>h0 = 0xE7BB0AC2, h1 = 0x2C1DB8B4, h2 = 0xF17F1048, h3 = 0x27973283, h4 = 0x58626599\<rparr>
     [0x6E756C6C, 0x65734062, 0x79746573, 0x732E636F, 0x6D3E2031, 0x34303030, 0x30303030, 0x30202B30,
     0x3030300A, 0x636F6D6D, 0x69747465, 0x72206E75, 0x6C6C2020, 0x20202020, 0x20202020, 0x203C6E75] =
   \<lparr>h0 = 0xE5AB65DE, h1 = 0x5A351489, h2 = 0x500E28F4, h3 = 0x40BEBEF7, h4 = 0xD4A16AC\<rparr>"
  by (subst sha_compress_eval, simp, simp, simp add: eval_schedule del: extend_words.simps(2) run_rounds.simps cong: extend_cong)
    (simp add: eval_rounds del: run_rounds.simps(2) cong: run_rounds_cong)

lemma coin_words_4: "length coin_block_4 = 64" "words_be coin_block_4 =
     [0x6C6C6573, 0x40627974, 0x6573732E, 0x636F6D3E, 0x20313430, 0x30303931, 0x31353520, 0x2B303030,
     0x300A0A63, 0x6F696E73, 0x206E6F77, 0x0, 0x1001792, 0x1010180, 0x0, 0x7B8]"
  by code_simp+

lemma compress_coin_4:
  "sha_compress \<lparr>h0 = 0xE5AB65DE, h1 = 0x5A351489, h2 = 0x500E28F4, h3 = 0x40BEBEF7, h4 = 0xD4A16AC\<rparr>
     [0x6C6C6573, 0x40627974, 0x6573732E, 0x636F6D3E, 0x20313430, 0x30303931, 0x31353520, 0x2B303030,
     0x300A0A63, 0x6F696E73, 0x206E6F77, 0x0, 0x1001792, 0x1010180, 0x0, 0x7B8] =
   \<lparr>h0 = 0x0, h1 = 0xC9E4A20, h2 = 0x41EB30DE, h3 = 0xACB705B6, h4 = 0x324F74A3\<rparr>"
  by (subst sha_compress_eval, simp, simp, simp add: eval_schedule del: extend_words.simps(2) run_rounds.simps cong: extend_cong)
    (simp add: eval_rounds del: run_rounds.simps(2) cong: run_rounds_cong)

definition coin_tree :: "byte list" where
  "coin_tree = replicate 20 0xab"

definition coin_buffer :: "byte list" where
  "coin_buffer = commit_text (git_oid_fmt coin_tree) (git_oid_fmt coin_tree) 1400000000 1400091155 @ sha_padding COMMIT_LENGTH"

lemma coin_fmt: "git_oid_fmt coin_tree = [97, 98, 97, 98, 97, 98, 97, 98, 97, 98, 97, 98, 97, 98, 97, 98, 97, 98, 97, 98, 97, 98, 97, 98, 97, 98, 97, 98, 97, 98, 97, 98, 97, 98, 97, 98, 97, 98, 97, 98]"
  by code_simp

lemma coin_times: "print_d 1400000000 = ascii ''1400000000''" "print_d 1400091155 = ascii ''1400091155''"
  by (simp_all add: print_d_def decimal.simps ascii_def)

lemma coin_padding: "sha_padding COMMIT_LENGTH = [128, 0, 0, 0, 0, 0, 0, 7, 184]"
  by (simp add: geometry sha_padding_def bytes_be64_def bytes_be32_def)

lemma with_nonce_append:
  assumes "length pre = 236" "length old = 8"
  shows "with_nonce idx gid (pre @ old @ rest) = pre @ bytes_be32 idx @ bytes_be32 gid @ rest"
  using assms by (simp add: with_nonce_def overwrite_def)

definition coin_prefix :: "byte list" where
  "coin_prefix = ascii ''commit 236'' @ [0] @ ascii ''tree '' @ git_oid_fmt coin_tree @ [10] @
     ascii ''parent '' @ git_oid_fmt coin_tree @ [10] @
     ascii ''author null           <nulles@bytess.com> 1400000000 +0000'' @ [10] @
     ascii ''committer null           <nulles@bytess.com> 1400091155 +0000'' @ [10, 10] @ ascii ''coins now''"

lemma coin_buffer_eq: "coin_buffer = coin_prefix @ [1, 1, 1, 1, 1, 1, 1, 1] @ [1, 1, 1, 128, 0, 0, 0, 0, 0, 0, 7, 184]"
proof -
  have "replicate 11 (1 :: byte) = [1, 1, 1, 1, 1, 1, 1, 1, 1, 1, 1]" by (simp add: numeral_eq_Suc)
  then show ?thesis
    unfolding coin_buffer_def commit_text_def coin_times coin_padding MSG_LENGTH_text coin_prefix_def
    by (simp add: ascii_def)
qed

lemma coin_prefix_length: "length coin_prefix = 236"
  by (simp add: coin_prefix_def coin_fmt ascii_def)

lemma coin_text:
  "with_nonce 0 0x1001792 coin_buffer = coin_block_1 @ coin_block_2 @ coin_block_3 @ coin_block_4"
proof -
  have "length [1 :: byte, 1, 1, 1, 1, 1, 1, 1] = 8" by simp
  note this [THEN with_nonce_append [OF coin_prefix_length]]
  then show ?thesis
    unfolding coin_buffer_eq
    by (simp only:) (simp add: coin_prefix_def coin_fmt ascii_def coin_block_1_def coin_block_2_def
        coin_block_3_def coin_block_4_def bytes_be32_def)
qed

lemma coin_padded: "padded_commit coin_buffer"
  using coin_prefix_length coin_padding by (simp add: padded_commit_def coin_buffer_eq geometry)

lemma coin_target: "zero_bits_36 (take COMMIT_LENGTH (with_nonce 0 0x1001792 coin_buffer))"
proof -
  let ?b = "with_nonce 0 0x1001792 coin_buffer"
  have p: "length ?b = 256" "drop 247 ?b = sha_padding 247"
    using with_nonce_padded(1) [OF coin_padded] by (simp_all add: padded_commit_def geometry)
  then have "take 247 ?b @ sha_padding (length (take 247 ?b)) = ?b"
    using append_take_drop_id [of 247 ?b] by simp
  then have "sha_state (take 247 ?b) = sha_absorb sha_init ?b" by (simp add: sha_state_def)
  then show ?thesis
    unfolding zero_bits_36_def sha1_def geometry coin_text
    by (simp add: sha_absorb_append sha_absorb_block coin_words_1 coin_words_2 coin_words_3 coin_words_4
        sha_init_def compress_coin_1 compress_coin_2 compress_coin_3 compress_coin_4 digest_bytes_def bytes_be32_def)
qed

lemma coin_launch: "0x1001792 \<in> launch_nonces"
proof -
  have "0x1001792 = nonce 0x1792 1" by (simp add: nonce_def)
  then show ?thesis by (force simp: launch_nonces_def)
qed

section \<open>A round\<close>

text \<open>What the search leaves alone: header, tree and parent of the commit.\<close>

lemma take_with_nonce: "n \<le> 236 \<Longrightarrow> length buf = 256 \<Longrightarrow> take n (with_nonce idx gid buf) = take n buf"
  by (simp add: with_nonce_def overwrite_def min_def)

lemma prepared_header:
  assumes "length tree = GIT_OID_RAWSZ" "length parent = GIT_OID_RAWSZ" "length buf = BUFFER_LENGTH"
    and "10 ^ 9 \<le> t1" "t1 < 10 ^ 10" "10 ^ 9 \<le> t2" "t2 < 10 ^ 10"
    and "prepare_index 0 0 tree parent t1 t2 buf = Inr buf'"
  shows "padded_commit buf'"
    and "take PREAMBLE_LENGTH buf' = object_header GIT_OBJ_COMMIT MSG_LENGTH"
    and "take 94 (drop PREAMBLE_LENGTH buf') =
      ascii ''tree '' @ git_oid_fmt tree @ [10] @ ascii ''parent '' @ git_oid_fmt parent @ [10]"
proof -
  let ?t = "commit_text (git_oid_fmt tree) (git_oid_fmt parent) t1 t2"
  have buf': "buf' = ?t @ sha_padding COMMIT_LENGTH" using prepare_index_text [OF assms(1-7)] assms(8) by simp
  have fmt: "length (git_oid_fmt tree) = 40" "length (git_oid_fmt parent) = 40" using assms(1,2) tostr_full(2) by simp_all
  then have len: "length ?t = COMMIT_LENGTH" using length_commit_text assms(4-7) by simp
  then show "padded_commit buf'" by (simp add: buf' padded_commit_def geometry length_sha_padding)
  obtain author where t: "buf' = object_header GIT_OBJ_COMMIT MSG_LENGTH @
      (ascii ''tree '' @ git_oid_fmt tree @ [10] @ ascii ''parent '' @ git_oid_fmt parent @ [10]) @ author"
    by (simp add: buf' commit_text_def header_236)
  have h: "length (object_header GIT_OBJ_COMMIT MSG_LENGTH) = PREAMBLE_LENGTH"
    by (simp add: header_236 MSG_LENGTH_text ascii_def PREAMBLE_LENGTH_def)
  show "take PREAMBLE_LENGTH buf' = object_header GIT_OBJ_COMMIT MSG_LENGTH" using h by (simp add: t)
  show "take 94 (drop PREAMBLE_LENGTH buf') =
      ascii ''tree '' @ git_oid_fmt tree @ [10] @ ascii ''parent '' @ git_oid_fmt parent @ [10]"
    using h fmt by (simp add: t ascii_def)
qed

text \<open>
  (C1) A round of the miner that finds a nonce makes a coin: when \<open>prepare_index\<close> has laid out the commit,
  \<open>force_hash\<close> returns with \<open>found\<close> set and \<open>commit_result\<close> succeeds, the id of the new commit is the SHA-1
  digest of the object that was searched, starts with 36 zero bits and is what
  \<open>refs/heads/master\<close> points to, and the object still names the tree and the parent it was made for.
\<close>

theorem coin_committed:
  assumes "length tree = GIT_OID_RAWSZ" "length parent = GIT_OID_RAWSZ" "length buf = BUFFER_LENGTH"
    and "10 ^ 9 \<le> t1" "t1 < 10 ^ 10" "10 ^ 9 \<le> t2" "t2 < 10 ^ 10"
    and prepared: "prepare_index 0 0 tree parent t1 t2 buf = Inr buf'"
    and "sha1_stream (midstate env)" "cuda_ok env"
    and hashed: "force_hash env fuel st \<lparr>msg = buf', found = 0\<rparr> = Some (st', args)" "found args = 1"
    and "length (ctx_W ctx) = 64"
    and commit: "commit_result odb_rc ref_rc (git_odb_write ctx cached backends open_rc final_rc) (msg args) repo =
      Some (Inr (commit, repo'))"
  shows "commit = sha1 (take COMMIT_LENGTH (msg args)) \<and>
    take 4 commit = [0, 0, 0, 0] \<and> drop_bit 4 (commit ! 4) = 0 \<and> refs repo' heads_master = Some commit \<and>
    take 94 (drop PREAMBLE_LENGTH (msg args)) =
      ascii ''tree '' @ git_oid_fmt tree @ [10] @ ascii ''parent '' @ git_oid_fmt parent @ [10]"
proof -
  note p = prepared_header [OF assms(1-7) prepared]
  have len: "length buf' = 256" using p(1) by (simp add: padded_commit_def geometry)
  from force_hash_result [OF assms(9) _ assms(10) hashed(1)] p(1) hashed(2)
  obtain k g where m: "msg args = with_nonce (of_nat k) g buf'"
    and zero: "zero_bits_36 (take COMMIT_LENGTH (msg args))" by auto
  have same: "take n (msg args) = take n buf'" if "n \<le> 236" for n
    using take_with_nonce [OF that len] m by simp
  have "take PREAMBLE_LENGTH (msg args) = object_header GIT_OBJ_COMMIT MSG_LENGTH"
    using same [of PREAMBLE_LENGTH] p(2) by (simp add: geometry)
  moreover have "length (msg args) = BUFFER_LENGTH"
    using with_nonce_padded(1) [OF p(1)] by (simp add: m padded_commit_def)
  ultimately have c: "commit = sha1 (take COMMIT_LENGTH (msg args))" "refs repo' = (refs repo)(heads_master \<mapsto> commit)"
    using commit_result_id [OF _ _ assms(13) commit] by auto
  have "take 94 (drop PREAMBLE_LENGTH (msg args)) = take 94 (drop PREAMBLE_LENGTH buf')"
    using same [of "94 + PREAMBLE_LENGTH"] by (simp add: take_drop geometry)
  then show ?thesis using c p(3) zero by (simp add: zero_bits_36_def)
qed

lemma coin_found:
  "\<exists>st' g. force_hash sample_env 1 sample_state \<lparr>msg = coin_buffer, found = 0\<rparr> =
     Some (st', \<lparr>msg = with_nonce 0 g coin_buffer, found = 1\<rparr>)"
  using force_hash_search [of sample_env "\<lparr>msg = coin_buffer, found = 0\<rparr>" 0 1 sample_state]
    sample_ok coin_padded coin_target coin_launch by (auto simp: sample_env_def)

lemma commit_succeeds:
  assumes "length buf = BUFFER_LENGTH" "length (ctx_W ctx) = 64"
  shows "\<exists>c. commit_result 0 0 (git_odb_write ctx cached backends 0 0) buf repo =
    Some (Inr (c, repo\<lparr>refs := (refs repo)(heads_master \<mapsto> c)\<rparr>))"
proof -
  have "MSG_LENGTH \<le> length (drop PREAMBLE_LENGTH buf)" "MSG_LENGTH < 2 ^ 64" using assms(1) by (simp_all add: geometry)
  from odb_write_id [OF assms(2) commit_is_loose this, of cached backends 0 0]
  obtain rc tried c where w: "git_odb_write ctx cached backends 0 0 (drop PREAMBLE_LENGTH buf) MSG_LENGTH GIT_OBJ_COMMIT =
      Some (rc, c, tried)" by blast
  then have "rc = 0" by (auto simp: git_odb_write_def Let_def split: option.splits prod.splits if_splits)
  with w show ?thesis by (simp add: commit_result_def check_lg2_def)
qed

theorem coin_committed_witness:
  "\<exists>st' args commit.
     prepare_index 0 0 coin_tree coin_tree 1400000000 1400091155 (replicate 256 0) = Inr coin_buffer \<and>
     force_hash sample_env 1 sample_state \<lparr>msg = coin_buffer, found = 0\<rparr> = Some (st', args) \<and>
     commit_result 0 0 (git_odb_write fresh_ctx (\<lambda>_. False) [] 0 0) (msg args) \<lparr>refs = Map.empty\<rparr> =
       Some (Inr (commit, \<lparr>refs = [heads_master \<mapsto> commit]\<rparr>)) \<and>
     take 4 commit = [0, 0, 0, 0] \<and> drop_bit 4 (commit ! 4) = 0"
proof -
  have ids: "length coin_tree = GIT_OID_RAWSZ" "length (replicate 256 (0 :: byte)) = BUFFER_LENGTH"
    by (simp_all add: coin_tree_def GIT_OID_RAWSZ_def geometry)
  have p: "prepare_index 0 0 coin_tree coin_tree 1400000000 1400091155 (replicate 256 0) = Inr coin_buffer"
    using prepare_index_text [OF ids(1,1,2), of 1400000000 1400091155] by (simp add: coin_buffer_def)
  obtain st' g where f: "force_hash sample_env 1 sample_state \<lparr>msg = coin_buffer, found = 0\<rparr> =
      Some (st', \<lparr>msg = with_nonce 0 g coin_buffer, found = 1\<rparr>)" using coin_found by blast
  have l: "length (with_nonce 0 g coin_buffer) = BUFFER_LENGTH" "length (ctx_W fresh_ctx) = 64"
    using with_nonce_padded(1) [OF coin_padded] by (simp_all add: padded_commit_def fresh_ctx_def)
  obtain c where c: "commit_result 0 0 (git_odb_write fresh_ctx (\<lambda>_. False) [] 0 0) (with_nonce 0 g coin_buffer)
      \<lparr>refs = Map.empty\<rparr> = Some (Inr (c, \<lparr>refs = [heads_master \<mapsto> c]\<rparr>))"
    using commit_succeeds [OF l, of "\<lambda>_. False" "[]" "\<lparr>refs = Map.empty\<rparr>"] by auto
  from coin_committed [OF ids(1,1,2) _ _ _ _ p sample_ok f _ l(2)] c p f show ?thesis
    by (intro exI [of _ st'] exI [of _ "\<lparr>msg = with_nonce 0 g coin_buffer, found = 1\<rparr>"] exI [of _ c]) simp
qed

end
