(* ===== verification/Benchmark.thy ===== *)
theory Benchmark
  imports Cuda_Hasher
begin

text \<open>
  The benchmark program (\<open>level1/src/benchmark.c\<close>) built with the CUDA hasher: it searches messages that
  differ in their first four bytes and exits with an error when a digest is not below the difficulty.
  The one-shot \<open>SHA1\<close> of OpenSSL, the clock and the state of the CUDA runtime in each iteration are
  arguments; the flag \<open>unused_stop\<close> is never set.
\<close>

section \<open>The program\<close>

fun memcmp :: "nat \<Rightarrow> byte list \<Rightarrow> byte list \<Rightarrow> int" where
  "memcmp 0 s t = 0"
| "memcmp (Suc n) s t = (if hd s \<noteq> hd t then uint (hd s) - uint (hd t) else memcmp n (tl s) (tl t))"

definition hex_char :: "byte \<Rightarrow> byte" where
  "hex_char n = (if n < 10 then 48 + n else 87 + n)"

text \<open>\<open>sprintf\<close>'s \<open>%02x\<close> of a byte, without the NUL that the next call overwrites.\<close>

definition print_02x :: "byte \<Rightarrow> byte list" where
  "print_02x b = [hex_char (drop_bit 4 b), hex_char (b AND 0xf)]"

definition default_difficulty :: "byte list" where
  "default_difficulty = ascii ''00000008ffffffffffffffffffffffffffffffff''"

definition bench_message :: "byte list" where
  "bench_message =
     snd (pad_message (map (\<lambda>i. of_nat (i mod 128)) [0..<BUFFER_LENGTH]) (of_nat COMMIT_LENGTH) (of_nat BUFFER_LENGTH))"

text \<open>
  One iteration: \<open>None\<close> when the search does not return, \<open>Inl\<close> the exit code of a failed check.
\<close>

definition bench_iteration ::
  "(byte list \<Rightarrow> byte list) \<Rightarrow> cuda_env \<Rightarrow> nat \<Rightarrow> byte list \<Rightarrow> nat \<Rightarrow> cuda_state \<Rightarrow> byte list \<Rightarrow>
   (int + cuda_state \<times> byte list) option" where
  "bench_iteration SHA1 env fuel hex_difficulty i st buf =
     (let buf = overwrite 0 (replicate COMMIT_LENGTH 0) buf;
          buf = overwrite 0 (bytes_le32 (of_nat i)) buf
      in case force_hash env fuel st \<lparr>msg = buf, found = 0\<rparr> of
        None \<Rightarrow> None
      | Some (st, args) \<Rightarrow>
          let hash = SHA1 (take COMMIT_LENGTH (msg args));
              hex_hash = concat (map (\<lambda>j. print_02x (hash ! j)) [0..<20])
          in if 0 < memcmp 40 hex_hash hex_difficulty then Some (Inl 1)
             else if found args = 0 then Some (Inl 1)
             else Some (Inr (st, msg args)))"

text \<open>The loop from iteration \<open>i\<close> on, for \<open>n\<close> iterations; \<open>elapsed i\<close> is the time of iteration \<open>i\<close>.\<close>

primrec bench_loop ::
  "(byte list \<Rightarrow> byte list) \<Rightarrow> (nat \<Rightarrow> cuda_env) \<Rightarrow> nat \<Rightarrow> byte list \<Rightarrow> (nat \<Rightarrow> u64) \<Rightarrow> nat \<Rightarrow> nat \<Rightarrow>
   cuda_state \<Rightarrow> byte list \<Rightarrow> u64 \<Rightarrow> (int + cuda_state \<times> byte list \<times> u64) option" where
  "bench_loop SHA1 env fuel hex_difficulty elapsed 0 i st buf sum_ms = Some (Inr (st, buf, sum_ms))"
| "bench_loop SHA1 env fuel hex_difficulty elapsed (Suc n) i st buf sum_ms =
     (case bench_iteration SHA1 (env i) fuel hex_difficulty i st buf of
        None \<Rightarrow> None
      | Some (Inl e) \<Rightarrow> Some (Inl e)
      | Some (Inr (st, buf)) \<Rightarrow>
          bench_loop SHA1 env fuel hex_difficulty elapsed n (i + 1) st buf (sum_ms + elapsed i))"

text \<open>
  The program after its arguments are read.  \<open>garbage\<close> is what the difficulty holds when it could not be
  scanned; the mean of no iteration is a division by zero.
\<close>

datatype bench_exit = Exited int | Division_by_zero

definition bench_main ::
  "(byte list \<Rightarrow> byte list) \<Rightarrow> (nat \<Rightarrow> cuda_env) \<Rightarrow> nat \<Rightarrow> byte \<Rightarrow> (nat \<Rightarrow> u64) \<Rightarrow> byte list \<Rightarrow> int \<Rightarrow>
   cuda_state \<Rightarrow> bench_exit option" where
  "bench_main SHA1 env fuel garbage elapsed hex_difficulty iters st =
     (let run = (\<lambda>d. case bench_loop SHA1 env fuel hex_difficulty elapsed (nat iters) 0 (snd (init_hasher d st)) bench_message 0 of
                   None \<Rightarrow> None
                 | Some (Inl e) \<Rightarrow> Some (Exited e)
                 | Some (Inr (st, _)) \<Rightarrow>
                     if (of_int iters :: u64) = 0 then Some Division_by_zero
                     else let (_, _) = free_hasher st in Some (Exited 0))
      in case parse_difficulty hex_difficulty of
        Exit \<Rightarrow> Some (Exited 1)
      | Uninitialised \<Rightarrow> run garbage
      | Difficulty d \<Rightarrow> run d)"

section \<open>Digests below the difficulty\<close>

lemma memcmp_below:
  assumes "k < m" "m \<le> n" "take m s = replicate m c" "take k t = replicate k c" "c < t ! k" "m \<le> length s" "k < length t"
  shows "memcmp n s t < 0"
  using assms
proof (induction k arbitrary: m n s t)
  case 0
  obtain n' where n': "n = Suc n'" using 0 by (cases n) auto
  obtain x s' y t' where st: "s = x # s'" "t = y # t'" using 0 by (cases s; cases t) auto
  then have "x = c" "c < y" using 0 by (cases m; simp)+
  then show ?case by (auto simp: n' st word_less_def)
next
  case (Suc k)
  obtain n' m' where n': "n = Suc n'" "m = Suc m'" using Suc.prems by (cases n; cases m) auto
  obtain x s' y t' where st: "s = x # s'" "t = y # t'" using Suc.prems by (cases s; cases t) auto
  have "memcmp n' s' t' < 0"
    by (rule Suc.IH [of m']) (use Suc.prems in \<open>simp_all add: n' st\<close>)
  then show ?case using Suc.prems by (simp add: n' st)
qed

lemma zero_bits_hex:
  assumes "zero_bits_36 m"
  shows "take 9 (concat (map (\<lambda>j. print_02x (sha1 m ! j)) [0..<20])) = replicate 9 48"
proof -
  have z: "take 4 (sha1 m) = [0, 0, 0, 0]" "drop_bit 4 (sha1 m ! 4) = 0"
    using assms by (simp_all add: zero_bits_36_def)
  have s: "sha1 m = [0, 0, 0, 0] @ drop 4 (sha1 m)" using append_take_drop_id [of 4 "sha1 m"] z(1) by simp
  have "sha1 m ! 0 = 0" "sha1 m ! 1 = 0" "sha1 m ! 2 = 0" "sha1 m ! 3 = 0" by (subst s, simp)+
  moreover have "print_02x 0 = [48, 48]" "print_02x (sha1 m ! 4) = [48, hex_char (sha1 m ! 4 AND 0xf)]"
    using z(2) by (simp_all add: print_02x_def hex_char_def)
  moreover have "[0..<20] = [0, 1, 2, 3, 4] @ [5..<20]" by (simp add: upt_rec)
  moreover have "replicate 9 (48 :: byte) = [48, 48, 48, 48, 48, 48, 48, 48, 48]" by (simp add: numeral_eq_Suc)
  ultimately show ?thesis by (simp only: map_append concat_append list.map concat.simps) simp
qed

lemma length_hex_hash: "length (concat (map (\<lambda>j. print_02x (f j)) [0..<20])) = 40"
  by (simp add: length_concat print_02x_def o_def sum_list_triv)

lemma iteration_message:
  assumes "padded_commit buf"
  shows "padded_commit (overwrite 0 (bytes_le32 x) (overwrite 0 (replicate COMMIT_LENGTH 0) buf))"
  using assms by (simp add: padded_commit_def overwrite_def geometry length_sha_padding)

lemma bench_message_padded: "padded_commit bench_message"
proof -
  have "pad_message (map (\<lambda>i. of_nat (i mod 128)) [0..<BUFFER_LENGTH]) (of_nat COMMIT_LENGTH) (of_nat BUFFER_LENGTH) =
      (0, overwrite COMMIT_LENGTH (sha_padding COMMIT_LENGTH) (map (\<lambda>i. of_nat (i mod 128)) [0..<BUFFER_LENGTH]))"
    by (rule pad_message_padding) (simp_all add: geometry)
  then show ?thesis
    by (simp add: bench_message_def padded_commit_def overwrite_def geometry length_sha_padding)
qed

text \<open>What the benchmark assumes of its surroundings.\<close>

definition bench_env :: "(byte list \<Rightarrow> byte list) \<Rightarrow> (nat \<Rightarrow> cuda_env) \<Rightarrow> bool" where
  "bench_env SHA1 env \<longleftrightarrow> (\<forall>m. SHA1 m = sha1 m) \<and>
     (\<forall>i. sha1_stream (midstate (env i)) \<and> cuda_ok (env i) \<and> (\<forall>k. \<not> stop_flag (env i) k))"

lemma iteration_passes:
  assumes "bench_env SHA1 env" "padded_commit buf"
    and "length d = 40" "k < 9" "take k d = replicate k 48" "48 < d ! k"
    and "bench_iteration SHA1 (env i) fuel d i st buf = Some r"
  shows "\<exists>st' buf'. r = Inr (st', buf') \<and> padded_commit buf' \<and> zero_bits_36 (take COMMIT_LENGTH buf')"
proof -
  let ?buf = "overwrite 0 (bytes_le32 (of_nat i)) (overwrite 0 (replicate COMMIT_LENGTH 0) buf)"
  have e: "sha1_stream (midstate (env i))" "cuda_ok (env i)" "\<And>k. \<not> stop_flag (env i) k" "SHA1 = sha1"
    using assms(1) by (auto simp: bench_env_def)
  have p: "padded_commit ?buf" using iteration_message [OF assms(2)] .
  obtain st' args where f: "force_hash (env i) fuel st \<lparr>msg = ?buf, found = 0\<rparr> = Some (st', args)"
    using assms(7) by (auto simp: bench_iteration_def Let_def split: option.splits)
  with force_hash_result [OF e(1) _ e(2) f] p e(3) obtain n g where
    args: "args = \<lparr>msg = with_nonce (of_nat n) g ?buf, found = 1\<rparr>" "zero_bits_36 (take COMMIT_LENGTH (msg args))" by auto
  have "memcmp 40 (concat (map (\<lambda>j. print_02x (sha1 (take COMMIT_LENGTH (msg args)) ! j)) [0..<20])) d < 0"
    by (rule memcmp_below [OF assms(4) _ zero_bits_hex [OF args(2)] assms(5,6)])
      (simp_all only: length_hex_hash, use assms(3,4) in auto)
  then have "r = Inr (st', msg args)" using assms(7) args(1) f e(4) by (simp add: bench_iteration_def Let_def)
  then show ?thesis using with_nonce_padded(1) [OF p] args by auto
qed

text \<open>
  (C9) The benchmark never reports a bad hash: for every difficulty with fewer than nine leading zeros, in
  particular the built-in one, each iteration whose search returns passes both checks, and after any
  number of iterations the buffer holds a message whose digest starts with 36 zero bits.
\<close>

theorem benchmark_passes:
  assumes "bench_env SHA1 env" "padded_commit buf"
    and "length d = 40" "k < 9" "take k d = replicate k 48" "48 < d ! k"
    and "bench_loop SHA1 env fuel d elapsed n i st buf sum_ms = Some r"
  shows "\<exists>st' buf' sum_ms'. r = Inr (st', buf', sum_ms') \<and> padded_commit buf' \<and>
    (0 < n \<longrightarrow> zero_bits_36 (take COMMIT_LENGTH buf'))"
  using assms(2,7)
proof (induction n arbitrary: i st buf sum_ms)
  case 0
  then show ?case by auto
next
  case (Suc n)
  obtain r1 where r1: "bench_iteration SHA1 (env i) fuel d i st buf = Some r1" using Suc.prems(2) by (auto split: option.splits)
  then obtain st' buf' where b: "r1 = Inr (st', buf')" "padded_commit buf'" "zero_bits_36 (take COMMIT_LENGTH buf')"
    using iteration_passes [OF assms(1) Suc.prems(1) assms(3-6)] by blast
  then have l: "bench_loop SHA1 env fuel d elapsed n (i + 1) st' buf' (sum_ms + elapsed i) = Some r"
    using Suc.prems(2) r1 by simp
  from Suc.IH [OF b(2) l] b l show ?case by (cases n) auto
qed

section \<open>A sample iteration\<close>

lemma compress_bench_1:
  "sha_compress \<lparr>h0 = 0x67452301, h1 = 0xEFCDAB89, h2 = 0x98BADCFE, h3 = 0x10325476, h4 = 0xC3D2E1F0\<rparr>
     [0x479C0000, 0, 0, 0, 0, 0, 0, 0, 0, 0, 0, 0, 0, 0, 0, 0] =
   \<lparr>h0 = 0x1ED810AA, h1 = 0xF11EF54C, h2 = 0x4E4A898E, h3 = 0x804EA3A0, h4 = 0xD115054E\<rparr>"
  by (subst sha_compress_eval, simp, simp, simp add: eval_schedule del: extend_words.simps(2) run_rounds.simps cong: extend_cong)
    (simp add: eval_rounds del: run_rounds.simps(2) cong: run_rounds_cong)

lemma compress_bench_2:
  "sha_compress \<lparr>h0 = 0x1ED810AA, h1 = 0xF11EF54C, h2 = 0x4E4A898E, h3 = 0x804EA3A0, h4 = 0xD115054E\<rparr>
     [0, 0, 0, 0, 0, 0, 0, 0, 0, 0, 0, 0, 0, 0, 0, 0] =
   \<lparr>h0 = 0x483A8895, h1 = 0x169AF035, h2 = 0x64C4CF1, h3 = 0xDA7242F, h4 = 0x3FC5FE5A\<rparr>"
  by (subst sha_compress_eval, simp, simp, simp add: eval_schedule del: extend_words.simps(2) run_rounds.simps cong: extend_cong)
    (simp add: eval_rounds del: run_rounds.simps(2) cong: run_rounds_cong)

lemma compress_bench_3:
  "sha_compress \<lparr>h0 = 0x483A8895, h1 = 0x169AF035, h2 = 0x64C4CF1, h3 = 0xDA7242F, h4 = 0x3FC5FE5A\<rparr>
     [0, 0, 0, 0, 0, 0, 0, 0, 0, 0, 0, 0, 0, 0, 0, 0] =
   \<lparr>h0 = 0x9526B08E, h1 = 0xDB4EFE12, h2 = 0x51306797, h3 = 0x14DD3929, h4 = 0xF67AE653\<rparr>"
  by (subst sha_compress_eval, simp, simp, simp add: eval_schedule del: extend_words.simps(2) run_rounds.simps cong: extend_cong)
    (simp add: eval_rounds del: run_rounds.simps(2) cong: run_rounds_cong)

lemma compress_bench_4:
  "sha_compress \<lparr>h0 = 0x9526B08E, h1 = 0xDB4EFE12, h2 = 0x51306797, h3 = 0x14DD3929, h4 = 0xF67AE653\<rparr>
     [0, 0, 0, 0, 0, 0, 0, 0, 0, 0, 0, 0, 0x60014AF, 0x80, 0, 0x7B8] =
   \<lparr>h0 = 0x0, h1 = 0x53106A0, h2 = 0x516CA61D, h3 = 0x7B8EC1AA, h4 = 0xEA64F48B\<rparr>"
  by (subst sha_compress_eval, simp, simp, simp add: eval_schedule del: extend_words.simps(2) run_rounds.simps cong: extend_cong)
    (simp add: eval_rounds del: run_rounds.simps(2) cong: run_rounds_cong)

definition bench_buffer :: "byte list" where
  "bench_buffer = [0x47, 0x9C, 0, 0] @ replicate 243 0 @ [128, 0, 0, 0, 0, 0, 0, 7, 184]"

definition bench_first :: "byte list" where
  "bench_first = [0x47, 0x9C, 0, 0] @ replicate 60 0"

definition bench_tail :: "byte list" where
  "bench_tail = replicate 48 0 @ [6, 0, 0x14, 0xAF, 0, 0, 0, 128, 0, 0, 0, 0, 0, 0, 7, 184]"

lemma bench_buffer_eq:
  "overwrite 0 (bytes_le32 (of_nat 40007)) (overwrite 0 (replicate COMMIT_LENGTH 0) bench_message) = bench_buffer"
proof -
  have pad: "sha_padding COMMIT_LENGTH = [128, 0, 0, 0, 0, 0, 0, 7, 184]"
    by (simp add: geometry sha_padding_def bytes_be64_def bytes_be32_def)
  have "drop 247 bench_message = sha_padding COMMIT_LENGTH" "length bench_message = 256"
    using bench_message_padded by (simp_all add: padded_commit_def geometry)
  then show ?thesis using pad
    by (simp add: overwrite_def bench_buffer_def geometry bytes_le32_def drop_replicate)
qed

lemma bench_buffer_padded: "padded_commit bench_buffer"
  using iteration_message [OF bench_message_padded, of "of_nat 40007"] bench_buffer_eq by simp

lemma bench_nonce:
  "with_nonce 0 0x60014AF bench_buffer = bench_first @ replicate 64 0 @ replicate 64 0 @ bench_tail"
proof -
  have r: "replicate 243 (0 :: byte) = replicate 60 0 @ replicate 64 0 @ replicate 64 0 @ replicate 44 0 @ replicate 11 0"
    by (simp flip: replicate_add)
  have "replicate 11 (0 :: byte) = replicate 8 0 @ replicate 3 0" "replicate 48 (0 :: byte) = replicate 44 0 @ replicate 4 0"
    "replicate 3 (0 :: byte) = [0, 0, 0]" "replicate 4 (0 :: byte) = [0, 0, 0, 0]"
    by (simp flip: replicate_add, simp flip: replicate_add, simp_all add: numeral_eq_Suc)
  then show ?thesis
    by (simp add: with_nonce_def overwrite_def bench_buffer_def bench_first_def bench_tail_def bytes_be32_def r)
qed

lemma bench_words:
  "words_be bench_first = [0x479C0000, 0, 0, 0, 0, 0, 0, 0, 0, 0, 0, 0, 0, 0, 0, 0]"
  "words_be bench_tail = [0, 0, 0, 0, 0, 0, 0, 0, 0, 0, 0, 0, 0x60014AF, 0x80, 0, 0x7B8]"
  by code_simp+

lemma bench_target: "zero_bits_36 (take COMMIT_LENGTH (with_nonce 0 0x60014AF bench_buffer))"
proof -
  let ?b = "with_nonce 0 0x60014AF bench_buffer"
  have p: "length ?b = 256" "drop 247 ?b = sha_padding 247"
    using with_nonce_padded(1) [OF bench_buffer_padded] by (simp_all add: padded_commit_def geometry)
  then have "take 247 ?b @ sha_padding (length (take 247 ?b)) = ?b"
    using append_take_drop_id [of 247 ?b] by simp
  then have "sha_state (take 247 ?b) = sha_absorb sha_init ?b" by (simp add: sha_state_def)
  moreover have "length bench_first = 64" "length bench_tail = 64"
    by (simp_all add: bench_first_def bench_tail_def)
  ultimately show ?thesis
    unfolding zero_bits_36_def sha1_def geometry bench_nonce
    by (simp add: sha_absorb_append sha_absorb_block bench_words words_zero_block
        sha_init_def compress_bench_1 compress_bench_2 compress_bench_3 compress_bench_4 digest_bytes_def bytes_be32_def)
qed

definition bench_sample_env :: cuda_env where
  "bench_sample_env = sample_env\<lparr>stop_flag := (\<lambda>_. False)\<rparr>"

lemma bench_env_ok: "bench_env sha1 (\<lambda>_. bench_sample_env)"
  using sample_ok by (simp add: bench_env_def bench_sample_env_def cuda_ok_def)

lemma bench_found:
  "\<exists>st' g. force_hash bench_sample_env 1 sample_state \<lparr>msg = bench_buffer, found = 0\<rparr> =
     Some (st', \<lparr>msg = with_nonce 0 g bench_buffer, found = 1\<rparr>)"
proof -
  have "0x60014AF = nonce 0x14AF 6" by (simp add: nonce_def)
  then have "0x60014AF \<in> launch_nonces" by (force simp: launch_nonces_def)
  then show ?thesis
    using force_hash_search [of bench_sample_env "\<lparr>msg = bench_buffer, found = 0\<rparr>" 0 1 sample_state]
      sample_ok bench_buffer_padded bench_target by (auto simp: bench_sample_env_def cuda_ok_def)
qed

theorem benchmark_passes_witness:
  "\<exists>st' buf' sum_ms'. bench_loop sha1 (\<lambda>_. bench_sample_env) 1 default_difficulty (\<lambda>_. 3) 1 40007 sample_state bench_message 0 =
     Some (Inr (st', buf', sum_ms')) \<and> zero_bits_36 (take COMMIT_LENGTH buf')"
proof -
  have d: "length default_difficulty = 40" "take 7 default_difficulty = replicate 7 48" "48 < default_difficulty ! 7"
    by code_simp+
  have "bench_loop sha1 (\<lambda>_. bench_sample_env) 1 default_difficulty (\<lambda>_. 3) 1 40007 sample_state bench_message 0 \<noteq> None"
    using bench_found by (auto simp: bench_iteration_def Let_def bench_buffer_eq [simplified])
  then obtain r where
    "bench_loop sha1 (\<lambda>_. bench_sample_env) 1 default_difficulty (\<lambda>_. 3) 1 40007 sample_state bench_message 0 = Some r"
    by blast
  with benchmark_passes [OF bench_env_ok bench_message_padded d(1) _ d(2,3) this] show ?thesis by auto
qed

end
