(* ===== verification/Naive.thy ===== *)
theory Naive
  imports Cuda_Hasher
begin

text \<open>
  \<open>level1/src/naive.c\<close>: the difficulty mask and the search of one worker thread.  OpenSSL's \<open>SHA1_Transform\<close> is the
  argument \<open>transform\<close>, the context after \<open>SHA1_Update\<close> is \<open>msg_ctx\<close>, and \<open>stop k\<close> is the value of
  \<open>worker_stop\<close> that the test of the loop reads after \<open>k\<close> iterations.  How the threads hand over the solution is
  not modelled: the main thread waits on a mutex it does not own, and a worker may unlock one it does not own,
  which POSIX leaves undefined.
\<close>

section \<open>The worker\<close>

text \<open>A shift of a 32-bit number by a negative count or by 32 and more is undefined.\<close>

definition init_hash :: "byte \<Rightarrow> u32 option" where
  "init_hash digits =
     (let count = 32 - int (unat digits) * 4
      in if count < 0 \<or> 32 \<le> count then None else Some (push_bit (nat count) 0xFFFFFFFF))"

definition MODIFIER :: nat where "MODIFIER = BLOCK_LENGTH - PADDING_LENGTH - 4"

definition set_modifier :: "u32 \<Rightarrow> byte list \<Rightarrow> byte list" where
  "set_modifier v block = overwrite MODIFIER (bytes_le32 v) block"

definition get_modifier :: "byte list \<Rightarrow> u32" where
  "get_modifier block = le32 (drop MODIFIER block)"

text \<open>The loop: \<open>None\<close> when the fuel is spent, \<open>Some None\<close> when it was stopped.\<close>

fun worker_loop ::
  "(hash_digest \<Rightarrow> byte list \<Rightarrow> hash_digest) \<Rightarrow> hash_digest \<Rightarrow> u32 \<Rightarrow> (nat \<Rightarrow> bool) \<Rightarrow> nat \<Rightarrow> nat \<Rightarrow> byte list \<Rightarrow> byte list option option" where
  "worker_loop transform msg_ctx msk stop 0 k block = None"
| "worker_loop transform msg_ctx msk stop (Suc fuel) k block =
     (if stop k then Some None
      else let block = set_modifier (get_modifier block + 1) block;
               tmp_ctx = transform msg_ctx block
           in if h0 tmp_ctx AND msk = 0 then Some (Some block)
              else worker_loop transform msg_ctx msk stop fuel (k + 1) block)"

definition force_worker ::
  "(hash_digest \<Rightarrow> byte list \<Rightarrow> hash_digest) \<Rightarrow> hash_digest \<Rightarrow> u32 \<Rightarrow> (nat \<Rightarrow> bool) \<Rightarrow> nat \<Rightarrow> nat \<Rightarrow> byte list \<Rightarrow> byte list option option" where
  "force_worker transform msg_ctx msk stop fuel thread_id solution =
     worker_loop transform msg_ctx msk stop fuel 0
       ((take BLOCK_LENGTH solution)[BLOCK_LENGTH - PADDING_LENGTH - 5 := of_nat thread_id])"

section \<open>The search of a worker\<close>

text \<open>The block with a thread number and a modifier.\<close>

definition candidate :: "byte list \<Rightarrow> nat \<Rightarrow> u32 \<Rightarrow> byte list" where
  "candidate buf thread_id v = set_modifier v ((drop 192 buf)[50 := of_nat thread_id])"

lemma modifier_simps:
  assumes "length block = 64"
  shows "length (set_modifier v block) = 64" "set_modifier w (set_modifier v block) = set_modifier w block"
    "get_modifier (set_modifier v block) = v"
proof -
  show "length (set_modifier v block) = 64" "set_modifier w (set_modifier v block) = set_modifier w block"
    using assms by (simp_all add: set_modifier_def MODIFIER_def geometry overwrite_def)
  have "drop 51 (set_modifier v block) = bytes_le32 v @ drop 55 block"
    using assms by (simp add: set_modifier_def MODIFIER_def geometry overwrite_def)
  then have "get_modifier (set_modifier v block) = le32 (bytes_le32 v)"
    by (simp add: get_modifier_def MODIFIER_def geometry le32_def bytes_le32_def)
  then show "get_modifier (set_modifier v block) = v" by simp
qed

lemma worker_loop_sound:
  assumes "worker_loop transform msg_ctx msk stop fuel k block = Some (Some b)" "length block = 64"
  shows "\<exists>v. b = set_modifier v block \<and> h0 (transform msg_ctx b) AND msk = 0"
  using assms
proof (induction fuel arbitrary: k block)
  case (Suc fuel)
  let ?b = "set_modifier (get_modifier block + 1) block"
  show ?case
  proof (cases "h0 (transform msg_ctx ?b) AND msk = 0")
    case True
    then show ?thesis using Suc.prems(1) by (auto simp: Let_def split: if_splits)
  next
    case False
    then have "worker_loop transform msg_ctx msk stop fuel (k + 1) ?b = Some (Some b)"
      using Suc.prems(1) by (auto simp: Let_def split: if_splits)
    from Suc.IH [OF this] show ?thesis using Suc.prems(2) by (simp add: modifier_simps)
  qed
qed simp

lemma worker_loop_finds:
  assumes "i < fuel" "\<forall>j. \<not> stop j" "length block = 64"
    and "h0 (transform msg_ctx (set_modifier (get_modifier block + 1 + of_nat i) block)) AND msk = 0"
  shows "\<exists>b. worker_loop transform msg_ctx msk stop fuel k block = Some (Some b)"
  using assms
proof (induction fuel arbitrary: i k block)
  case (Suc fuel)
  let ?b = "set_modifier (get_modifier block + 1) block"
  show ?case
  proof (cases "h0 (transform msg_ctx ?b) AND msk = 0")
    case True
    then show ?thesis using Suc.prems(2) by simp
  next
    case False
    then obtain j where i: "i = Suc j" using Suc.prems(4) by (cases i) simp_all
    have "\<exists>b. worker_loop transform msg_ctx msk stop fuel (k + 1) ?b = Some (Some b)"
      by (rule Suc.IH [of j]) (use Suc.prems i in \<open>simp_all add: modifier_simps add_ac\<close>)
    then show ?thesis using False spec [OF Suc.prems(2), of k] by (simp add: Let_def)
  qed
qed simp

lemma mask_digits:
  assumes "init_hash digits = Some msk" "x AND msk = 0"
  shows "drop_bit (32 - 4 * unat digits) x = 0"
proof -
  define n where "n = 32 - 4 * unat digits"
  have range: "0 < unat digits" "unat digits \<le> 8" and eq: "msk = push_bit (nat (32 - int (unat digits) * 4)) 0xFFFFFFFF"
    using assms(1) unfolding init_hash_def Let_def by (auto simp only: split: if_splits)
  have "nat (32 - int (unat digits) * 4) = n" using range unfolding n_def by linarith
  then have msk: "msk = push_bit n 0xFFFFFFFF" using eq by (simp only:)
  have "(0xFFFFFFFF :: u32) = - 1" by simp
  then have ones: "bit (0xFFFFFFFF :: u32) i" if "i < 32" for i
    using that by (simp only: bit_minus_1_iff possible_bit_word) simp
  have "\<not> bit x i" if "n \<le> i" "i < 32" for i
    using arg_cong [OF assms(2), of "\<lambda>w. bit w i"] that ones [of "i - n"] by (simp add: msk bit_simps)
  then have "\<not> bit x (n + i)" for i
    using bit_imp_le_length [of x "n + i"] by (cases "n + i < 32") auto
  then show ?thesis unfolding n_def [symmetric] by (intro bit_word_eqI) (simp add: bit_drop_bit_eq)
qed

lemma be32_sha1: "be32 (sha1 m) = h0 (sha_state m)"
proof -
  have "be32 (sha1 m) = be32 (bytes_be32 (h0 (sha_state m)))"
    by (simp add: sha1_def digest_bytes_def be32_def bytes_be32_def)
  then show ?thesis by simp
qed


lemma candidate_padded:
  assumes "padded_commit buf"
  shows "padded_commit (take 192 buf @ candidate buf thread_id v)" "length (candidate buf thread_id v) = 64"
  using assms
  by (simp_all add: padded_commit_def candidate_def set_modifier_def MODIFIER_def geometry overwrite_def drop_append sha_padding_247)

lemma candidate_digest:
  assumes "sha1_stream midst" "sha1_block transform" "padded_commit buf"
  shows "h0 (transform (midst (take 192 buf)) (candidate buf thread_id v)) =
    be32 (sha1 (take COMMIT_LENGTH (take 192 buf @ candidate buf thread_id v)))"
proof -
  let ?b = "take 192 buf @ candidate buf thread_id v"
  note pad = candidate_padded [OF assms(3), of thread_id v]
  have len: "length buf = 256" "length ?b = 256" using assms(3) pad by (simp_all add: padded_commit_def geometry)
  have split: "?b = take COMMIT_LENGTH ?b @ sha_padding (length (take COMMIT_LENGTH ?b))"
  proof -
    have "length (take COMMIT_LENGTH ?b) = COMMIT_LENGTH" using len(2) by (simp only: length_take geometry)
    moreover have "drop COMMIT_LENGTH ?b = sha_padding COMMIT_LENGTH" using pad(1) by (simp only: padded_commit_def)
    ultimately show ?thesis using append_take_drop_id [of COMMIT_LENGTH ?b] by (simp only:)
  qed
  have "length (take 192 buf) mod 64 = 0" using len(1) by simp
  from sha1_stream.finish_from_midstate [OF assms(1) this pad(2) split]
  show ?thesis using sha1_block.block_compress [OF assms(2) pad(2)] by (simp add: be32_sha1)
qed

text \<open>
  (C12) The search of a CPU worker is sound and complete.  For a padded commit and a difficulty for which the shift
  is defined, every block that \<open>force_worker\<close> hands over makes a padded commit whose SHA-1 digest starts with that
  many zero digits, and differs only in the byte of the thread and the four bytes of the modifier.  If
  some modifier gives such a digest and the worker is not stopped, it finds one within \<open>2 ^ 32\<close> iterations.
\<close>

theorem force_worker_correct:
  assumes "sha1_stream midst" "sha1_block transform" "padded_commit buf" "init_hash digits = Some msk"
  shows "(\<forall>b. force_worker transform (midst (take 192 buf)) msk stop fuel thread_id (drop 192 buf) = Some (Some b) \<longrightarrow>
      padded_commit (take 192 buf @ b) \<and> take 50 b = take 50 (drop 192 buf) \<and>
      drop_bit (32 - 4 * unat digits) (be32 (sha1 (take COMMIT_LENGTH (take 192 buf @ b)))) = 0) \<and>
    ((\<exists>v. be32 (sha1 (take COMMIT_LENGTH (take 192 buf @ candidate buf thread_id v))) AND msk = 0) \<and>
      (\<forall>j. \<not> stop j) \<and> 2 ^ 32 \<le> fuel \<longrightarrow>
      (\<exists>b. force_worker transform (midst (take 192 buf)) msk stop fuel thread_id (drop 192 buf) = Some (Some b)))"
proof -
  define block where "block = (drop 192 buf)[50 := of_nat thread_id :: byte]"
  have len: "length block = 64" using assms(3) by (simp add: block_def padded_commit_def geometry)
  have run: "force_worker transform ctx msk stop fuel thread_id (drop 192 buf) = worker_loop transform ctx msk stop fuel 0 block" for ctx
    using assms(3) by (simp add: force_worker_def block_def padded_commit_def geometry)
  have cand: "set_modifier v block = candidate buf thread_id v" for v by (simp add: candidate_def block_def)
  note digest = candidate_digest [OF assms(1-3), of thread_id]
  have same: "take 50 (candidate buf thread_id v) = take 50 (drop 192 buf)" for v
    using assms(3) by (simp add: candidate_def set_modifier_def MODIFIER_def overwrite_def padded_commit_def geometry)
  have sound: "padded_commit (take 192 buf @ b) \<and> take 50 b = take 50 (drop 192 buf) \<and>
      drop_bit (32 - 4 * unat digits) (be32 (sha1 (take COMMIT_LENGTH (take 192 buf @ b)))) = 0"
    if r: "worker_loop transform (midst (take 192 buf)) msk stop fuel 0 block = Some (Some b)" for b
    using worker_loop_sound [OF r len] candidate_padded(1) [OF assms(3)] mask_digits [OF assms(4)]
    by (auto simp: cand digest same)
  have finds: "\<exists>b. worker_loop transform (midst (take 192 buf)) msk stop fuel 0 block = Some (Some b)"
    if v: "be32 (sha1 (take COMMIT_LENGTH (take 192 buf @ candidate buf thread_id v))) AND msk = 0"
      and go: "\<forall>j. \<not> stop j" and enough: "2 ^ 32 \<le> fuel" for v
  proof (rule worker_loop_finds [OF _ go len])
    show "unat (v - get_modifier block - 1) < fuel"
      using unsigned_less [where 'a = nat, of "v - get_modifier block - 1"] enough by simp
    show "h0 (transform (midst (take 192 buf)) (set_modifier (get_modifier block + 1 + of_nat (unat (v - get_modifier block - 1))) block)) AND msk = 0"
      using v by (simp add: cand digest)
  qed
  show ?thesis unfolding run using sound finds by blast
qed


lemma compress_worker:
  "sha_compress \<lparr>h0 = 0x7E7135C2, h1 = 0x7644D299, h2 = 0xF11833F9, h3 = 0x3F968B70, h4 = 0x77504B79\<rparr>
     [0, 0, 0, 0, 0, 0, 0, 0, 0, 0, 0xa900e, 0, 0x32c, 0xcb030080, 0, 0x7b8] =
   \<lparr>h0 = 0xF67A, h1 = 0xB8CBA2BF, h2 = 0x3766A20A, h3 = 0x481FBEA3, h4 = 0xDE148D17\<rparr>"
  by (subst sha_compress_eval, simp, simp, simp add: eval_schedule del: extend_words.simps(2) run_rounds.simps cong: extend_cong)
    (simp add: eval_rounds del: run_rounds.simps(2) cong: run_rounds_cong)

lemma sample_candidate: "be32 (sha1 (take COMMIT_LENGTH (take 192 sample_msg @ candidate sample_msg 3 0x3CB2C))) = 0xF67A"
proof -
  have block: "drop 192 sample_msg = replicate 40 0 @ [0, 0x0A, 0x90, 0x0E] @ replicate 11 0 @ [0x80, 0, 0, 0, 0, 0, 0, 7, 0xB8]"
    "take 192 sample_msg = replicate 192 0"
    by (simp_all add: sample_msg_def)
  have words: "words_be (candidate sample_msg 3 0x3CB2C) = [0, 0, 0, 0, 0, 0, 0, 0, 0, 0, 0xa900e, 0, 0x32c, 0xcb030080, 0, 0x7b8]"
    unfolding candidate_def block by code_simp
  have "length (candidate sample_msg 3 0x3CB2C) = 64" by (rule candidate_padded(2) [OF sample_padded])
  from git_block.block_compress [OF this]
  have "h0 (hash__block (git_midstate (take 192 sample_msg)) (candidate sample_msg 3 0x3CB2C)) = 0xF67A"
    by (simp add: words block(2) sample_midstate compress_worker)
  then show ?thesis
    using candidate_digest [OF git_stream.sha1_stream_axioms git_block.sha1_block_axioms sample_padded, of 3 "0x3CB2C"] by simp
qed

theorem force_worker_correct_witness:
  "\<exists>b. force_worker hash__block (git_midstate (take 192 sample_msg)) 0xFFFF0000 (\<lambda>_. False) (2 ^ 32) 3 (drop 192 sample_msg) =
       Some (Some b) \<and> padded_commit (take 192 sample_msg @ b) \<and>
     drop_bit 16 (be32 (sha1 (take COMMIT_LENGTH (take 192 sample_msg @ b)))) = 0"
proof -
  have init: "init_hash 4 = Some 0xFFFF0000" by (simp add: init_hash_def push_bit_eq_mult)
  note * = force_worker_correct [OF git_stream.sha1_stream_axioms git_block.sha1_block_axioms sample_padded init,
      of "\<lambda>_. False" "2 ^ 32" 3]
  have "be32 (sha1 (take COMMIT_LENGTH (take 192 sample_msg @ candidate sample_msg 3 0x3CB2C))) AND 0xFFFF0000 = 0"
    unfolding sample_candidate by simp
  then obtain b where "force_worker hash__block (git_midstate (take 192 sample_msg)) 0xFFFF0000 (\<lambda>_. False) (2 ^ 32) 3
      (drop 192 sample_msg) = Some (Some b)"
    using * by blast
  moreover from this have "padded_commit (take 192 sample_msg @ b) \<and>
      drop_bit (32 - 4 * unat (4 :: byte)) (be32 (sha1 (take COMMIT_LENGTH (take 192 sample_msg @ b)))) = 0"
    using * by blast
  ultimately show ?thesis by auto
qed

end
