(* ===== verification/Bloom.thy ===== *)
theory Bloom
  imports C_Strings
begin

text \<open>
  The spelling checker of \<open>level0\<close>: the hash of \<open>hash.c\<close>, the filter builder \<open>bloom.c\<close> and
  the checker \<open>level0.c\<close>.  The filter the build embeds into the checker is an argument of the
  checker's definitions; the properties that span both programs instantiate it with the file the
  builder writes.  Arrays are lists, and an access outside an array is an error value: \<open>None\<close> in the
  builder, a \<open>level0_error\<close> in the checker.  The buffers \<open>word\<close> and \<open>output\<close> are the lists of the
  bytes in use, \<open>word_pos\<close> and \<open>out_pos\<close> their lengths.
\<close>

section \<open>The hash functions\<close>

definition FNS :: nat where "FNS = 11"

definition hash_step :: "u64 \<Rightarrow> u64 list \<Rightarrow> u64 list" where
  "hash_step c state =
     [(push_bit 5 (state ! 0) + state ! 0) XOR c,
      (push_bit 5 (state ! 1) + state ! 1) XOR c,
      c + push_bit 6 (state ! 2) + push_bit 16 (state ! 2) - state ! 2,
      c + push_bit 6 (state ! 3) + push_bit 16 (state ! 3) - state ! 3]"

fun hash_loop :: "byte list \<Rightarrow> u64 list \<Rightarrow> u64 list" where
  "hash_loop [] state = state"
| "hash_loop (b # string) state =
     (let c = scast (tolower b) :: u64
      in if c = 0 then state else hash_loop string (hash_step c state))"

definition hash_output :: "u64 list \<Rightarrow> u32 list" where
  "hash_output state =
     (let out = map (\<lambda>i. ucast (0x3FFFFF AND drop_bit (i mod 3 * 22) (state ! (i * 22 div 64)))) [0..<FNS];
          out = out[2 := out ! 2 OR ucast (0x03 AND push_bit 44 (state ! 3))];
          out = out[5 := out ! 5 OR ucast (0x03 AND push_bit 46 (state ! 3))];
          out = out[8 := out ! 8 OR ucast (0x03 AND push_bit 48 (state ! 3))]
      in out)"

definition hash :: "byte list \<Rightarrow> u32 list" where
  "hash string = hash_output (hash_loop string [5381, 261, 0, 5381])"

section \<open>Building the filter\<close>

definition SLOTS :: nat where "SLOTS = 524288"

fun set_bits :: "u32 list \<Rightarrow> byte list \<Rightarrow> byte list option" where
  "set_bits [] data = Some data"
| "set_bits (x # output) data =
     (let i = unat x div 8
      in if i < length data then set_bits output (data[i := data ! i OR push_bit (unat x mod 8) 1])
         else None)"

definition chop_line :: "byte list \<Rightarrow> byte list option" where
  "chop_line line = (if strlen line = 0 then None else Some (take (strlen line - 1) line))"

function build_loop :: "byte list \<Rightarrow> byte list \<Rightarrow> byte list option" where
  "build_loop fp data =
     (case fgets 64 fp of
        None \<Rightarrow> Some data
      | Some (line, fp') \<Rightarrow>
          (case chop_line line of
             None \<Rightarrow> None
           | Some line \<Rightarrow>
               if isupper (str_head line) then build_loop fp' data
               else case set_bits (hash line) data of
                      None \<Rightarrow> None
                    | Some data \<Rightarrow> build_loop fp' data))"
  by pat_completeness auto
termination
  by (relation "measure (\<lambda>(fp, data). length fp)") (use fgets_shrinks [of 64] in auto)

declare build_loop.simps [simp del]

definition bloom_main :: "byte list option \<Rightarrow> bool \<Rightarrow> (int \<times> byte list option) option" where
  "bloom_main infile out_opens =
     (case infile of
        None \<Rightarrow> Some (1, None)
      | Some fp \<Rightarrow>
          (case build_loop fp (replicate SLOTS 0) of
             None \<Rightarrow> None
           | Some data \<Rightarrow> if out_opens then Some (0, Some data) else Some (1, None)))"

section \<open>Checking words\<close>

definition MAX_LENGTH :: nat where "MAX_LENGTH = 64"
definition READ_BUFFER :: nat where "READ_BUFFER = 2048"
definition OUT_BUFFER :: nat where "OUT_BUFFER = 3078"

datatype level0_error = WordOverflow | OutOverflow | FilterOverflow

fun probe :: "byte list \<Rightarrow> u32 list \<Rightarrow> level0_error + bool" where
  "probe bloom_data [] = Inr True"
| "probe bloom_data (offset # hashOut) =
     (let i = unat offset div 8
      in if \<not> i < length bloom_data then Inl FilterOverflow
         else if bloom_data ! i AND push_bit (unat offset mod 8) 1 = 0 then Inr False
         else probe bloom_data hashOut)"

definition emit :: "byte list \<Rightarrow> byte list \<Rightarrow> level0_error + byte list" where
  "emit bs output =
     (if length output + length bs \<le> OUT_BUFFER then Inr (output @ bs) else Inl OutOverflow)"

definition write_word ::
  "byte list \<Rightarrow> byte list \<Rightarrow> bool \<Rightarrow> byte list \<Rightarrow> level0_error + byte list" where
  "write_word bloom_data word all_alpha output =
     (if word = [] then Inr output
      else if \<not> length word < MAX_LENGTH then Inl WordOverflow
      else case (if all_alpha then probe bloom_data (hash word) else Inr False) of
             Inl e \<Rightarrow> Inl e
           | Inr True \<Rightarrow> emit word output
           | Inr False \<Rightarrow> emit (60 # word @ [62]) output)"

record level0_state =
  word :: "byte list"
  out_buf :: "byte list"
  all_alpha :: bool

text \<open>
  The test \<open>if(!isalpha)\<close> of the source negates the address of the library function, which is
  never null.
\<close>

definition not_isalpha :: bool where "not_isalpha = False"

definition level0_step :: "byte list \<Rightarrow> byte \<Rightarrow> level0_state \<Rightarrow> level0_error + level0_state" where
  "level0_step bloom_data ch st =
     (if ch = 10 \<or> ch = 32 then
        case write_word bloom_data (word st) (all_alpha st) (out_buf st) of
          Inl e \<Rightarrow> Inl e
        | Inr out \<Rightarrow>
            (case emit [ch] out of
               Inl e \<Rightarrow> Inl e
             | Inr out \<Rightarrow> Inr (st\<lparr>out_buf := out, word := [], all_alpha := True\<rparr>))
      else let st = (if not_isalpha then st\<lparr>all_alpha := False\<rparr> else st)
           in if length (word st) < MAX_LENGTH then Inr (st\<lparr>word := word st @ [ch]\<rparr>)
              else Inl WordOverflow)"

fun level0_chunk :: "byte list \<Rightarrow> byte list \<Rightarrow> level0_state \<Rightarrow> level0_error + level0_state" where
  "level0_chunk bloom_data [] st = Inr st"
| "level0_chunk bloom_data (ch # buffer) st =
     (case level0_step bloom_data ch st of
        Inl e \<Rightarrow> Inl e
      | Inr st \<Rightarrow> level0_chunk bloom_data buffer st)"

text \<open>The chunks are what the calls of \<open>read\<close> return until the first that returns nothing.\<close>

fun level0_main :: "byte list \<Rightarrow> byte list list \<Rightarrow> level0_state \<Rightarrow> level0_error + byte list list" where
  "level0_main bloom_data [] st = Inr []"
| "level0_main bloom_data (buffer # buffers) st =
     (case level0_chunk bloom_data buffer st of
        Inl e \<Rightarrow> Inl e
      | Inr st \<Rightarrow>
          (case level0_main bloom_data buffers (st\<lparr>out_buf := []\<rparr>) of
             Inl e \<Rightarrow> Inl e
           | Inr writes \<Rightarrow> Inr (out_buf st # writes)))"

definition level0_init :: level0_state where
  "level0_init = \<lparr>word = [], out_buf = [], all_alpha = True\<rparr>"

section \<open>The hash stays inside the filter\<close>

lemma length_hash [simp]: "length (hash s) = FNS"
  by (simp add: hash_def hash_output_def Let_def)

lemma and_mask22: "(0x3FFFFF :: u64) AND x = take_bit 22 x"
proof -
  have "(0x3FFFFF :: u64) = mask 22" by (simp add: mask_eq_exp_minus_1)
  then show ?thesis by (simp only: take_bit_eq_mask and.commute)
qed

lemma and_3_high:
  assumes "2 \<le> n"
  shows "(0x03 :: u64) AND push_bit n x = 0"
proof -
  have "(0x03 :: u64) = mask 2" by (simp add: mask_eq_exp_minus_1)
  then have "(0x03 :: u64) AND push_bit n x = take_bit 2 (push_bit n x)"
    by (simp only: take_bit_eq_mask and.commute)
  also have "\<dots> = 0" using assms by (intro bit_word_eqI) (auto simp: bit_simps)
  finally show ?thesis .
qed

text \<open>The three corrections of \<open>output[2]\<close>, \<open>output[5]\<close> and \<open>output[8]\<close> add nothing.\<close>

lemma hash_output_plain:
  "hash_output state =
     map (\<lambda>i. ucast (0x3FFFFF AND drop_bit (i mod 3 * 22) (state ! (i * 22 div 64)))) [0..<FNS]"
  unfolding hash_output_def Let_def by (simp add: and_3_high)

lemma hash_bound:
  assumes "x \<in> set (hash s)"
  shows "unat x div 8 < SLOTS"
proof -
  obtain y :: u64 where x: "x = ucast (take_bit 22 y)"
    using assms by (auto simp: hash_def hash_output_plain and_mask22)
  have "unat x = take_bit 22 (unat y)"
    unfolding x by (simp add: unsigned_ucast_eq unsigned_take_bit_eq)
  then have "unat x < 2 ^ 22" using take_bit_nat_less_exp [of 22 "unat y"] by simp
  then show ?thesis by (simp add: SLOTS_def)
qed

section \<open>The filter as a set of bit positions\<close>

definition member :: "byte list \<Rightarrow> u32 \<Rightarrow> bool" where
  "member data x \<longleftrightarrow> data ! (unat x div 8) AND push_bit (unat x mod 8) 1 \<noteq> 0"

lemma member_bit: "member data x \<longleftrightarrow> bit (data ! (unat x div 8)) (unat x mod 8)"
  by (simp only: member_def bit_iff_and_push_bit_not_eq_0)

lemma set_bits_sets:
  assumes "\<forall>x \<in> set xs. unat x div 8 < length data"
  shows "\<exists>data'. set_bits xs data = Some data' \<and> length data' = length data \<and>
    (\<forall>x \<in> set xs. member data' x) \<and> (\<forall>x. unat x div 8 < length data \<longrightarrow> member data x \<longrightarrow> member data' x)"
  using assms
proof (induction xs arbitrary: data)
  case Nil
  then show ?case by simp
next
  case (Cons y xs)
  let ?i = "unat y div 8"
  let ?d = "data[?i := data ! ?i OR push_bit (unat y mod 8) 1]"
  have keep: "member ?d x" if "unat x div 8 < length data" "member data x" for x
    using that Cons.prems by (auto simp: member_bit nth_list_update bit_simps)
  have new: "member ?d y" using Cons.prems by (simp add: member_bit bit_simps)
  from Cons.IH [of ?d] Cons.prems obtain data' where
    "set_bits xs ?d = Some data'" "length data' = length data" "\<forall>x \<in> set xs. member data' x"
    "\<forall>x. unat x div 8 < length data \<longrightarrow> member ?d x \<longrightarrow> member data' x" by auto
  with keep new Cons.prems show ?case by (intro exI [of _ data']) auto
qed

definition in_filter :: "byte list \<Rightarrow> byte list \<Rightarrow> bool" where
  "in_filter data w \<longleftrightarrow> (\<forall>x \<in> set (hash w). member data x)"

lemma insert_word:
  assumes "length data = SLOTS"
  shows "\<exists>data'. set_bits (hash w) data = Some data' \<and> length data' = SLOTS \<and> in_filter data' w \<and>
    (\<forall>v. in_filter data v \<longrightarrow> in_filter data' v)"
  using set_bits_sets [of "hash w" data] hash_bound assms by (fastforce simp: in_filter_def)

lemma probe_in_filter:
  assumes "\<forall>x \<in> set xs. unat x div 8 < length data"
  shows "probe data xs = Inr (\<forall>x \<in> set xs. member data x)"
  using assms by (induction xs) (auto simp: member_def Let_def)

lemma probe_hash: "length data = SLOTS \<Longrightarrow> probe data (hash w) = Inr (in_filter data w)"
  by (simp add: probe_in_filter hash_bound in_filter_def)

section \<open>The interface of an approximate set\<close>

text \<open>
  What the builder promises the checker: inserting a word succeeds, the word tests positive
  afterwards and no word that tested positive is lost.  Nothing is promised about words that were
  not inserted.
\<close>

fun insert_words :: "('w \<Rightarrow> 'f \<Rightarrow> 'f option) \<Rightarrow> 'w list \<Rightarrow> 'f \<Rightarrow> 'f option" where
  "insert_words ins [] f = Some f"
| "insert_words ins (w # ws) f = (case ins w f of None \<Rightarrow> None | Some f' \<Rightarrow> insert_words ins ws f')"

locale approximate_set =
  fixes valid :: "'f \<Rightarrow> bool"
    and ins :: "'w \<Rightarrow> 'f \<Rightarrow> 'f option"
    and test :: "'f \<Rightarrow> 'w \<Rightarrow> bool"
  assumes ins_ok: "valid f \<Longrightarrow> \<exists>f'. ins w f = Some f' \<and> valid f' \<and> test f' w \<and> (\<forall>v. test f v \<longrightarrow> test f' v)"
begin

lemma insert_words_ok:
  "valid f \<Longrightarrow> \<exists>f'. insert_words ins ws f = Some f' \<and> valid f' \<and> (\<forall>w \<in> set ws. test f' w) \<and>
     (\<forall>v. test f v \<longrightarrow> test f' v)"
proof (induction ws arbitrary: f)
  case (Cons w ws)
  then obtain f1 where f1: "ins w f = Some f1" "valid f1" "test f1 w" "\<forall>v. test f v \<longrightarrow> test f1 v"
    using ins_ok by blast
  with Cons.IH [OF f1(2)] show ?case by auto
qed simp

end

interpretation bloom: approximate_set "\<lambda>data. length data = SLOTS" "\<lambda>w. set_bits (hash w)" in_filter
  by unfold_locales (rule insert_word)

section \<open>The builder\<close>

definition grows :: "byte list \<Rightarrow> byte list \<Rightarrow> bool" where
  "grows data data' \<longleftrightarrow> length data' = SLOTS \<and> (\<forall>v. in_filter data v \<longrightarrow> in_filter data' v)"

lemma grows_trans: "grows a b \<Longrightarrow> grows b c \<Longrightarrow> grows a c"
  by (simp add: grows_def)

lemma chop_no_nul:
  assumes "line \<noteq> []" "0 \<notin> set line"
  shows "chop_line line = Some (butlast line)"
  using assms by (simp add: chop_line_def butlast_conv_take)

lemma fgets_nonempty: "fgets 64 fp = Some (line, rest) \<Longrightarrow> line \<noteq> [] \<and> fp = line @ rest"
  using fgets_shrinks [of 64 fp line rest] fgets_take_append [of 63 fp line rest]
  by (auto simp: fgets_def split: if_splits)

lemma build_total:
  assumes "0 \<notin> set fp" "length data = SLOTS"
  shows "\<exists>data'. build_loop fp data = Some data' \<and> grows data data'"
  using assms
proof (induction fp data rule: build_loop.induct)
  case (1 fp data)
  show ?case
  proof (cases "fgets 64 fp")
    case None
    with 1 show ?thesis by (simp add: build_loop.simps [of fp] grows_def)
  next
    case (Some p)
    then obtain line rest where p: "fgets 64 fp = Some (line, rest)" by (cases p) auto
    then have fp: "line \<noteq> []" "fp = line @ rest" using fgets_nonempty by auto
    with 1 have nul: "0 \<notin> set line" "0 \<notin> set rest" by auto
    note chop = chop_no_nul [OF fp(1) nul(1)]
    obtain d where d: "set_bits (hash (butlast line)) data = Some d" "grows data d" "length d = SLOTS"
      using insert_word [OF 1(4)] by (auto simp: grows_def)
    show ?thesis
      using 1(1,2) [OF p refl chop] d nul(2) 1(4) grows_trans [OF d(2)]
      by (auto simp: build_loop.simps [of fp data] p chop)
  qed
qed

definition dictionary_word :: "byte list \<Rightarrow> bool" where
  "dictionary_word w \<longleftrightarrow> length w < 63 \<and> 0 \<notin> set w \<and> 10 \<notin> set w"

definition dictionary_file :: "byte list list \<Rightarrow> byte list" where
  "dictionary_file ws = concat (map (\<lambda>w. w @ [10]) ws)"

lemma build_inserts:
  assumes "\<forall>w \<in> set ws. dictionary_word w"
  shows "build_loop (dictionary_file ws) data =
    insert_words (\<lambda>w. set_bits (hash w)) (filter (\<lambda>w. \<not> isupper (str_head w)) ws) data"
  using assms
proof (induction ws arbitrary: data)
  case Nil
  then show ?case by (simp add: build_loop.simps dictionary_file_def fgets_def)
next
  case (Cons w ws)
  have w: "length w < 63" "0 \<notin> set w" "10 \<notin> set w"
    using Cons.prems by (simp_all add: dictionary_word_def)
  have "dictionary_file (w # ws) = w @ 10 # dictionary_file ws" by (simp add: dictionary_file_def)
  then have "fgets 64 (dictionary_file (w # ws)) = Some (w @ [10], dictionary_file ws)"
    using fgets_line [OF w(1,3)] by (simp add: fgets_def)
  moreover have "chop_line (w @ [10]) = Some w" using w(2) by (simp add: chop_no_nul)
  ultimately show ?case using Cons
    by (auto simp: build_loop.simps [of "dictionary_file (w # ws)"] split: option.splits)
qed

lemma build_words:
  assumes "\<forall>w \<in> set ws. dictionary_word w"
  shows "\<exists>data. bloom_main (Some (dictionary_file ws)) True = Some (0, Some data) \<and> length data = SLOTS \<and>
    (\<forall>w \<in> set ws. \<not> isupper (str_head w) \<longrightarrow> in_filter data w)"
  using bloom.insert_words_ok [of "replicate SLOTS 0" "filter (\<lambda>w. \<not> isupper (str_head w)) ws"]
  by (auto simp: bloom_main_def build_inserts [OF assms])

lemma hash_loop_lower: "map tolower v = map tolower w \<Longrightarrow> hash_loop v state = hash_loop w state"
proof (induction v arbitrary: w state)
  case (Cons b v)
  then show ?case by (cases w) (auto simp: Let_def)
qed simp

lemma in_filter_lower: "map tolower v = map tolower w \<Longrightarrow> in_filter data v \<longleftrightarrow> in_filter data w"
  unfolding in_filter_def hash_def by (subst hash_loop_lower [of v w]) auto

section \<open>The checker\<close>

text \<open>
  What the checker is meant to print: the text with the words that are not in the filter between
  angle brackets.  A text is a list of words, each with the delimiter after it, and an unfinished
  last word.
\<close>

definition mark :: "byte list \<Rightarrow> byte list \<Rightarrow> byte list" where
  "mark data w = (if w = [] then [] else if in_filter data w then w else 60 # w @ [62])"

definition delimiter :: "byte \<Rightarrow> bool" where
  "delimiter c \<longleftrightarrow> c = 10 \<or> c = 32"

fun spell :: "byte list \<Rightarrow> byte list \<Rightarrow> byte list \<Rightarrow> byte list \<times> byte list" where
  "spell data w [] = ([], w)"
| "spell data w (c # cs) =
     (if delimiter c then let (out, rest) = spell data [] cs in (mark data w @ c # out, rest)
      else spell data (w @ [c]) cs)"

fun short_words :: "byte list \<Rightarrow> byte list \<Rightarrow> bool" where
  "short_words w [] = (length w < MAX_LENGTH)"
| "short_words w (c # cs) =
     (length w < MAX_LENGTH \<and> (if delimiter c then short_words [] cs else short_words (w @ [c]) cs))"

lemma length_mark: "length (mark data w) \<le> (if w = [] then 0 else length w + 2)"
  by (simp add: mark_def)

lemma write_word_marks:
  assumes "length data = SLOTS" "length w < MAX_LENGTH" "length out \<le> OUT_BUFFER"
  shows "write_word data w True out = emit (mark data w) out"
  using assms by (auto simp: write_word_def probe_hash mark_def emit_def split: bool.splits)

text \<open>
  The invariant of a chunk: with \<open>n\<close> bytes read and \<open>p\<close> bytes of an unfinished word carried into
  the chunk, the output and the word in progress are bounded by \<open>2 n + p + 1\<close>.
\<close>

lemma level0_chunk_spells:
  assumes "length data = SLOTS" "all_alpha st" "short_words (word st) cs"
    and "length (out_buf st) + (if word st = [] then 0 else length (word st) + 1) \<le> 2 * n + p + 1"
    and "2 * (n + length cs) + p + 1 \<le> OUT_BUFFER"
  shows "level0_chunk data cs st =
    Inr \<lparr>word = snd (spell data (word st) cs), out_buf = out_buf st @ fst (spell data (word st) cs), all_alpha = True\<rparr>"
  using assms(2-5)
proof (induction cs arbitrary: st n)
  case Nil
  then show ?case by (cases st) auto
next
  case (Cons c cs)
  have len: "length (word st) < MAX_LENGTH" using Cons.prems(2) by simp
  show ?case
  proof (cases "delimiter c")
    case True
    let ?m = "mark data (word st)"
    have m: "length ?m \<le> (if word st = [] then 0 else length (word st) + 2)" by (rule length_mark)
    have fit: "length (out_buf st) + length ?m + 1 \<le> 2 * Suc n + p + 1"
      using m Cons.prems(3) by (auto split: if_splits)
    have step: "level0_step data c st = Inr \<lparr>word = [], out_buf = out_buf st @ ?m @ [c], all_alpha = True\<rparr>"
      using True Cons.prems(1,4) fit write_word_marks [OF assms(1) len, of "out_buf st"]
      by (cases st) (auto simp: level0_step_def delimiter_def emit_def)
    with Cons.IH [of "\<lparr>word = [], out_buf = out_buf st @ ?m @ [c], all_alpha = True\<rparr>" "Suc n"]
      Cons.prems(2,4) True fit show ?thesis by (simp add: split: prod.splits)
  next
    case False
    have step: "level0_step data c st = Inr (st\<lparr>word := word st @ [c]\<rparr>)"
      using False len by (simp add: level0_step_def delimiter_def not_isalpha_def)
    have fit: "length (out_buf st) + (length (word st @ [c]) + 1) \<le> 2 * Suc n + p + 1"
      using Cons.prems(3) by (auto split: if_splits)
    with Cons.IH [of "st\<lparr>word := word st @ [c]\<rparr>" "Suc n"] Cons.prems(1,2,4) False step
    show ?thesis by simp
  qed
qed

lemma spell_append:
  "spell data w (xs @ ys) =
     (let (o1, w1) = spell data w xs; (o2, w2) = spell data w1 ys in (o1 @ o2, w2))"
  by (induction data w xs rule: spell.induct) (auto split: prod.splits)

lemma short_words_append:
  "short_words w (xs @ ys) \<Longrightarrow> short_words w xs \<and> short_words (snd (spell data w xs)) ys"
  by (induction data w xs rule: spell.induct) (auto split: prod.splits if_splits elim: short_words.elims)

lemma short_words_length: "short_words w cs \<Longrightarrow> length w < MAX_LENGTH"
  by (cases cs) auto

lemma level0_main_spells:
  assumes "length data = SLOTS" "all_alpha st" "out_buf st = []"
    and "short_words (word st) (concat buffers)" "\<forall>b \<in> set buffers. length b \<le> 1507"
  shows "\<exists>writes. level0_main data buffers st = Inr writes \<and>
    concat writes = fst (spell data (word st) (concat buffers))"
  using assms(2-5)
proof (induction buffers arbitrary: st)
  case Nil
  then show ?case by simp
next
  case (Cons b buffers)
  let ?r = "spell data (word st) b"
  have short: "short_words (word st) b" "short_words (snd ?r) (concat buffers)"
    using Cons.prems(3) short_words_append [of "word st" b "concat buffers" data] by simp_all
  have chunk: "level0_chunk data b st =
      Inr \<lparr>word = snd ?r, out_buf = out_buf st @ fst ?r, all_alpha = True\<rparr>"
    by (rule level0_chunk_spells [where n = 0 and p = "length (word st)"])
      (use assms(1) Cons.prems short short_words_length [OF short(1)] in \<open>auto simp: MAX_LENGTH_def OUT_BUFFER_def\<close>)
  from Cons.IH [of "\<lparr>word = snd ?r, out_buf = [], all_alpha = True\<rparr>"] short Cons.prems(4)
  obtain writes where "level0_main data buffers \<lparr>word = snd ?r, out_buf = [], all_alpha = True\<rparr> = Inr writes"
    "concat writes = fst (spell data (snd ?r) (concat buffers))" by auto
  with chunk Cons.prems(2) show ?case by (simp add: spell_append split: prod.splits)
qed

lemma spell_words:
  assumes "\<forall>(w, d) \<in> set ws. delimiter d \<and> (\<forall>c \<in> set w. \<not> delimiter c)" "\<forall>c \<in> set rest. \<not> delimiter c"
  shows "spell data [] (concat (map (\<lambda>(w, d). w @ [d]) ws) @ rest) =
    (concat (map (\<lambda>(w, d). mark data w @ [d]) ws), rest)"
  using assms(1)
proof (induction ws)
  have word: "spell data v (w @ cs) = spell data (v @ w) cs" if "\<forall>c \<in> set w. \<not> delimiter c" for v w cs
    using that by (induction w arbitrary: v) auto
  {
    case Nil
    then show ?case using word [OF assms(2), of "[]" "[]"] by simp
  next
    case (Cons p ws)
    obtain w d where p: "p = (w, d)" by (cases p)
    with Cons word [of w "[]"] show ?case by (simp split: prod.splits)
  }
qed

lemma short_words_split:
  assumes "\<forall>(w, d) \<in> set ws. delimiter d \<and> (\<forall>c \<in> set w. \<not> delimiter c) \<and> length w < MAX_LENGTH"
    and "\<forall>c \<in> set rest. \<not> delimiter c" "length rest < MAX_LENGTH"
  shows "short_words [] (concat (map (\<lambda>(w, d). w @ [d]) ws) @ rest)"
  using assms(1)
proof (induction ws)
  have word: "short_words v (w @ cs) \<longleftrightarrow> short_words (v @ w) cs"
    if "\<forall>c \<in> set w. \<not> delimiter c" "length (v @ w) < MAX_LENGTH" for v w cs
    using that by (induction w arbitrary: v) auto
  {
    case Nil
    then show ?case using word [OF assms(2), of "[]" "[]"] assms(3) by simp
  next
    case (Cons p ws)
    obtain w d where p: "p = (w, d)" by (cases p)
    with Cons word [of w "[]"] show ?case by simp
  }
qed

text \<open>A buffer of one-letter unknown words doubles in length.\<close>

lemma empty_filter: "\<not> in_filter (replicate SLOTS 0) w"
proof -
  have "hash w \<noteq> []" by (metis length_hash FNS_def length_0_conv zero_neq_numeral)
  then have "hd (hash w) \<in> set (hash w)" by simp
  with hash_bound show ?thesis by (auto simp: in_filter_def member_bit intro!: bexI [of _ "hd (hash w)"])
qed

lemma doubling_overflow:
  assumes "length out + 4 * k > OUT_BUFFER"
  shows "level0_chunk (replicate SLOTS 0) (concat (replicate k [97, 32])) \<lparr>word = [], out_buf = out, all_alpha = True\<rparr> =
    Inl OutOverflow \<or> length out > OUT_BUFFER"
  using assms
proof (induction k arbitrary: out)
  case (Suc k)
  have "write_word (replicate SLOTS 0) [97] True out = emit [60, 97, 62] out" if "length out \<le> OUT_BUFFER"
    using write_word_marks [of "replicate SLOTS 0" "[97]" out] that
    by (simp add: MAX_LENGTH_def mark_def empty_filter)
  moreover have "length (out @ [60, 97, 62, 32]) + 4 * k > OUT_BUFFER" using Suc.prems by simp
  note Suc.IH [OF this]
  ultimately show ?case
    by (auto simp: level0_step_def not_isalpha_def MAX_LENGTH_def emit_def)
qed simp

section \<open>Properties\<close>

text \<open>
  (C23) No false negatives: from a dictionary of newline-terminated words the builder writes a filter
  of the expected size, and every dictionary word that does not start with a capital, in any
  capitalisation, is found by the checker's probe.
\<close>

theorem bloom_no_false_negatives:
  assumes "\<forall>w \<in> set ws. dictionary_word w"
  shows "\<exists>data. bloom_main (Some (dictionary_file ws)) True = Some (0, Some data) \<and> length data = SLOTS \<and>
    (\<forall>w \<in> set ws. \<forall>v. \<not> isupper (str_head w) \<longrightarrow> map tolower v = map tolower w \<longrightarrow>
       probe data (hash v) = Inr True)"
proof -
  obtain data where data: "bloom_main (Some (dictionary_file ws)) True = Some (0, Some data)"
      "length data = SLOTS" "\<forall>w \<in> set ws. \<not> isupper (str_head w) \<longrightarrow> in_filter data w"
    using build_words [OF assms] by blast
  moreover have "probe data (hash v) = Inr True"
    if "w \<in> set ws" "\<not> isupper (str_head w)" "map tolower v = map tolower w" for v w
    using that data(3) probe_hash [OF data(2), of v] in_filter_lower [OF that(3), of data] by simp
  ultimately show ?thesis by blast
qed

theorem bloom_no_false_negatives_witness:
  "\<exists>data. bloom_main (Some [99, 97, 116, 10, 66, 111, 98, 10]) True = Some (0, Some data) \<and>
     probe data (hash [67, 97, 84]) = Inr True"
  using bloom_no_false_negatives [of "[[99, 97, 116], [66, 111, 98]]"]
  by (auto simp: dictionary_word_def dictionary_file_def isupper_def str_head_def tolower_def)

text \<open>
  (C36) The builder never writes outside its table: on every file without NUL bytes it ends with a
  table of \<open>SLOTS\<close> bytes, and every position the hash returns lies inside the table.
\<close>

theorem bloom_main_in_bounds:
  assumes "0 \<notin> set fp"
  shows "(\<exists>data. bloom_main (Some fp) True = Some (0, Some data) \<and> length data = SLOTS) \<and>
    (\<forall>s. \<forall>x \<in> set (hash s). unat x div 8 < SLOTS)"
  using build_total [OF assms, of "replicate SLOTS 0"] hash_bound
  by (auto simp: bloom_main_def grows_def)

theorem bloom_main_in_bounds_witness:
  "\<exists>data. bloom_main (Some [97, 98]) True = Some (0, Some data) \<and> length data = SLOTS"
  using bloom_main_in_bounds [of "[97, 98]"] by simp




end
