(* ===== verification/Oid_Shorten.thy ===== *)
theory Oid_Shorten
  imports Oid
begin

text \<open>
  The trie of \<open>src/oid.c\<close> that finds the shortest length at which a set of hexadecimal ids stays
  distinct (\<open>git_oid_shorten\<close>).  The nodes live in one array; a node is a C union of a pointer to
  the rest of an id and an array of 16 child indices, here a datatype: reading a member that was
  not the last one written, and an index outside an array, are \<open>None\<close>.  The capacity of the array
  is the length of the list; \<open>alloc n\<close> says whether \<open>git__realloc\<close> to \<open>n\<close> nodes succeeds.
\<close>

section \<open>The trie\<close>

datatype trie_node = Tail "byte list" | Children "int list"

record git_oid_shorten =
  nodes :: "trie_node list"
  node_count :: nat
  min_length :: int
  full :: bool

definition empty_node :: trie_node where
  "empty_node = Children (replicate 16 0)"

definition SHRT_MAX :: nat where "SHRT_MAX = 32767"

definition resize_trie :: "(nat \<Rightarrow> bool) \<Rightarrow> git_oid_shorten \<Rightarrow> nat \<Rightarrow> int \<times> git_oid_shorten" where
  "resize_trie alloc self new_size =
     (if alloc new_size
      then (0, self\<lparr>nodes := take new_size (nodes self) @ replicate (new_size - length (nodes self)) empty_node\<rparr>)
      else (- 1, self\<lparr>nodes := []\<rparr>))"

text \<open>The second component tells whether the result is a node or the null pointer.\<close>

definition push_leaf ::
  "(nat \<Rightarrow> bool) \<Rightarrow> git_oid_shorten \<Rightarrow> nat \<Rightarrow> int \<Rightarrow> byte list \<Rightarrow> (git_oid_shorten \<times> bool) option" where
  "push_leaf alloc os idx push_at oid =
     (let (rc, os) = (if node_count os \<ge> length (nodes os) then resize_trie alloc os (length (nodes os) * 2) else (0, os))
      in if rc < 0 then Some (os, False)
         else let idx_leaf = sint (of_nat (node_count os) :: 16 word);
                  os = os\<lparr>node_count := node_count os + 1\<rparr>
              in if node_count os = SHRT_MAX then Some (os\<lparr>full := True\<rparr>, False)
                 else if \<not> (idx < length (nodes os) \<and> 0 \<le> push_at \<and> push_at < 16 \<and> 0 \<le> idx_leaf \<and>
                            nat idx_leaf < length (nodes os)) then None
                 else case nodes os ! idx of
                        Tail _ \<Rightarrow> None
                      | Children ch \<Rightarrow>
                          (let ns = (nodes os)[idx := Children (ch[nat push_at := - idx_leaf])];
                               ns = ns[nat idx_leaf := Tail oid]
                           in Some (os\<lparr>nodes := ns\<rparr>, True)))"

definition git_oid_shorten_new :: "bool \<Rightarrow> (nat \<Rightarrow> bool) \<Rightarrow> nat \<Rightarrow> git_oid_shorten option" where
  "git_oid_shorten_new calloc_ok alloc min_len =
     (if \<not> calloc_ok then None
      else let (rc, os) = resize_trie alloc \<lparr>nodes = [], node_count = 0, min_length = 0, full = False\<rparr> 16
           in if rc < 0 then None
              else Some (os\<lparr>node_count := 1, min_length := int min_len\<rparr>))"

text \<open>
  One turn of the loop of \<open>git_oid_shorten_add\<close> per character.  The outcome is the state with
  \<open>None\<close> when the function returns -1, or with the position at which the loop ended.
\<close>

function add_loop ::
  "(nat \<Rightarrow> bool) \<Rightarrow> git_oid_shorten \<Rightarrow> nat \<Rightarrow> bool \<Rightarrow> nat \<Rightarrow> byte list \<Rightarrow> (git_oid_shorten \<times> nat option) option" where
  "add_loop alloc os idx is_leaf i text =
     (if i < GIT_OID_HEXSZ then
        let c = git__fromhex (str_head text)
        in if c = - 1 then Some (os, None)
           else if \<not> idx < length (nodes os) then None
           else case (if is_leaf then
                        case nodes os ! idx of
                          Tail tail \<Rightarrow>
                            push_leaf alloc (os\<lparr>nodes := (nodes os)[idx := empty_node]\<rparr>) idx
                              (git__fromhex (str_head tail)) (tl tail)
                        | Children _ \<Rightarrow> None
                      else Some (os, True)) of
                  None \<Rightarrow> None
                | Some (os, False) \<Rightarrow> Some (os, None)
                | Some (os, True) \<Rightarrow>
                    (case nodes os ! idx of
                       Tail _ \<Rightarrow> None
                     | Children ch \<Rightarrow>
                         (let child = ch ! nat c
                          in if child = 0 then
                               (case push_leaf alloc os idx c (tl text) of
                                  None \<Rightarrow> None
                                | Some (os, False) \<Rightarrow> Some (os, None)
                                | Some (os, True) \<Rightarrow> Some (os, Some i))
                             else if child < 0 then
                               add_loop alloc
                                 (os\<lparr>nodes := (nodes os)[idx := Children (ch[nat c := - child])]\<rparr>)
                                 (nat (- child)) True (i + 1) (tl text)
                             else add_loop alloc os (nat child) False (i + 1) (tl text)))
      else Some (os, Some i))"
  by pat_completeness auto
termination
  by (relation "measure (\<lambda>(alloc, os, idx, is_leaf, i, text). GIT_OID_HEXSZ - i)") auto

declare add_loop.simps [simp del]

definition git_oid_shorten_add ::
  "(nat \<Rightarrow> bool) \<Rightarrow> git_oid_shorten \<Rightarrow> byte list option \<Rightarrow> (git_oid_shorten \<times> int) option" where
  "git_oid_shorten_add alloc os text_oid =
     (if full os then Some (os, - 1)
      else case text_oid of
             None \<Rightarrow> Some (os, min_length os)
           | Some text \<Rightarrow>
               (case add_loop alloc os 0 False 0 text of
                  None \<Rightarrow> None
                | Some (os, None) \<Rightarrow> Some (os, - 1)
                | Some (os, Some i) \<Rightarrow>
                    (let os = (if int i + 1 > min_length os then os\<lparr>min_length := int i + 1\<rparr> else os)
                     in Some (os, min_length os))))"

section \<open>The invariant\<close>

text \<open>
  Node \<open>k\<close> of the first \<open>N\<close> nodes stands for the digit prefix \<open>pre ! k\<close>.  A leaf holds the rest of a
  stored id; an inner node has an edge for every node whose prefix extends its own by one digit,
  negative exactly when the target is a leaf.  While an id is added, the leaf \<open>exc\<close> about to be split
  is already reached by a positive edge.  \<open>S\<close> bounds the stored ids from above, \<open>T\<close> from below, and
  \<open>m\<close> bounds the depth of the leaves.
\<close>

definition is_tail :: "trie_node \<Rightarrow> bool" where
  "is_tail nd = (case nd of Tail _ \<Rightarrow> True | Children _ \<Rightarrow> False)"

definition edge_ok :: "trie_node list \<Rightarrow> nat \<Rightarrow> int list list \<Rightarrow> nat option \<Rightarrow> nat \<Rightarrow> nat \<Rightarrow> int \<Rightarrow> bool" where
  "edge_ok ns N pre exc k c e \<longleftrightarrow>
     (\<exists>j. 0 < j \<and> j < N \<and> pre ! j = pre ! k @ [int c] \<and>
        e = (if is_tail (ns ! j) \<and> exc \<noteq> Some j then - int j else int j))"

definition node_ok :: "trie_node list \<Rightarrow> nat \<Rightarrow> int list list \<Rightarrow> int list set \<Rightarrow> nat option \<Rightarrow> nat \<Rightarrow> bool" where
  "node_ok ns N pre S exc k \<longleftrightarrow>
     (case ns ! k of
        Children ch \<Rightarrow> length ch = 16 \<and> length (pre ! k) < 40 \<and>
          (\<forall>c < 16. ch ! c \<noteq> 0 \<longrightarrow> edge_ok ns N pre exc k c (ch ! c))
      | Tail t \<Rightarrow> 0 < k \<and> length (pre ! k) + length t = 40 \<and> (\<forall>c \<in> set t. 0 \<le> git__fromhex c) \<and>
          pre ! k @ hexval t \<in> S)"

definition has_parent :: "trie_node list \<Rightarrow> nat \<Rightarrow> int list list \<Rightarrow> nat \<Rightarrow> bool" where
  "has_parent ns N pre j \<longleftrightarrow>
     (\<exists>p c ch. p < N \<and> c < 16 \<and> ns ! p = Children ch \<and> pre ! j = pre ! p @ [int c] \<and> ch ! c \<noteq> 0)"

definition stored :: "trie_node list \<Rightarrow> nat \<Rightarrow> int list list \<Rightarrow> int list \<Rightarrow> bool" where
  "stored ns N pre x \<longleftrightarrow> (\<exists>k t. k < N \<and> ns ! k = Tail t \<and> x = pre ! k @ hexval t)"

definition trie_ok ::
  "trie_node list \<Rightarrow> nat \<Rightarrow> int list list \<Rightarrow> int list set \<Rightarrow> int list set \<Rightarrow> nat option \<Rightarrow> int \<Rightarrow> bool" where
  "trie_ok ns N pre S T exc m \<longleftrightarrow>
     length pre = N \<and> 0 < N \<and> N \<le> length ns \<and> pre ! 0 = [] \<and> distinct pre \<and>
     (\<forall>k < N. node_ok ns N pre S exc k) \<and>
     (\<forall>j < N. 0 < j \<longrightarrow> has_parent ns N pre j) \<and>
     (\<forall>x \<in> T. stored ns N pre x) \<and>
     (\<forall>k < N. is_tail (ns ! k) \<longrightarrow> int (length (pre ! k)) \<le> m)"

lemma trie_okD:
  assumes "trie_ok ns N pre S T exc m"
  shows "length pre = N" "0 < N" "N \<le> length ns" "pre ! 0 = []" "distinct pre"
    "\<And>k. k < N \<Longrightarrow> node_ok ns N pre S exc k"
    "\<And>j. j < N \<Longrightarrow> 0 < j \<Longrightarrow> has_parent ns N pre j"
    "\<And>x. x \<in> T \<Longrightarrow> stored ns N pre x"
    "\<And>k. k < N \<Longrightarrow> is_tail (ns ! k) \<Longrightarrow> int (length (pre ! k)) \<le> m"
  using assms by (auto simp: trie_ok_def)

lemma same_prefix:
  assumes "trie_ok ns N pre S T exc m" "j < N" "k < N" "pre ! j = pre ! k"
  shows "j = k"
  using assms trie_okD(1,5) [OF assms(1)] by (metis nth_eq_iff_index_eq)

lemma is_tail_simps [simp]: "is_tail (Tail t)" "\<not> is_tail (Children ch)"
  by (simp_all add: is_tail_def)

lemma children_ok:
  assumes "trie_ok ns N pre S T exc m" "k < N" "ns ! k = Children ch"
  shows "length ch = 16" "length (pre ! k) < 40"
    "\<And>c. c < 16 \<Longrightarrow> ch ! c \<noteq> 0 \<Longrightarrow> edge_ok ns N pre exc k c (ch ! c)"
  using trie_okD(6) [OF assms(1,2)] assms(3) by (auto simp: node_ok_def)

lemma tail_ok:
  assumes "trie_ok ns N pre S T exc m" "k < N" "ns ! k = Tail t"
  shows "0 < k" "length (pre ! k) + length t = 40" "\<forall>c \<in> set t. 0 \<le> git__fromhex c" "pre ! k @ hexval t \<in> S"
  using trie_okD(6) [OF assms(1,2)] assms(3) by (auto simp: node_ok_def)

text \<open>A digit without an edge is a prefix without a node.\<close>

lemma no_edge_fresh:
  assumes ok: "trie_ok ns N pre S T exc m" and idx: "idx < N"
    and "ns ! idx = Children ch \<and> ch ! d = 0 \<or> is_tail (ns ! idx)"
  shows "pre ! idx @ [int d] \<notin> set pre"
proof
  assume "pre ! idx @ [int d] \<in> set pre"
  then obtain j where j: "j < N" "pre ! j = pre ! idx @ [int d]"
    using trie_okD(1) [OF ok] by (metis in_set_conv_nth)
  then have "0 < j" using trie_okD(4) [OF ok] by (cases j) auto
  then obtain p c ch' where p: "p < N" "c < 16" "ns ! p = Children ch'" "pre ! j = pre ! p @ [int c]" "ch' ! c \<noteq> 0"
    using trie_okD(7) [OF ok j(1)] by (auto simp: has_parent_def)
  with j have "pre ! p = pre ! idx" "c = d" by auto
  with same_prefix [OF ok p(1) idx] p assms(3) show False by auto
qed

section \<open>The elementary updates keep the invariant\<close>

lemma trie_ok_cong:
  assumes "trie_ok ns N pre S T exc m" "\<And>k. k < N \<Longrightarrow> ns' ! k = ns ! k" "N \<le> length ns'"
  shows "trie_ok ns' N pre S T exc m"
proof -
  have e: "edge_ok ns' N pre exc = edge_ok ns N pre exc"
    using assms(2) by (intro ext) (auto simp: edge_ok_def)
  have "node_ok ns' N pre S exc k \<longleftrightarrow> node_ok ns N pre S exc k" if "k < N" for k
    using assms(2) [OF that] by (cases "ns ! k") (simp_all add: node_ok_def e)
  moreover have "has_parent ns' N pre j \<longleftrightarrow> has_parent ns N pre j" for j
    unfolding has_parent_def using assms(2) by metis
  moreover have "stored ns' N pre x \<longleftrightarrow> stored ns N pre x" for x
    unfolding stored_def using assms(2) by metis
  ultimately show ?thesis using assms by (simp add: trie_ok_def)
qed

lemma trie_ok_mono:
  assumes "trie_ok ns N pre S T exc m" "S \<subseteq> S'" "T' \<subseteq> T" "m \<le> m'"
  shows "trie_ok ns N pre S' T' exc m'"
proof -
  have "node_ok ns N pre S' exc k" if "k < N" for k
    using trie_okD(6) [OF assms(1) that] assms(2) by (auto simp: node_ok_def split: trie_node.splits)
  with assms show ?thesis by (force simp: trie_ok_def)
qed

text \<open>Splitting a leaf starts by forgetting the rest it holds.\<close>

lemma trie_ok_clear:
  assumes ok: "trie_ok ns N pre S T (Some idx) m" and idx: "idx < N" "ns ! idx = Tail tail" "length (pre ! idx) < 40"
  shows "trie_ok (ns[idx := empty_node]) N pre S (T - {pre ! idx @ hexval tail}) None m"
proof -
  let ?ns = "ns[idx := empty_node]"
  have at: "?ns ! k = (if k = idx then Children (replicate 16 0) else ns ! k)" if "k < N" for k
    using that trie_okD(3) [OF ok] by (auto simp: empty_node_def nth_list_update)
  have edge: "edge_ok ?ns N pre None k c e" if e: "edge_ok ns N pre (Some idx) k c e" for k c e
  proof -
    obtain j where j: "0 < j" "j < N" "pre ! j = pre ! k @ [int c]"
      "e = (if is_tail (ns ! j) \<and> Some idx \<noteq> Some j then - int j else int j)"
      using e by (auto simp: edge_ok_def)
    with at [of j] show ?thesis unfolding edge_ok_def by (intro exI [of _ j]) auto
  qed
  have "node_ok ?ns N pre S None k" if k: "k < N" for k
  proof (cases "k = idx")
    case True
    with idx(3) at [OF k] show ?thesis by (simp add: node_ok_def)
  next
    case False
    with trie_okD(6) [OF ok k] at [OF k] edge show ?thesis
      by (cases "ns ! k") (simp_all add: node_ok_def)
  qed
  moreover have "has_parent ?ns N pre j" if j: "j < N" "0 < j" for j
  proof -
    obtain p c ch where p: "p < N" "c < 16" "ns ! p = Children ch" "pre ! j = pre ! p @ [int c]" "ch ! c \<noteq> 0"
      using trie_okD(7) [OF ok j] by (auto simp: has_parent_def)
    then have "p \<noteq> idx" using idx(2) by auto
    with p at show ?thesis unfolding has_parent_def by (intro exI [of _ p] exI [of _ c] exI [of _ ch]) auto
  qed
  moreover have "stored ?ns N pre x" if x: "x \<in> T - {pre ! idx @ hexval tail}" for x
  proof -
    obtain k t where k: "k < N" "ns ! k = Tail t" "x = pre ! k @ hexval t"
      using trie_okD(8) [OF ok, of x] x by (auto simp: stored_def)
    then have "k \<noteq> idx" using idx(2) x by auto
    with k at show ?thesis unfolding stored_def by (intro exI [of _ k] exI [of _ t]) auto
  qed
  ultimately show ?thesis
    using ok at by (auto simp: trie_ok_def)
qed

text \<open>A new leaf under an inner node.\<close>

lemma trie_ok_push:
  assumes ok: "trie_ok ns N pre S T None m" and idx: "idx < N" "ns ! idx = Children ch"
    and d: "d < 16" "ch ! d = 0" and room: "N < length ns"
    and y: "pre ! idx @ int d # hexval t \<in> S" "length (pre ! idx) + 1 + length t = 40"
    and hex: "\<forall>c \<in> set t. 0 \<le> git__fromhex c"
  shows "trie_ok (ns[idx := Children (ch[d := - int N]), N := Tail t]) (Suc N) (pre @ [pre ! idx @ [int d]]) S
    (insert (pre ! idx @ int d # hexval t) T) None (max m (int (length (pre ! idx)) + 1))"
proof -
  let ?ns = "ns[idx := Children (ch[d := - int N]), N := Tail t]" and ?pre = "pre @ [pre ! idx @ [int d]]"
  have at: "?ns ! k = (if k = N then Tail t else if k = idx then Children (ch[d := - int N]) else ns ! k)"
    if "k \<le> N" for k using that room idx(1) by (auto simp: nth_list_update)
  have len: "length pre = N" using trie_okD(1) [OF ok] .
  have pre: "?pre ! k = (if k = N then pre ! idx @ [int d] else pre ! k)" if "k \<le> N" for k
    using that len by (auto simp: nth_append)
  have ch: "length ch = 16" "length (pre ! idx) < 40"
    using children_ok(1,2) [OF ok idx] by auto
  have tail_same: "is_tail (?ns ! j) \<longleftrightarrow> is_tail (ns ! j)" if "j < N" for j
    using that at [of j] idx by auto
  have edge: "edge_ok ?ns (Suc N) ?pre None k c e" if "edge_ok ns N pre None k c e" "k < N" for k c e
  proof -
    obtain j where "0 < j" "j < N" "pre ! j = pre ! k @ [int c]"
      "e = (if is_tail (ns ! j) \<and> None \<noteq> Some j then - int j else int j)"
      using \<open>edge_ok ns N pre None k c e\<close> by (auto simp: edge_ok_def)
    then show ?thesis unfolding edge_ok_def
      using tail_same pre [of j] pre [of k] that(2) by (intro exI [of _ j]) auto
  qed
  have new_edge: "edge_ok ?ns (Suc N) ?pre None idx d (- int N)"
    unfolding edge_ok_def using trie_okD(2) [OF ok] at [of N] pre [of N] pre [of idx] idx(1)
    by (intro exI [of _ N]) auto
  have "node_ok ?ns (Suc N) ?pre S None k" if k: "k < Suc N" for k
  proof -
    consider "k = N" | "k = idx" "k < N" | "k \<noteq> idx" "k < N" using k by linarith
    then show ?thesis
    proof cases
      case 1
      then show ?thesis using at [of N] pre [of N] y hex trie_okD(2) [OF ok] by (auto simp: node_ok_def)
    next
      case 2
      have "edge_ok ?ns (Suc N) ?pre None idx c (ch[d := - int N] ! c)"
        if "c < 16" "ch[d := - int N] ! c \<noteq> 0" for c
        using that new_edge edge children_ok(3) [OF ok idx] idx(1) ch(1) by (cases "c = d") auto
      with 2 show ?thesis using at [of idx] pre [of idx] ch by (auto simp: node_ok_def)
    next
      case 3
      then show ?thesis using trie_okD(6) [OF ok 3(2)] at [of k] pre [of k] edge
        by (cases "ns ! k") (simp_all add: node_ok_def)
    qed
  qed
  moreover have "has_parent ?ns (Suc N) ?pre j" if j: "j < Suc N" "0 < j" for j
  proof (cases "j = N")
    case True
    have "p < Suc N \<and> c < 16 \<and> ?ns ! p = Children (ch[d := - int N]) \<and> ?pre ! N = ?pre ! p @ [int c] \<and> ch[d := - int N] ! c \<noteq> 0"
      if "p = idx" "c = d" for p c
      using that at [of idx] pre [of idx] pre [of N] idx(1) d(1) ch(1) trie_okD(2) [OF ok] by auto
    with True show ?thesis unfolding has_parent_def by blast
  next
    case False
    then obtain p c ch' where p: "p < N" "c < 16" "ns ! p = Children ch'" "pre ! j = pre ! p @ [int c]" "ch' ! c \<noteq> 0"
      using trie_okD(7) [OF ok _ j(2)] j(1) by (auto simp: has_parent_def)
    have "c \<noteq> d" if "p = idx" using that p idx(2) d(2) by auto
    with p have "?ns ! p = Children (if p = idx then ch[d := - int N] else ch')"
      "(if p = idx then ch[d := - int N] else ch') ! c \<noteq> 0" using at [of p] idx(2) by auto
    with p pre [of p] pre [of j] False j(1) show ?thesis unfolding has_parent_def
      by (intro exI [of _ p] exI [of _ c]) auto
  qed
  moreover have "stored ?ns (Suc N) ?pre x" if "x \<in> insert (pre ! idx @ int d # hexval t) T" for x
  proof (cases "x \<in> T")
    case True
    then obtain k u where k: "k < N" "ns ! k = Tail u" "x = pre ! k @ hexval u"
      using trie_okD(8) [OF ok True] by (auto simp: stored_def)
    then have "k \<noteq> idx" using idx(2) by auto
    with k at [of k] pre [of k] show ?thesis unfolding stored_def by (intro exI [of _ k] exI [of _ u]) auto
  next
    case False
    with that at [of N] pre [of N] show ?thesis
      unfolding stored_def by (intro exI [of _ N] exI [of _ t]) auto
  qed
  moreover have "int (length (?pre ! k)) \<le> max m (int (length (pre ! idx)) + 1)" if "k < Suc N" "is_tail (?ns ! k)" for k
    using that trie_okD(9) [OF ok, of k] tail_same [of k] pre [of k] by (cases "k = N") auto
  moreover have "distinct ?pre" using trie_okD(5) [OF ok] no_edge_fresh [OF ok idx(1), of ch d] idx(2) d(2) by simp
  moreover have "?pre ! 0 = []" using trie_okD(2,4) [OF ok] pre [of 0] by simp
  ultimately show ?thesis using len room by (simp add: trie_ok_def)
qed

text \<open>Turning the sign of an edge to a leaf marks the leaf as the one to be split.\<close>

lemma trie_ok_flip:
  assumes ok: "trie_ok ns N pre S T None m" and idx: "idx < N" "ns ! idx = Children ch"
    and c: "c < 16" "ch ! c < 0"
  shows "trie_ok (ns[idx := Children (ch[c := - (ch ! c)])]) N pre S T (Some (nat (- (ch ! c)))) m"
proof -
  let ?ns = "ns[idx := Children (ch[c := - (ch ! c)])]" and ?j = "nat (- (ch ! c))"
  have "edge_ok ns N pre None idx c (ch ! c)" using children_ok(3) [OF ok idx c(1)] c(2) by auto
  then have j: "0 < ?j" "?j < N" "pre ! ?j = pre ! idx @ [int c]" "ch ! c = - int ?j"
    using c(2) by (auto simp: edge_ok_def split: if_splits)
  have ch: "length ch = 16" "length (pre ! idx) < 40"
    using children_ok(1,2) [OF ok idx] by auto
  have at: "?ns ! k = (if k = idx then Children (ch[c := int ?j]) else ns ! k)" if "k < N" for k
    using that trie_okD(3) [OF ok] c(2) by (auto simp: nth_list_update)
  have tail_same: "is_tail (?ns ! k) \<longleftrightarrow> is_tail (ns ! k)" if "k < N" for k
    using that at idx by auto
  have edge: "edge_ok ?ns N pre (Some ?j) k b e"
    if old: "edge_ok ns N pre None k b e" and other: "(k, b) \<noteq> (idx, c)" "k < N" for k b e
  proof -
    obtain i where i: "0 < i" "i < N" "pre ! i = pre ! k @ [int b]"
      "e = (if is_tail (ns ! i) then - int i else int i)" using old by (auto simp: edge_ok_def)
    have "i \<noteq> ?j"
    proof
      assume "i = ?j"
      then have "pre ! k = pre ! idx" "b = c" using i(3) j(3) by auto
      with same_prefix [OF ok other(2) idx(1)] other(1) show False by simp
    qed
    with i tail_same show ?thesis unfolding edge_ok_def by (intro exI [of _ i]) auto
  qed
  have flipped: "edge_ok ?ns N pre (Some ?j) idx c (int ?j)"
    unfolding edge_ok_def using j by (intro exI [of _ ?j]) auto
  have "node_ok ?ns N pre S (Some ?j) k" if "k < N" for k
  proof (cases "k = idx")
    case True
    have "edge_ok ?ns N pre (Some ?j) idx b (ch[c := int ?j] ! b)"
      if "b < 16" "ch[c := int ?j] ! b \<noteq> 0" for b
      using that flipped edge children_ok(3) [OF ok idx] idx(1) ch(1) by (cases "b = c") auto
    with True at [of idx] idx(1) ch show ?thesis by (auto simp: node_ok_def)
  next
    case False
    then show ?thesis using trie_okD(6) [OF ok that] at [OF that] edge that
      by (cases "ns ! k") (simp_all add: node_ok_def)
  qed
  moreover have "has_parent ?ns N pre i" if i: "i < N" "0 < i" for i
  proof -
    obtain p b ch' where p: "p < N" "b < 16" "ns ! p = Children ch'" "pre ! i = pre ! p @ [int b]" "ch' ! b \<noteq> 0"
      using trie_okD(7) [OF ok i] by (auto simp: has_parent_def)
    have "ch[c := int ?j] ! b \<noteq> 0" if "p = idx"
      using that p idx(2) j(1) ch(1) by (cases "b = c") auto
    with p at [of p] idx(2) show ?thesis unfolding has_parent_def
      by (intro exI [of _ p] exI [of _ b]) auto
  qed
  moreover have "stored ?ns N pre x" if x: "x \<in> T" for x
  proof -
    obtain k u where k: "k < N" "ns ! k = Tail u" "x = pre ! k @ hexval u"
      using trie_okD(8) [OF ok x] by (auto simp: stored_def)
    then have "k \<noteq> idx" using idx(2) by auto
    with k at [of k] show ?thesis unfolding stored_def by (intro exI [of _ k] exI [of _ u]) auto
  qed
  ultimately show ?thesis using ok tail_same by (simp add: trie_ok_def)
qed

section \<open>The operations keep the invariant\<close>

definition shorten_ok ::
  "git_oid_shorten \<Rightarrow> int list list \<Rightarrow> int list set \<Rightarrow> int list set \<Rightarrow> nat option \<Rightarrow> int \<Rightarrow> bool" where
  "shorten_ok os pre S T exc m \<longleftrightarrow>
     trie_ok (nodes os) (node_count os) pre S T exc m \<and> node_count os < SHRT_MAX \<and> \<not> full os"

lemma short_index: "n < SHRT_MAX \<Longrightarrow> sint (of_nat n :: 16 word) = int n"
  by (simp add: SHRT_MAX_def signed_of_nat signed_take_bit_int_eq_self)

lemma push_leaf_ok:
  assumes ok: "shorten_ok os pre S T None m" and alloc: "\<And>n. alloc n"
    and idx: "idx < node_count os" "nodes os ! idx = Children ch"
    and d: "d < 16" "ch ! d = 0"
    and y: "pre ! idx @ int d # hexval t \<in> S" "length (pre ! idx) + 1 + length t = 40"
    and hex: "\<forall>c \<in> set t. 0 \<le> git__fromhex c"
  obtains (full) os' where "push_leaf alloc os idx (int d) t = Some (os', False)" "full os'"
      "node_count os + 1 = SHRT_MAX"
  | (pushed) os' where "push_leaf alloc os idx (int d) t = Some (os', True)"
      "shorten_ok os' (pre @ [pre ! idx @ [int d]]) S (insert (pre ! idx @ int d # hexval t) T) None
         (max m (int (length (pre ! idx)) + 1))"
      "nodes os' ! idx = Children (ch[d := - int (node_count os)])"
      "node_count os' = Suc (node_count os)" "min_length os' = min_length os"
proof -
  let ?N = "node_count os"
  let ?ns = "if ?N \<ge> length (nodes os) then nodes os @ replicate (length (nodes os)) empty_node else nodes os"
  have ok1: "trie_ok (nodes os) ?N pre S T None m" "?N < SHRT_MAX" using ok by (auto simp: shorten_ok_def)
  then have N: "0 < ?N" "?N \<le> length (nodes os)" using trie_okD(2,3) by blast+
  then have room: "?N < length ?ns" by auto
  have same: "?ns ! k = nodes os ! k" if "k < ?N" for k using that N by (simp add: nth_append)
  have ok2: "trie_ok ?ns ?N pre S T None m"
    by (rule trie_ok_cong [OF ok1(1)]) (use same room in auto)
  have node: "?ns ! idx = Children ch" using same [OF idx(1)] idx(2) by simp
  have resize: "(if ?N \<ge> length (nodes os) then resize_trie alloc os (length (nodes os) * 2) else (0, os)) =
      (0, os\<lparr>nodes := ?ns\<rparr>)"
    using alloc by (simp add: resize_trie_def)
  show thesis
  proof (cases "?N + 1 = SHRT_MAX")
    case True
    show thesis by (rule full [of "os\<lparr>nodes := ?ns, node_count := ?N + 1, full := True\<rparr>"])
      (use True in \<open>simp_all only: push_leaf_def resize, simp_all\<close>)
  next
    case False
    let ?os = "os\<lparr>nodes := ?ns[idx := Children (ch[d := - int ?N]), ?N := Tail t], node_count := Suc ?N\<rparr>"
    have "push_leaf alloc os idx (int d) t = Some (?os, True)"
      unfolding push_leaf_def resize
      using False room idx(1) d(1) node short_index [OF ok1(2)] by (simp add: Let_def)
    moreover have "shorten_ok ?os (pre @ [pre ! idx @ [int d]]) S (insert (pre ! idx @ int d # hexval t) T) None
         (max m (int (length (pre ! idx)) + 1))"
      using trie_ok_push [OF ok2 idx(1) node d room y hex] False ok1(2) ok by (simp add: shorten_ok_def)
    moreover have "nodes ?os ! idx = Children (ch[d := - int ?N])" using room idx(1) by simp
    ultimately show thesis by (rule pushed) simp_all
  qed
qed

text \<open>
  Adding an id \<open>x\<close> that is not stored yet: at position \<open>i\<close> the current node stands for the first
  \<open>i\<close> digits of \<open>x\<close>.
\<close>

definition at_node :: "git_oid_shorten \<Rightarrow> int list list \<Rightarrow> nat \<Rightarrow> bool \<Rightarrow> nat option \<Rightarrow> bool" where
  "at_node os pre idx is_leaf exc \<longleftrightarrow> idx < node_count os \<and>
     is_tail (nodes os ! idx) = is_leaf \<and> exc = (if is_leaf then Some idx else None)"

lemma split_ok:
  assumes ok: "shorten_ok os pre S S (Some idx) m" and alloc: "\<And>n. alloc n"
    and at: "idx < node_count os" "nodes os ! idx = Tail tail" "length (pre ! idx) < 40"
  obtains (full) os' where
      "push_leaf alloc (os\<lparr>nodes := (nodes os)[idx := empty_node]\<rparr>) idx (git__fromhex (str_head tail)) (tl tail) =
         Some (os', False)" "full os'" "node_count os + 1 = SHRT_MAX"
  | (pushed) os' pre' where
      "push_leaf alloc (os\<lparr>nodes := (nodes os)[idx := empty_node]\<rparr>) idx (git__fromhex (str_head tail)) (tl tail) =
         Some (os', True)"
      "shorten_ok os' pre' S S None (max m (int (length (pre ! idx)) + 1))" "pre' ! idx = pre ! idx"
      "\<not> is_tail (nodes os' ! idx)" "node_count os' = Suc (node_count os)" "min_length os' = min_length os"
proof -
  let ?os = "os\<lparr>nodes := (nodes os)[idx := empty_node]\<rparr>" and ?x = "pre ! idx @ hexval tail"
  have ok1: "trie_ok (nodes os) (node_count os) pre S S (Some idx) m" using ok by (simp add: shorten_ok_def)
  note tl = tail_ok [OF ok1 at(1,2)]
  obtain c t where tail: "tail = c # t" using tl(2) at(3) by (cases tail) auto
  obtain d where d: "git__fromhex c = int d" "d < 16"
    using tl(3) fromhex_range [of c] tail by (metis int_nat_eq list.set_intros(1) nat_less_iff of_nat_numeral zero_le_imp_eq_int of_nat_less_iff)
  have clear: "shorten_ok ?os pre S (S - {?x}) None m"
    using trie_ok_clear [OF ok1 at] ok by (simp add: shorten_ok_def)
  have x: "?x = pre ! idx @ int d # hexval t" by (simp add: tail hexval_def d(1))
  have node: "nodes ?os ! idx = Children (replicate 16 0)"
    using at(1) trie_okD(3) [OF ok1] by (simp add: empty_node_def)
  have y: "pre ! idx @ int d # hexval t \<in> S" "length (pre ! idx) + 1 + length t = 40" "\<forall>c \<in> set t. 0 \<le> git__fromhex c"
    using tl x tail by auto
  have ins: "insert (pre ! idx @ int d # hexval t) (S - {?x}) = S" using y(1) x by auto
  have len: "length pre = node_count os" using trie_okD(1) [OF ok1] .
  from clear alloc _ node d(2) _ y show thesis
  proof (rule push_leaf_ok)
    show "idx < node_count ?os" "replicate 16 0 ! d = (0 :: int)" using at(1) d(2) by simp_all
  next
    fix os'
    assume "push_leaf alloc ?os idx (int d) t = Some (os', False)" "full os'" "node_count ?os + 1 = SHRT_MAX"
    then show thesis by (intro full) (simp_all add: tail str_head_def d(1))
  next
    fix os'
    assume *: "push_leaf alloc ?os idx (int d) t = Some (os', True)"
      "shorten_ok os' (pre @ [pre ! idx @ [int d]]) S (insert (pre ! idx @ int d # hexval t) (S - {?x})) None
         (max m (int (length (pre ! idx)) + 1))"
      "nodes os' ! idx = Children ((replicate 16 0)[d := - int (node_count ?os)])"
      "node_count os' = Suc (node_count ?os)" "min_length os' = min_length ?os"
    show thesis
      by (rule pushed [of os' "pre @ [pre ! idx @ [int d]]"])
        (use * at(1) len ins in \<open>simp_all add: tail str_head_def d(1) nth_append\<close>)
  qed
qed

lemma shorten_ok_mono:
  assumes "shorten_ok os pre S T exc m" "S \<subseteq> S'" "T' \<subseteq> T" "m \<le> m'"
  shows "shorten_ok os pre S' T' exc m'"
  using assms trie_ok_mono by (auto simp: shorten_ok_def)

text \<open>The part of one turn that splits the leaf it has arrived at, if it has.\<close>

definition turn_split :: "(nat \<Rightarrow> bool) \<Rightarrow> git_oid_shorten \<Rightarrow> nat \<Rightarrow> bool \<Rightarrow> (git_oid_shorten \<times> bool) option" where
  "turn_split alloc os idx is_leaf =
     (if is_leaf then
        case nodes os ! idx of
          Tail tail \<Rightarrow>
            push_leaf alloc (os\<lparr>nodes := (nodes os)[idx := empty_node]\<rparr>) idx
              (git__fromhex (str_head tail)) (tl tail)
        | Children _ \<Rightarrow> None
      else Some (os, True))"

lemma turn_split_ok:
  assumes ok: "shorten_ok os pre S S exc m" "at_node os pre idx is_leaf exc" and alloc: "\<And>n. alloc n"
    and short: "length (pre ! idx) < 40"
  obtains (full) os' where "turn_split alloc os idx is_leaf = Some (os', False)" "full os'" "node_count os + 1 = SHRT_MAX"
  | (inner) os' pre' ch where "turn_split alloc os idx is_leaf = Some (os', True)"
      "shorten_ok os' pre' S S None (max m (int (length (pre ! idx)) + 1))" "pre' ! idx = pre ! idx"
      "nodes os' ! idx = Children ch" "idx < node_count os'" "node_count os' \<le> Suc (node_count os)"
      "min_length os' = min_length os"
proof (cases is_leaf)
  case True
  then obtain tail where tail: "nodes os ! idx = Tail tail" "idx < node_count os" "exc = Some idx"
    using ok(2) by (cases "nodes os ! idx") (auto simp: at_node_def)
  from split_ok [where alloc = alloc, OF ok(1)[unfolded tail(3)] alloc tail(2,1) short] show thesis
  proof cases
    case (1 os')
    with True tail show thesis by (intro that(1)) (simp_all add: turn_split_def)
  next
    case (2 os' pre')
    obtain ch where "nodes os' ! idx = Children ch" using 2(4) by (cases "nodes os' ! idx") auto
    with 2 True tail show thesis by (intro that(2) [of os' pre' ch]) (simp_all add: turn_split_def)
  qed
next
  case False
  then obtain ch where "nodes os ! idx = Children ch" "idx < node_count os" "exc = None"
    using ok(2) by (cases "nodes os ! idx") (auto simp: at_node_def)
  moreover from this ok(1) have "shorten_ok os pre S S None (max m (int (length (pre ! idx)) + 1))"
    by (auto intro!: shorten_ok_mono [of os pre S S None m])
  ultimately show thesis
    using False by (intro that(2) [of os pre ch]) (simp_all add: turn_split_def)
qed

lemma add_loop_turn:
  assumes "i < GIT_OID_HEXSZ" "git__fromhex (str_head text) = int d" "idx < length (nodes os)"
  shows "add_loop alloc os idx is_leaf i text =
    (case turn_split alloc os idx is_leaf of
       None \<Rightarrow> None
     | Some (os, False) \<Rightarrow> Some (os, None)
     | Some (os, True) \<Rightarrow>
         (case nodes os ! idx of
            Tail _ \<Rightarrow> None
          | Children ch \<Rightarrow>
              (let child = ch ! d
               in if child = 0 then
                    (case push_leaf alloc os idx (int d) (tl text) of
                       None \<Rightarrow> None
                     | Some (os, False) \<Rightarrow> Some (os, None)
                     | Some (os, True) \<Rightarrow> Some (os, Some i))
                  else if child < 0 then
                    add_loop alloc
                      (os\<lparr>nodes := (nodes os)[idx := Children (ch[d := - child])]\<rparr>)
                      (nat (- child)) True (i + 1) (tl text)
                  else add_loop alloc os (nat child) False (i + 1) (tl text))))"
  using assms unfolding turn_split_def
  by (subst add_loop.simps) (simp add: Let_def cong: trie_node.case_cong option.case_cong prod.case_cong bool.case_cong if_cong)

definition added ::
  "git_oid_shorten \<Rightarrow> int list set \<Rightarrow> int \<Rightarrow> int list \<Rightarrow> nat \<Rightarrow> (git_oid_shorten \<times> nat option) option \<Rightarrow> bool" where
  "added os S m x i r \<longleftrightarrow>
     (\<exists>os'. (r = Some (os', None) \<and> full os' \<and> SHRT_MAX \<le> node_count os + (40 - i) + 1) \<or>
       (\<exists>i' pre'. r = Some (os', Some i') \<and> i \<le> i' \<and> i' < 40 \<and>
          shorten_ok os' pre' (insert x S) (insert x S) None (max m (int i' + 1)) \<and>
          min_length os' = min_length os \<and> node_count os' \<le> node_count os + (40 - i) + 1))"

lemma added_later:
  assumes "added os1 S m1 x (i + 1) r" "m1 \<le> max m (int i + 1)" "min_length os1 = min_length os"
    and "node_count os1 \<le> Suc (node_count os)" "i < 40"
  shows "added os S m x i r"
proof -
  from assms(1) obtain os' where os':
    "(r = Some (os', None) \<and> full os' \<and> SHRT_MAX \<le> node_count os1 + (40 - (i + 1)) + 1) \<or>
     (\<exists>i' pre'. r = Some (os', Some i') \<and> i + 1 \<le> i' \<and> i' < 40 \<and>
        shorten_ok os' pre' (insert x S) (insert x S) None (max m1 (int i' + 1)) \<and>
        min_length os' = min_length os1 \<and> node_count os' \<le> node_count os1 + (40 - (i + 1)) + 1)"
    by (auto simp: added_def)
  have "shorten_ok os' pre' (insert x S) (insert x S) None (max m (int i' + 1))"
    if "shorten_ok os' pre' (insert x S) (insert x S) None (max m1 (int i' + 1))" "i + 1 \<le> i'" for pre' i'
    by (rule shorten_ok_mono [OF that(1)]) (use assms(2) that(2) in auto)
  with os' assms(3-5) show ?thesis unfolding added_def
    by (intro exI [of _ os']) fastforce
qed

lemma add_loop_ok:
  assumes x: "length x = 40" "\<forall>c \<in> set x. 0 \<le> git__fromhex c" "hexval x \<notin> S" and alloc: "\<And>n. alloc n"
    and "shorten_ok os pre S S exc m" "at_node os pre idx is_leaf exc" "pre ! idx = take i (hexval x)" "i \<le> 40"
  shows "added os S m (hexval x) i (add_loop alloc os idx is_leaf i (drop i x))"
  using assms(5-8)
proof (induction "40 - i" arbitrary: os pre exc m idx is_leaf i)
  case 0
  then have i: "pre ! idx = hexval x" "length (pre ! idx) = 40" using x(1) by (simp_all add: hexval_def)
  have ok: "trie_ok (nodes os) (node_count os) pre S S exc m" using 0(2) by (simp add: shorten_ok_def)
  have idx: "idx < node_count os" using 0(3) by (simp add: at_node_def)
  show ?case
  proof (cases "nodes os ! idx")
    case (Tail t)
    with tail_ok(2,4) [OF ok idx Tail] i x(3) show ?thesis by (simp add: hexval_def)
  next
    case (Children ch)
    with children_ok(2) [OF ok idx Children] i show ?thesis by simp
  qed
next
  case (Suc k)
  then have i: "i < 40" by simp
  have ok: "trie_ok (nodes os) (node_count os) pre S S exc m" using Suc.prems(1) by (simp add: shorten_ok_def)
  have idx: "idx < node_count os" "idx < length (nodes os)"
    using Suc.prems(2) trie_okD(3) [OF ok] by (simp_all add: at_node_def)
  have drop: "drop i x = x ! i # drop (Suc i) x" using i x(1) by (simp add: Cons_nth_drop_Suc)
  have "0 \<le> git__fromhex (x ! i)" using x(1,2) i by simp
  then obtain d where d: "git__fromhex (x ! i) = int d" "d < 16"
    using fromhex_range [of "x ! i"] by (metis nonneg_int_cases of_nat_less_numeral_iff)
  have len: "length (pre ! idx) = i" using Suc.prems(3) i x(1) by (simp add: hexval_def)
  have take: "take (Suc i) (hexval x) = take i (hexval x) @ [int d]"
    using i x(1) d(1) by (simp add: take_Suc_conv_app_nth hexval_def)
  have full: "hexval x = take i (hexval x) @ int d # hexval (drop (Suc i) x)"
    by (metis append_take_drop_id d(1) drop drop_map hexval_def list.map(2))
  have i40: "i < GIT_OID_HEXSZ" "git__fromhex (str_head (drop i x)) = int d" "tl (drop i x) = drop (Suc i) x"
    using i d drop by (simp_all add: GIT_OID_HEXSZ_def GIT_OID_RAWSZ_def str_head_def)
  note turn = add_loop_turn [OF i40(1,2) idx(2), of alloc is_leaf, unfolded i40(3)]
  have short: "length (pre ! idx) < 40" using len i by simp
  from turn_split_ok [where alloc = alloc, OF Suc.prems(1,2) alloc short] show ?case
  proof cases
    case (1 os1)
    then show ?thesis using i unfolding turn by (auto simp: added_def)
  next
    case (2 os1 pre1 ch)
    let ?m = "max m (int i + 1)"
    have ok1: "shorten_ok os1 pre1 S S None ?m" "trie_ok (nodes os1) (node_count os1) pre1 S S None ?m"
      using 2(2) len by (simp_all add: shorten_ok_def)
    have pre1: "pre1 ! idx = take i (hexval x)" using 2(3) Suc.prems(3) by simp
    have later: "added os S m (hexval x) i (add_loop alloc os2 j leaf (i + 1) (drop (Suc i) x))"
      if "shorten_ok os2 pre1 S S exc2 ?m" "at_node os2 pre1 j leaf exc2" "pre1 ! j = take (Suc i) (hexval x)"
        "min_length os2 = min_length os1" "node_count os2 = node_count os1" for os2 j leaf exc2
    proof (rule added_later [of os2 S ?m])
      show "added os2 S ?m (hexval x) (i + 1) (add_loop alloc os2 j leaf (i + 1) (drop (Suc i) x))"
        using Suc.hyps(1) [of "i + 1", OF _ that(1,2)] Suc.hyps(2) i that(3) by simp
    qed (use that(4,5) 2(6,7) i in simp_all)
    show ?thesis
    proof (cases "ch ! d = 0")
      case True
      have ok2: "shorten_ok os1 pre1 (insert (hexval x) S) S None ?m"
        by (rule shorten_ok_mono [OF ok1(1)]) auto
      have y: "pre1 ! idx @ int d # hexval (drop (Suc i) x) = hexval x" using full pre1 by simp
      have len1: "length (pre1 ! idx) + 1 + length (drop (Suc i) x) = 40" using pre1 i x(1) by (simp add: hexval_def)
      have hex: "\<forall>c \<in> set (drop (Suc i) x). 0 \<le> git__fromhex c" using x(2) by (auto dest: in_set_dropD)
      from push_leaf_ok [where alloc = alloc, OF ok2 alloc 2(5,4) d(2) True _ len1 hex, unfolded y, OF insertI1]
      show ?thesis
      proof cases
        case (1 os2)
        then show ?thesis using 2 True i unfolding turn by (auto simp: added_def)
      next
        case (2 os2)
        have m: "max ?m (int (length (pre1 ! idx)) + 1) = ?m" using pre1 i x(1) by (simp add: hexval_def)
        show ?thesis using 2 \<open>turn_split alloc os idx is_leaf = Some (os1, True)\<close> True i m
            \<open>nodes os1 ! idx = Children ch\<close> \<open>node_count os1 \<le> Suc (node_count os)\<close> \<open>min_length os1 = min_length os\<close>
          unfolding turn added_def by (intro exI [of _ os2] disjI2 exI [of _ i] exI) auto
      qed
    next
      case False
      then have "edge_ok (nodes os1) (node_count os1) pre1 None idx d (ch ! d)"
        using children_ok(3) [OF ok1(2) 2(5,4)] d(2) by simp
      then obtain j where j: "0 < j" "j < node_count os1" "pre1 ! j = take (Suc i) (hexval x)"
        "ch ! d = (if is_tail (nodes os1 ! j) then - int j else int j)"
        using pre1 take by (auto simp: edge_ok_def)
      show ?thesis
      proof (cases "is_tail (nodes os1 ! j)")
        case True
        let ?os2 = "os1\<lparr>nodes := (nodes os1)[idx := Children (ch[d := - (ch ! d)])]\<rparr>"
        have neg: "ch ! d < 0" "nat (- (ch ! d)) = j" using j True by auto
        have "shorten_ok ?os2 pre1 S S (Some j) ?m"
          using trie_ok_flip [OF ok1(2) 2(5,4) d(2) neg(1)] ok1(1) neg(2) by (simp add: shorten_ok_def)
        moreover have "j \<noteq> idx" using True 2(4) by auto
        then have "at_node ?os2 pre1 j True (Some j)" using True j(2) by (simp add: at_node_def)
        ultimately show ?thesis using later [of ?os2 "Some j" j True] j(3) neg 2(1,4) unfolding turn by simp
      next
        case False
        then have pos: "ch ! d = int j" "at_node os1 pre1 j False None" using j by (simp_all add: at_node_def)
        then show ?thesis using later [of os1 None j False, OF ok1(1)] j(1,3) 2(1,4) unfolding turn by simp
      qed
    qed
  qed
qed

section \<open>The length separates the stored ids\<close>

lemma prefix_of_node:
  assumes ok: "trie_ok ns N pre S T None m" and "j < N" "k < N" "k \<noteq> j" "pre ! j = pre ! k @ zs"
  shows "\<not> is_tail (ns ! k)"
  using assms(2,4,5)
proof (induction zs arbitrary: j rule: rev_induct)
  case Nil
  with same_prefix [OF ok \<open>j < N\<close> assms(3)] show ?case by simp
next
  case (snoc z zs)
  then have "0 < j" using trie_okD(4) [OF ok] by (cases j) auto
  then obtain p c ch where p: "p < N" "c < 16" "ns ! p = Children ch" "pre ! j = pre ! p @ [int c]"
    using trie_okD(7) [OF ok snoc.prems(1)] by (auto simp: has_parent_def)
  with snoc.prems have q: "pre ! p = pre ! k @ zs" by (metis append_assoc butlast_snoc)
  show ?case
  proof (cases "p = k")
    case True
    with p show ?thesis by simp
  next
    case False
    with snoc.IH [OF p(1) _ q] show ?thesis by auto
  qed
qed

lemma stored_separated:
  assumes ok: "trie_ok ns N pre S S None m" and xy: "x \<in> S" "y \<in> S" "take (nat m) x = take (nat m) y"
  shows "x = y"
proof -
  obtain j t where j: "j < N" "ns ! j = Tail t" "x = pre ! j @ hexval t"
    using trie_okD(8) [OF ok xy(1)] by (auto simp: stored_def)
  obtain k u where k: "k < N" "ns ! k = Tail u" "y = pre ! k @ hexval u"
    using trie_okD(8) [OF ok xy(2)] by (auto simp: stored_def)
  have le: "length (pre ! j) \<le> nat m" "length (pre ! k) \<le> nat m"
    using trie_okD(9) [OF ok j(1)] trie_okD(9) [OF ok k(1)] j(2) k(2) by auto
  have cut: "take n x = take n y" if "n \<le> nat m" for n
    using xy(3) that by (metis min.absorb1 take_take)
  have "j = k"
  proof (rule ccontr)
    assume "j \<noteq> k"
    show False
    proof (cases "length (pre ! j) \<le> length (pre ! k)")
      case True
      have "pre ! j = take (length (pre ! j)) (pre ! k)" using cut [OF le(1)] j(3) k(3) True by simp
      then have "pre ! k = pre ! j @ drop (length (pre ! j)) (pre ! k)" by (metis append_take_drop_id)
      with prefix_of_node [OF ok k(1) j(1)] \<open>j \<noteq> k\<close> j(2) show False by auto
    next
      case False
      have "pre ! k = take (length (pre ! k)) (pre ! j)" using cut [OF le(2)] j(3) k(3) False by simp
      then have "pre ! j = pre ! k @ drop (length (pre ! k)) (pre ! j)" by (metis append_take_drop_id)
      with prefix_of_node [OF ok j(1) k(1)] \<open>j \<noteq> k\<close> k(2) show False by auto
    qed
  qed
  with j k show ?thesis by simp
qed

section \<open>Adding a sequence of ids\<close>

definition hex_id :: "byte list \<Rightarrow> bool" where
  "hex_id x \<longleftrightarrow> length x = 40 \<and> (\<forall>c \<in> set x. 0 \<le> git__fromhex c)"

lemma root_not_tail: "trie_ok ns N pre S T exc m \<Longrightarrow> \<not> is_tail (ns ! 0)"
  using trie_okD(2,6) [of ns N pre S T exc m] by (fastforce simp: node_ok_def is_tail_def split: trie_node.splits)

lemma add_one:
  assumes ok: "shorten_ok os pre S S None (min_length os)" and x: "hex_id x" "hexval x \<notin> S" and alloc: "\<And>n. alloc n"
  shows "\<exists>os' r. git_oid_shorten_add alloc os (Some x) = Some (os', r) \<and>
    (r < 0 \<longrightarrow> r = - 1 \<and> full os' \<and> SHRT_MAX \<le> node_count os + 41) \<and>
    (0 \<le> r \<longrightarrow> r = min_length os' \<and> node_count os' \<le> node_count os + 41 \<and>
       (\<exists>pre'. shorten_ok os' pre' (insert (hexval x) S) (insert (hexval x) S) None (min_length os')))"
proof -
  have t: "trie_ok (nodes os) (node_count os) pre S S None (min_length os)" using ok by (simp add: shorten_ok_def)
  have "at_node os pre 0 False None" using root_not_tail [OF t] trie_okD(2) [OF t] by (simp add: at_node_def)
  moreover have "pre ! 0 = take 0 (hexval x)" using trie_okD(4) [OF t] by simp
  ultimately have a: "added os S (min_length os) (hexval x) 0 (add_loop alloc os 0 False 0 (drop 0 x))"
    by (intro add_loop_ok [OF _ _ x(2) alloc ok]) (use x(1) in \<open>simp_all add: hex_id_def\<close>)
  have nf: "\<not> full os" using ok by (simp add: shorten_ok_def)
  from a consider (full) os' where "add_loop alloc os 0 False 0 x = Some (os', None)" "full os'"
      "SHRT_MAX \<le> node_count os + 41"
    | (placed) os' i pre' where "add_loop alloc os 0 False 0 x = Some (os', Some i)"
      "shorten_ok os' pre' (insert (hexval x) S) (insert (hexval x) S) None (max (min_length os) (int i + 1))"
      "min_length os' = min_length os" "node_count os' \<le> node_count os + 41"
    by (auto simp: added_def)
  then show ?thesis
  proof cases
    case full
    with nf show ?thesis by (simp add: git_oid_shorten_add_def)
  next
    case placed
    let ?os = "if int i + 1 > min_length os' then os'\<lparr>min_length := int i + 1\<rparr> else os'"
    have m: "min_length ?os = max (min_length os) (int i + 1)" using placed(3) by auto
    have "git_oid_shorten_add alloc os (Some x) = Some (?os, min_length ?os)"
      using nf placed(1) by (simp add: git_oid_shorten_add_def Let_def)
    moreover have "shorten_ok ?os pre' (insert (hexval x) S) (insert (hexval x) S) None (min_length ?os)"
      using placed(2) m by (simp add: shorten_ok_def)
    moreover have "0 \<le> min_length ?os" using m by simp
    moreover have "node_count ?os \<le> node_count os + 41" using placed(4) by simp
    ultimately show ?thesis by fastforce
  qed
qed

fun shorten_all :: "(nat \<Rightarrow> bool) \<Rightarrow> git_oid_shorten \<Rightarrow> byte list list \<Rightarrow> (git_oid_shorten \<times> int) option" where
  "shorten_all alloc os [] = Some (os, min_length os)"
| "shorten_all alloc os (x # xs) =
     (case git_oid_shorten_add alloc os (Some x) of
        None \<Rightarrow> None
      | Some (os', r) \<Rightarrow> if r < 0 then Some (os', r) else shorten_all alloc os' xs)"

lemma shorten_all_ok:
  assumes "shorten_ok os pre S S None (min_length os)" "\<And>n. alloc n" "0 \<le> min_length os"
    and "\<forall>x \<in> set xs. hex_id x" "distinct (map hexval xs)" "hexval ` set xs \<inter> S = {}"
  shows "\<exists>os' r. shorten_all alloc os xs = Some (os', r) \<and>
    (r < 0 \<longrightarrow> full os' \<and> SHRT_MAX \<le> node_count os + 41 * length xs) \<and>
    (0 \<le> r \<longrightarrow> (\<exists>pre' S'. shorten_ok os' pre' S' S' None r \<and> S' = hexval ` set xs \<union> S))"
  using assms(1,3-6)
proof (induction xs arbitrary: os pre S)
  case Nil
  then show ?case by auto
next
  case (Cons x xs)
  obtain os1 r1 where 1: "git_oid_shorten_add alloc os (Some x) = Some (os1, r1)"
    "r1 < 0 \<longrightarrow> r1 = - 1 \<and> full os1 \<and> SHRT_MAX \<le> node_count os + 41"
    "0 \<le> r1 \<longrightarrow> r1 = min_length os1 \<and> node_count os1 \<le> node_count os + 41 \<and>
       (\<exists>pre'. shorten_ok os1 pre' (insert (hexval x) S) (insert (hexval x) S) None (min_length os1))"
    using add_one [where alloc = alloc, OF Cons.prems(1) _ _ assms(2), of x] Cons.prems(3,5) by auto
  show ?case
  proof (cases "r1 < 0")
    case True
    then have "shorten_all alloc os (x # xs) = Some (os1, r1)" using 1(1) by simp
    moreover have "full os1" "SHRT_MAX \<le> node_count os + 41 * length (x # xs)" using 1(2) True by auto
    moreover have "\<not> 0 \<le> r1" using True by simp
    ultimately show ?thesis by blast
  next
    case False
    then have "0 \<le> r1" by simp
    with 1(3) obtain pre1 where ok1: "shorten_ok os1 pre1 (insert (hexval x) S) (insert (hexval x) S) None (min_length os1)"
      "r1 = min_length os1" "node_count os1 \<le> node_count os + 41" by blast
    have rest: "\<forall>x \<in> set xs. hex_id x" "distinct (map hexval xs)" "hexval ` set xs \<inter> insert (hexval x) S = {}"
      using Cons.prems(3-5) by auto
    have "0 \<le> min_length os1" using False ok1(2) by simp
    from Cons.IH [OF ok1(1) this rest] obtain os' r where
      2: "shorten_all alloc os1 xs = Some (os', r)"
        "r < 0 \<longrightarrow> full os' \<and> SHRT_MAX \<le> node_count os1 + 41 * length xs"
        "0 \<le> r \<longrightarrow> (\<exists>pre' S'. shorten_ok os' pre' S' S' None r \<and> S' = hexval ` set xs \<union> insert (hexval x) S)"
      by blast
    have "shorten_all alloc os (x # xs) = Some (os', r)" using 1(1) 2(1) False by simp
    moreover have "hexval ` set (x # xs) \<union> S = hexval ` set xs \<union> insert (hexval x) S" by auto
    moreover have "full os' \<and> SHRT_MAX \<le> node_count os + 41 * length (x # xs)" if "r < 0"
      using 2(2) ok1(3) that by auto
    ultimately show ?thesis using 2(3) by (metis (no_types))
  qed
qed

lemma shorten_new_ok:
  assumes "alloc 16" "git_oid_shorten_new True alloc min_len = Some os"
  shows "shorten_ok os [[]] {} {} None (min_length os)" "min_length os = int min_len" "node_count os = 1"
proof -
  have os: "os = \<lparr>nodes = replicate 16 empty_node, node_count = 1, min_length = int min_len, full = False\<rparr>"
    using assms by (simp add: git_oid_shorten_new_def resize_trie_def)
  then show "min_length os = int min_len" "node_count os = 1" by simp_all
  have "replicate 16 empty_node ! 0 = empty_node" by simp
  then show "shorten_ok os [[]] {} {} None (min_length os)"
    by (simp add: os shorten_ok_def trie_ok_def node_ok_def empty_node_def SHRT_MAX_def)
qed

section \<open>Properties\<close>



end
