(* ===== verification/Delta_Apply.thy ===== *)
theory Delta_Apply
  imports Prelude "HOL-Library.Monad_Syntax"
begin

text \<open>
  \<open>libgit2-development/src/delta-apply.c\<close>: decoding a binary delta against its base object.
  A delta is the list of the bytes between \<open>delta\<close> and \<open>delta_end\<close>; every operation returns the
  bytes that are left.  \<open>Invalid\<close> is the code's own error return, \<open>Out_of_bounds\<close> a read the code
  performs outside the delta or the base, and \<open>Bad_shift\<close> a shift of a 32-bit integer by its width
  or more.
\<close>

section \<open>The decoder\<close>

datatype delta_error = Invalid | Out_of_bounds | Bad_shift | No_memory

text \<open>
  The size header: seven bits per byte, low bits first.  The shift happens in \<open>unsigned int\<close>, the
  result is collected in \<open>size_t\<close>.
\<close>

fun hdr_loop :: "byte list \<Rightarrow> u64 \<Rightarrow> nat \<Rightarrow> delta_error + u64 \<times> byte list" where
  "hdr_loop [] r shift = Inl Invalid"
| "hdr_loop (c # d) r shift =
     (if 32 \<le> shift then Inl Bad_shift
      else let r = r OR ucast (push_bit shift (ucast c AND 0x7f :: u32))
           in if c AND 0x80 \<noteq> 0 then hdr_loop d r (shift + 7) else Inr (r, d))"

definition hdr_sz :: "byte list \<Rightarrow> delta_error + u64 \<times> byte list" where
  "hdr_sz delta = hdr_loop delta 0 0"

definition git__delta_read_header :: "byte list \<Rightarrow> delta_error + u64 \<times> u64" where
  "git__delta_read_header delta =
     (case hdr_sz delta of
        Inl e \<Rightarrow> Inl e
      | Inr (base_sz, delta) \<Rightarrow>
          (case hdr_sz delta of Inl e \<Rightarrow> Inl e | Inr (res_sz, _) \<Rightarrow> Inr (base_sz, res_sz)))"

text \<open>
  One optional operand byte of a copy instruction.  The byte is promoted to \<open>int\<close>, shifted, and
  converted to \<open>size_t\<close>, which extends the sign of \<open>*delta++ << 24\<close>.
\<close>

definition operand :: "byte \<Rightarrow> byte \<Rightarrow> nat \<Rightarrow> u64 \<times> byte list \<Rightarrow> (u64 \<times> byte list) option" where
  "operand cmd flag shift vd =
     (if cmd AND flag = 0 then Some vd
      else case vd of
        (v, []) \<Rightarrow> None
      | (v, b # d) \<Rightarrow> Some (v OR scast (push_bit shift (ucast b :: u32)), d))"

definition copy_operands :: "byte \<Rightarrow> byte list \<Rightarrow> (u64 \<times> u64 \<times> byte list) option" where
  "copy_operands cmd delta = do {
     (off, delta) \<leftarrow> operand cmd 0x01 0 (0, delta);
     (off, delta) \<leftarrow> operand cmd 0x02 8 (off, delta);
     (off, delta) \<leftarrow> operand cmd 0x04 16 (off, delta);
     (off, delta) \<leftarrow> operand cmd 0x08 24 (off, delta);
     (len, delta) \<leftarrow> operand cmd 0x10 0 (0, delta);
     (len, delta) \<leftarrow> operand cmd 0x20 8 (len, delta);
     (len, delta) \<leftarrow> operand cmd 0x40 16 (len, delta);
     Some (off, if len = 0 then 0x10000 else len, delta) }"

lemma operand_length:
  "operand cmd flag shift (v, d) = Some (v', d') \<Longrightarrow> length d' \<le> length d"
  by (auto simp: operand_def split: if_splits list.splits)

lemma copy_operands_length:
  "copy_operands cmd d = Some (off, len, d') \<Longrightarrow> length d' \<le> length d"
  by (force simp: copy_operands_def split: bind_splits prod.splits dest!: operand_length)

text \<open>
  The instruction loop.  \<open>base\<close> is the base object, \<open>res_sz\<close> the room left in the result and
  \<open>res\<close> what has been written to it.
\<close>

function apply_loop :: "byte list \<Rightarrow> byte list \<Rightarrow> u64 \<Rightarrow> byte list \<Rightarrow> delta_error + byte list" where
  "apply_loop base [] res_sz res = (if res_sz = 0 then Inr res else Inl Invalid)"
| "apply_loop base (cmd # delta) res_sz res =
     (if cmd AND 0x80 \<noteq> 0 then
        (case copy_operands cmd delta of
           None \<Rightarrow> Inl Out_of_bounds
         | Some (off, len, delta) \<Rightarrow>
             if of_nat (length base) < off + len \<or> res_sz < len then Inl Invalid
             else if length base < unat off + unat len then Inl Out_of_bounds
             else apply_loop base delta (res_sz - len) (res @ take (unat len) (drop (unat off) base)))
      else if cmd \<noteq> 0 then
        (if length delta < unat cmd \<or> res_sz < ucast cmd then Inl Invalid
         else apply_loop base (drop (unat cmd) delta) (res_sz - ucast cmd) (res @ take (unat cmd) delta))
      else Inl Invalid)"
  by pat_completeness auto
termination
  by (relation "measure (\<lambda>(base, delta, res_sz, res). length delta)")
     (auto dest: copy_operands_length)

definition git__delta_apply :: "bool \<Rightarrow> byte list \<Rightarrow> byte list \<Rightarrow> delta_error + byte list" where
  "git__delta_apply alloc base delta =
     (case hdr_sz delta of
        Inl e \<Rightarrow> Inl e
      | Inr (base_sz, delta) \<Rightarrow>
          if base_sz \<noteq> of_nat (length base) then Inl Invalid
          else case hdr_sz delta of
            Inl e \<Rightarrow> Inl e
          | Inr (res_sz, delta) \<Rightarrow>
              if \<not> alloc then Inl No_memory else apply_loop base delta res_sz [])"

section \<open>Decoding sequences of instructions\<close>

text \<open>
  \<open>decodes base ops t\<close>: the complete instructions \<open>ops\<close> append \<open>t\<close> to the result.
\<close>

definition decodes :: "byte list \<Rightarrow> byte list \<Rightarrow> byte list \<Rightarrow> bool" where
  "decodes base ops t \<longleftrightarrow>
     (\<forall>rest n res. length t \<le> unat n \<longrightarrow>
        apply_loop base (ops @ rest) n res = apply_loop base rest (n - of_nat (length t)) (res @ t))"

lemma decodes_Nil [simp]: "decodes base [] []"
  by (simp add: decodes_def)

lemma unat_sub_of_nat:
  fixes n :: u64
  assumes "k \<le> unat n"
  shows "unat (n - of_nat k) = unat n - k"
proof -
  have "unat n < 2 ^ 64" using unsigned_less [of n, where 'a = nat] by simp
  with assms have "k < 2 ^ 64" by simp
  then have k: "unat (of_nat k :: u64) = k" by (simp add: unat_of_nat)
  then have "of_nat k \<le> n" using assms by (simp add: word_le_nat_alt)
  then show ?thesis by (simp add: unat_sub k)
qed

lemma decodes_append:
  assumes "decodes base ops t" "decodes base ops' t'"
  shows "decodes base (ops @ ops') (t @ t')"
  unfolding decodes_def
proof (intro allI impI)
  fix rest res and n :: u64 assume n: "length (t @ t') \<le> unat n"
  then have "length t' \<le> unat (n - of_nat (length t))" by (simp add: unat_sub_of_nat)
  with assms n show "apply_loop base ((ops @ ops') @ rest) n res =
      apply_loop base rest (n - of_nat (length (t @ t'))) (res @ t @ t')"
    by (simp add: decodes_def algebra_simps)
qed

lemma apply_decoded:
  assumes "decodes base ops t" "length t < 2 ^ 64"
  shows "apply_loop base ops (of_nat (length t)) [] = Inr t"
proof -
  have "apply_loop base (ops @ []) (of_nat (length t)) [] =
      apply_loop base [] (of_nat (length t) - of_nat (length t)) ([] @ t)"
    using assms(1) [unfolded decodes_def, rule_format, of "of_nat (length t)" "[]" "[]"] assms(2)
    by (simp add: unat_of_nat del: apply_loop.simps)
  then show ?thesis by simp
qed

lemma byte_less_128_and: "w AND 0x80 = 0" if "w < 0x80" for w :: byte
proof -
  have "\<not> bit (unat w) 7" using that by (simp add: bit_iff_odd word_less_nat_alt)
  then have "\<not> bit w 7" by (simp add: bit_unsigned_iff)
  then show ?thesis using and_exp_eq_0_iff_not_bit [of w 7] by simp
qed

lemma decodes_insert:
  assumes "0 < length lits" "length lits < 128"
  shows "decodes base (of_nat (length lits) # lits) lits"
proof -
  let ?c = "of_nat (length lits) :: byte"
  have c: "unat ?c = length lits" using assms(2) by (simp add: unat_of_nat)
  then have "?c AND 0x80 = 0" using assms(2) by (intro byte_less_128_and) (simp add: word_less_nat_alt)
  moreover have "?c \<noteq> 0" using c assms(1) by (metis unsigned_0 less_irrefl)
  moreover have "ucast ?c = (of_nat (length lits) :: u64)" 
    using assms(2) by (simp add: unsigned_of_nat take_bit_nat_eq_self)
  moreover have "\<not> n < of_nat (length lits)" if "length lits \<le> unat n" for n :: u64
    using that assms(2) by (simp add: not_less word_le_nat_alt unat_of_nat)
  ultimately show ?thesis by (simp add: decodes_def c)
qed

lemma operand_optional:
  assumes "cmd AND flag \<noteq> 0 \<longleftrightarrow> b \<noteq> 0"
  shows "operand cmd flag shift (v, (if b = 0 then [] else [b]) @ d) =
    Some (v OR scast (push_bit shift (ucast b :: u32)), d)"
  using assms by (auto simp: operand_def)

end
