(* ===== verification/Delta.thy ===== *)
theory Delta
  imports Delta_Apply
begin

text \<open>
  \<open>libgit2-development/src/delta.c\<close>: the index of a base object by the fingerprints of its
  16-byte blocks, and the encoder that finds copies of the base in a target with it.  Pointers into
  the two buffers are offsets, a bucket of the index is the list that its \<open>next\<close> pointers link, and
  \<open>None\<close> stands for an access outside the arrays the code has allocated.
\<close>

section \<open>Fingerprints\<close>

definition HASH_LIMIT :: nat where "HASH_LIMIT = 64"
definition RABIN_SHIFT :: nat where "RABIN_SHIFT = 23"
definition RABIN_WINDOW :: nat where "RABIN_WINDOW = 16"

definition T :: "u32 list" where
  "T = [
   0x00000000, 0xab59b4d1, 0x56b369a2, 0xfdeadd73, 0x063f6795, 0xad66d344, 0x508c0e37, 0xfbd5bae6,
   0x0c7ecf2a, 0xa7277bfb, 0x5acda688, 0xf1941259, 0x0a41a8bf, 0xa1181c6e, 0x5cf2c11d, 0xf7ab75cc,
   0x18fd9e54, 0xb3a42a85, 0x4e4ef7f6, 0xe5174327, 0x1ec2f9c1, 0xb59b4d10, 0x48719063, 0xe32824b2,
   0x1483517e, 0xbfdae5af, 0x423038dc, 0xe9698c0d, 0x12bc36eb, 0xb9e5823a, 0x440f5f49, 0xef56eb98,
   0x31fb3ca8, 0x9aa28879, 0x6748550a, 0xcc11e1db, 0x37c45b3d, 0x9c9defec, 0x6177329f, 0xca2e864e,
   0x3d85f382, 0x96dc4753, 0x6b369a20, 0xc06f2ef1, 0x3bba9417, 0x90e320c6, 0x6d09fdb5, 0xc6504964,
   0x2906a2fc, 0x825f162d, 0x7fb5cb5e, 0xd4ec7f8f, 0x2f39c569, 0x846071b8, 0x798aaccb, 0xd2d3181a,
   0x25786dd6, 0x8e21d907, 0x73cb0474, 0xd892b0a5, 0x23470a43, 0x881ebe92, 0x75f463e1, 0xdeadd730,
   0x63f67950, 0xc8afcd81, 0x354510f2, 0x9e1ca423, 0x65c91ec5, 0xce90aa14, 0x337a7767, 0x9823c3b6,
   0x6f88b67a, 0xc4d102ab, 0x393bdfd8, 0x92626b09, 0x69b7d1ef, 0xc2ee653e, 0x3f04b84d, 0x945d0c9c,
   0x7b0be704, 0xd05253d5, 0x2db88ea6, 0x86e13a77, 0x7d348091, 0xd66d3440, 0x2b87e933, 0x80de5de2,
   0x7775282e, 0xdc2c9cff, 0x21c6418c, 0x8a9ff55d, 0x714a4fbb, 0xda13fb6a, 0x27f92619, 0x8ca092c8,
   0x520d45f8, 0xf954f129, 0x04be2c5a, 0xafe7988b, 0x5432226d, 0xff6b96bc, 0x02814bcf, 0xa9d8ff1e,
   0x5e738ad2, 0xf52a3e03, 0x08c0e370, 0xa39957a1, 0x584ced47, 0xf3155996, 0x0eff84e5, 0xa5a63034,
   0x4af0dbac, 0xe1a96f7d, 0x1c43b20e, 0xb71a06df, 0x4ccfbc39, 0xe79608e8, 0x1a7cd59b, 0xb125614a,
   0x468e1486, 0xedd7a057, 0x103d7d24, 0xbb64c9f5, 0x40b17313, 0xebe8c7c2, 0x16021ab1, 0xbd5bae60,
   0x6cb54671, 0xc7ecf2a0, 0x3a062fd3, 0x915f9b02, 0x6a8a21e4, 0xc1d39535, 0x3c394846, 0x9760fc97,
   0x60cb895b, 0xcb923d8a, 0x3678e0f9, 0x9d215428, 0x66f4eece, 0xcdad5a1f, 0x3047876c, 0x9b1e33bd,
   0x7448d825, 0xdf116cf4, 0x22fbb187, 0x89a20556, 0x7277bfb0, 0xd92e0b61, 0x24c4d612, 0x8f9d62c3,
   0x7836170f, 0xd36fa3de, 0x2e857ead, 0x85dcca7c, 0x7e09709a, 0xd550c44b, 0x28ba1938, 0x83e3ade9,
   0x5d4e7ad9, 0xf617ce08, 0x0bfd137b, 0xa0a4a7aa, 0x5b711d4c, 0xf028a99d, 0x0dc274ee, 0xa69bc03f,
   0x5130b5f3, 0xfa690122, 0x0783dc51, 0xacda6880, 0x570fd266, 0xfc5666b7, 0x01bcbbc4, 0xaae50f15,
   0x45b3e48d, 0xeeea505c, 0x13008d2f, 0xb85939fe, 0x438c8318, 0xe8d537c9, 0x153feaba, 0xbe665e6b,
   0x49cd2ba7, 0xe2949f76, 0x1f7e4205, 0xb427f6d4, 0x4ff24c32, 0xe4abf8e3, 0x19412590, 0xb2189141,
   0x0f433f21, 0xa41a8bf0, 0x59f05683, 0xf2a9e252, 0x097c58b4, 0xa225ec65, 0x5fcf3116, 0xf49685c7,
   0x033df00b, 0xa86444da, 0x558e99a9, 0xfed72d78, 0x0502979e, 0xae5b234f, 0x53b1fe3c, 0xf8e84aed,
   0x17bea175, 0xbce715a4, 0x410dc8d7, 0xea547c06, 0x1181c6e0, 0xbad87231, 0x4732af42, 0xec6b1b93,
   0x1bc06e5f, 0xb099da8e, 0x4d7307fd, 0xe62ab32c, 0x1dff09ca, 0xb6a6bd1b, 0x4b4c6068, 0xe015d4b9,
   0x3eb80389, 0x95e1b758, 0x680b6a2b, 0xc352defa, 0x3887641c, 0x93ded0cd, 0x6e340dbe, 0xc56db96f,
   0x32c6cca3, 0x999f7872, 0x6475a501, 0xcf2c11d0, 0x34f9ab36, 0x9fa01fe7, 0x624ac294, 0xc9137645,
   0x26459ddd, 0x8d1c290c, 0x70f6f47f, 0xdbaf40ae, 0x207afa48, 0x8b234e99, 0x76c993ea, 0xdd90273b,
   0x2a3b52f7, 0x8162e626, 0x7c883b55, 0xd7d18f84, 0x2c043562, 0x875d81b3, 0x7ab75cc0, 0xd1eee811]"

definition U :: "u32 list" where
  "U = [
   0x00000000, 0x7eb5200d, 0x5633f4cb, 0x2886d4c6, 0x073e5d47, 0x798b7d4a, 0x510da98c, 0x2fb88981,
   0x0e7cba8e, 0x70c99a83, 0x584f4e45, 0x26fa6e48, 0x0942e7c9, 0x77f7c7c4, 0x5f711302, 0x21c4330f,
   0x1cf9751c, 0x624c5511, 0x4aca81d7, 0x347fa1da, 0x1bc7285b, 0x65720856, 0x4df4dc90, 0x3341fc9d,
   0x1285cf92, 0x6c30ef9f, 0x44b63b59, 0x3a031b54, 0x15bb92d5, 0x6b0eb2d8, 0x4388661e, 0x3d3d4613,
   0x39f2ea38, 0x4747ca35, 0x6fc11ef3, 0x11743efe, 0x3eccb77f, 0x40799772, 0x68ff43b4, 0x164a63b9,
   0x378e50b6, 0x493b70bb, 0x61bda47d, 0x1f088470, 0x30b00df1, 0x4e052dfc, 0x6683f93a, 0x1836d937,
   0x250b9f24, 0x5bbebf29, 0x73386bef, 0x0d8d4be2, 0x2235c263, 0x5c80e26e, 0x740636a8, 0x0ab316a5,
   0x2b7725aa, 0x55c205a7, 0x7d44d161, 0x03f1f16c, 0x2c4978ed, 0x52fc58e0, 0x7a7a8c26, 0x04cfac2b,
   0x73e5d470, 0x0d50f47d, 0x25d620bb, 0x5b6300b6, 0x74db8937, 0x0a6ea93a, 0x22e87dfc, 0x5c5d5df1,
   0x7d996efe, 0x032c4ef3, 0x2baa9a35, 0x551fba38, 0x7aa733b9, 0x041213b4, 0x2c94c772, 0x5221e77f,
   0x6f1ca16c, 0x11a98161, 0x392f55a7, 0x479a75aa, 0x6822fc2b, 0x1697dc26, 0x3e1108e0, 0x40a428ed,
   0x61601be2, 0x1fd53bef, 0x3753ef29, 0x49e6cf24, 0x665e46a5, 0x18eb66a8, 0x306db26e, 0x4ed89263,
   0x4a173e48, 0x34a21e45, 0x1c24ca83, 0x6291ea8e, 0x4d29630f, 0x339c4302, 0x1b1a97c4, 0x65afb7c9,
   0x446b84c6, 0x3adea4cb, 0x1258700d, 0x6ced5000, 0x4355d981, 0x3de0f98c, 0x15662d4a, 0x6bd30d47,
   0x56ee4b54, 0x285b6b59, 0x00ddbf9f, 0x7e689f92, 0x51d01613, 0x2f65361e, 0x07e3e2d8, 0x7956c2d5,
   0x5892f1da, 0x2627d1d7, 0x0ea10511, 0x7014251c, 0x5facac9d, 0x21198c90, 0x099f5856, 0x772a785b,
   0x4c921c31, 0x32273c3c, 0x1aa1e8fa, 0x6414c8f7, 0x4bac4176, 0x3519617b, 0x1d9fb5bd, 0x632a95b0,
   0x42eea6bf, 0x3c5b86b2, 0x14dd5274, 0x6a687279, 0x45d0fbf8, 0x3b65dbf5, 0x13e30f33, 0x6d562f3e,
   0x506b692d, 0x2ede4920, 0x06589de6, 0x78edbdeb, 0x5755346a, 0x29e01467, 0x0166c0a1, 0x7fd3e0ac,
   0x5e17d3a3, 0x20a2f3ae, 0x08242768, 0x76910765, 0x59298ee4, 0x279caee9, 0x0f1a7a2f, 0x71af5a22,
   0x7560f609, 0x0bd5d604, 0x235302c2, 0x5de622cf, 0x725eab4e, 0x0ceb8b43, 0x246d5f85, 0x5ad87f88,
   0x7b1c4c87, 0x05a96c8a, 0x2d2fb84c, 0x539a9841, 0x7c2211c0, 0x029731cd, 0x2a11e50b, 0x54a4c506,
   0x69998315, 0x172ca318, 0x3faa77de, 0x411f57d3, 0x6ea7de52, 0x1012fe5f, 0x38942a99, 0x46210a94,
   0x67e5399b, 0x19501996, 0x31d6cd50, 0x4f63ed5d, 0x60db64dc, 0x1e6e44d1, 0x36e89017, 0x485db01a,
   0x3f77c841, 0x41c2e84c, 0x69443c8a, 0x17f11c87, 0x38499506, 0x46fcb50b, 0x6e7a61cd, 0x10cf41c0,
   0x310b72cf, 0x4fbe52c2, 0x67388604, 0x198da609, 0x36352f88, 0x48800f85, 0x6006db43, 0x1eb3fb4e,
   0x238ebd5d, 0x5d3b9d50, 0x75bd4996, 0x0b08699b, 0x24b0e01a, 0x5a05c017, 0x728314d1, 0x0c3634dc,
   0x2df207d3, 0x534727de, 0x7bc1f318, 0x0574d315, 0x2acc5a94, 0x54797a99, 0x7cffae5f, 0x024a8e52,
   0x06852279, 0x78300274, 0x50b6d6b2, 0x2e03f6bf, 0x01bb7f3e, 0x7f0e5f33, 0x57888bf5, 0x293dabf8,
   0x08f998f7, 0x764cb8fa, 0x5eca6c3c, 0x207f4c31, 0x0fc7c5b0, 0x7172e5bd, 0x59f4317b, 0x27411176,
   0x1a7c5765, 0x64c97768, 0x4c4fa3ae, 0x32fa83a3, 0x1d420a22, 0x63f72a2f, 0x4b71fee9, 0x35c4dee4,
   0x1400edeb, 0x6ab5cde6, 0x42331920, 0x3c86392d, 0x133eb0ac, 0x6d8b90a1, 0x450d4467, 0x3bb8646a]"

definition rabin_step :: "u32 \<Rightarrow> byte \<Rightarrow> u32" where
  "rabin_step val b = (push_bit 8 val OR ucast b) XOR T ! unat (drop_bit RABIN_SHIFT val)"

definition fingerprint :: "byte list \<Rightarrow> u32" where
  "fingerprint bs = foldl rabin_step 0 bs"

section \<open>The index\<close>

record index_entry =
  ptr :: nat
  entry_val :: u32

record git_delta_index =
  memsize :: nat
  src_buf :: "byte list"
  src_size :: nat
  hash_mask :: u32
  buckets :: "index_entry list list"

function hsize_loop :: "nat \<Rightarrow> nat \<Rightarrow> nat" where
  "hsize_loop i hsize = (if i < 31 \<and> 2 ^ i < hsize then hsize_loop (Suc i) hsize else i)"
  by pat_completeness auto
termination
  by (relation "measure (\<lambda>(i, hsize). 31 - i)") auto

definition index_entries :: "nat \<Rightarrow> nat" where
  "index_entries bufsize =
     (if 0xffffffff \<le> bufsize then 0xfffffffe div RABIN_WINDOW
      else (bufsize - 1) mod 2 ^ 32 div RABIN_WINDOW)"

text \<open>
  The blocks are visited from the last to the first.  \<open>entry[-1]\<close>, the entry made last, is the head
  of the bucket of its own fingerprint, which is the current one when the two are equal.
\<close>

definition index_block ::
  "byte list \<Rightarrow> u32 \<Rightarrow> nat \<Rightarrow> u32 \<times> index_entry list list \<Rightarrow> (u32 \<times> index_entry list list) option" where
  "index_block buf hmask data st =
     (let (prev_val, hash) = st;
          val = fingerprint (take RABIN_WINDOW (drop (data + 1) buf));
          i = unat (val AND hmask)
      in if length buf \<le> data + RABIN_WINDOW \<or> length hash \<le> i then None
         else if val = prev_val then
           (case hash ! i of
              [] \<Rightarrow> None
            | e # es \<Rightarrow> Some (prev_val, hash[i := e\<lparr>ptr := data + RABIN_WINDOW\<rparr> # es]))
         else Some (val, hash[i := \<lparr>ptr = data + RABIN_WINDOW, entry_val = val\<rparr> # hash ! i]))"

fun index_loop ::
  "byte list \<Rightarrow> u32 \<Rightarrow> nat \<Rightarrow> u32 \<times> index_entry list list \<Rightarrow> (u32 \<times> index_entry list list) option" where
  "index_loop buf hmask 0 st = Some st"
| "index_loop buf hmask (Suc n) st = do {
     st \<leftarrow> index_block buf hmask (n * RABIN_WINDOW) st;
     index_loop buf hmask n st }"

text \<open>
  Thinning a bucket: \<open>skip\<close> is decremented before it is tested, so that a start value of 0 never
  stops the inner loop.
\<close>

fun skip_loop :: "int \<Rightarrow> 'a list \<Rightarrow> 'a list" where
  "skip_loop skip [] = []"
| "skip_loop skip (e # es) = (if skip - 1 \<noteq> 0 then skip_loop (skip - 1) es else e # es)"

lemma skip_loop_length: "length (skip_loop skip es) \<le> length es"
  by (induction skip es rule: skip_loop.induct) auto

function cull :: "nat \<Rightarrow> 'a list \<Rightarrow> 'a list" where
  "cull count [] = []"
| "cull count (e # es) = e # cull count (skip_loop (int (count div HASH_LIMIT div 2)) es)"
  by pat_completeness auto
termination
  by (relation "measure (\<lambda>(count, es). length es)") (auto simp: le_imp_less_Suc skip_loop_length)

definition limit_bucket :: "'a list \<Rightarrow> 'a list" where
  "limit_bucket es = (if length es < HASH_LIMIT then es else cull (length es) es)"

text \<open>
  The two allocations are parameters.  The outer \<open>None\<close> is an access outside the arrays, the inner
  one the null pointer.  On the 64-bit target the sizes of \<open>git_delta_index\<close>, of a bucket pointer
  and of \<open>index_entry\<close> are 32, 8 and 24 bytes.
\<close>

definition git_delta_create_index ::
  "bool \<Rightarrow> bool \<Rightarrow> byte list option \<Rightarrow> git_delta_index option option" where
  "git_delta_create_index mem_ok count_ok buf =
     (case buf of
        None \<Rightarrow> Some None
      | Some buf \<Rightarrow>
          let bufsize = length buf;
              entries = index_entries bufsize;
              hsize = 2 ^ hsize_loop 4 (entries div 4);
              hmask = of_nat (hsize - 1)
          in if bufsize = 0 \<or> \<not> mem_ok \<or> \<not> count_ok then Some None
             else do {
               (_, hash) \<leftarrow> index_loop buf hmask entries (NOT 0, replicate hsize []);
               Some (Some \<lparr>memsize = 32 + 8 * hsize + 24 * entries, src_buf = buf, src_size = bufsize,
                 hash_mask = hmask, buckets = map limit_bucket hash\<rparr>) })"

definition git_delta_sizeof_index :: "git_delta_index option \<Rightarrow> nat" where
  "git_delta_sizeof_index index = (case index of Some index \<Rightarrow> memsize index | None \<Rightarrow> 0)"

section \<open>The encoder\<close>

definition MAX_OP_SIZE :: nat where "MAX_OP_SIZE = 5 + 5 + 1 + RABIN_WINDOW + 7"

text \<open>
  \<open>out\<close> holds the first \<open>outpos\<close> bytes of the output buffer of \<open>outsize\<close> bytes.  A count or an
  opcode is stored after the bytes it announces: \<open>slot\<close> is what the buffer holds there before.
\<close>

definition put :: "nat \<Rightarrow> byte \<Rightarrow> byte list \<Rightarrow> byte list option" where
  "put outsize b out = (if length out < outsize then Some (out @ [b]) else None)"

definition poke :: "nat \<Rightarrow> int \<Rightarrow> byte \<Rightarrow> byte list \<Rightarrow> byte list option" where
  "poke outsize k b out =
     (if 0 \<le> k \<and> k < int outsize then Some (if k < int (length out) then out[nat k := b] else out) else None)"

fun store_size :: "nat \<Rightarrow> nat \<Rightarrow> byte list \<Rightarrow> byte list option" where
  "store_size outsize i out =
     (if 0x80 \<le> i then do { out \<leftarrow> put outsize (of_nat i OR 0x80) out; store_size outsize (i div 2 ^ 7) out }
      else put outsize (of_nat i) out)"

declare store_size.simps [simp del] hsize_loop.simps [simp del]

fun first_window :: "nat \<Rightarrow> byte list \<Rightarrow> u32 \<Rightarrow> byte list \<Rightarrow> (u32 \<times> byte list) option" where
  "first_window outsize [] val out = Some (val, out)"
| "first_window outsize (b # bs) val out = do {
     out \<leftarrow> put outsize b out;
     first_window outsize bs (rabin_step val b) out }"

text \<open>\<open>while (ref_size-- && *src++ == *ref) ref++;\<close>: the number of bytes \<open>ref\<close> advances.\<close>

fun match_loop :: "nat \<Rightarrow> byte list \<Rightarrow> byte list \<Rightarrow> nat \<Rightarrow> nat" where
  "match_loop 0 s r n = n"
| "match_loop (Suc ref_size) (a # s) (b # r) n = (if a = b then match_loop ref_size s r (Suc n) else n)"
| "match_loop (Suc ref_size) s r n = n"

definition ref_size :: "byte list \<Rightarrow> byte list \<Rightarrow> nat \<Rightarrow> index_entry \<Rightarrow> nat" where
  "ref_size src trg data e = min ((length src - ptr e) mod 2 ^ 32) ((length trg - data) mod 2 ^ 32)"

primrec search_bucket ::
  "byte list \<Rightarrow> byte list \<Rightarrow> nat \<Rightarrow> u32 \<Rightarrow> index_entry list \<Rightarrow> nat \<times> nat \<Rightarrow> nat \<times> nat" where
  "search_bucket src trg data val [] best = best"
| "search_bucket src trg data val (e # es) best =
     (if entry_val e \<noteq> val then search_bucket src trg data val es best
      else if ref_size src trg data e \<le> snd best then best
      else
        let n = match_loop (ref_size src trg data e) (drop data trg) (drop (ptr e) src) 0
        in if snd best < n then
             if 4096 \<le> n then (ptr e, n) else search_bucket src trg data val es (ptr e, n)
           else search_bucket src trg data val es best)"

text \<open>Extending a match backwards over the pending literal bytes.\<close>

fun match_back ::
  "byte list \<Rightarrow> byte list \<Rightarrow> nat \<Rightarrow> nat \<Rightarrow> nat \<Rightarrow> byte list \<Rightarrow> int \<Rightarrow> nat \<times> nat \<times> nat \<times> byte list \<times> int" where
  "match_back src trg 0 msize data out inscnt = (0, msize, data, out, inscnt)"
| "match_back src trg (Suc m) msize data out inscnt =
     (if src ! m = trg ! (data - 1) then
        (if inscnt - 1 \<noteq> 0 then match_back src trg m (msize + 1) (data - 1) (butlast out) (inscnt - 1)
         else (m, msize + 1, data - 1, butlast (butlast out), - 1))
      else (Suc m, msize, data, out, inscnt))"

text \<open>The copy instruction: the opcode with one flag per operand byte that is stored.\<close>

definition store_byte :: "nat \<Rightarrow> bool \<Rightarrow> byte \<Rightarrow> byte \<Rightarrow> byte list \<times> byte \<Rightarrow> (byte list \<times> byte) option" where
  "store_byte outsize c b flag st =
     (if c then do { out \<leftarrow> put outsize b (fst st); Some (out, snd st OR flag) } else Some st)"

definition store_copy :: "byte \<Rightarrow> nat \<Rightarrow> nat \<Rightarrow> nat \<Rightarrow> byte list \<Rightarrow> byte list option" where
  "store_copy slot outsize moff msize out = do {
     let op = int (length out);
     let st = (out @ [slot], 0x80);
     st \<leftarrow> store_byte outsize (moff AND 0x000000ff \<noteq> 0) (of_nat moff) 0x01 st;
     st \<leftarrow> store_byte outsize (moff AND 0x0000ff00 \<noteq> 0) (of_nat (drop_bit 8 moff)) 0x02 st;
     st \<leftarrow> store_byte outsize (moff AND 0x00ff0000 \<noteq> 0) (of_nat (drop_bit 16 moff)) 0x04 st;
     st \<leftarrow> store_byte outsize (moff AND 0xff000000 \<noteq> 0) (of_nat (drop_bit 24 moff)) 0x08 st;
     st \<leftarrow> store_byte outsize (msize AND 0x00ff \<noteq> 0) (of_nat msize) 0x10 st;
     st \<leftarrow> store_byte outsize (msize AND 0xff00 \<noteq> 0) (of_nat (drop_bit 8 msize)) 0x20 st;
     poke outsize op (snd st) (fst st) }"

record delta_state =
  out :: "byte list"
  outsize :: nat
  data :: nat
  inscnt :: int
  moff :: nat
  msize :: nat
  val :: u32

definition literal_step :: "byte \<Rightarrow> byte list \<Rightarrow> delta_state \<Rightarrow> delta_state option" where
  "literal_step slot trg s = do {
     let o1 = (if inscnt s = 0 then out s @ [slot] else out s);
     o2 \<leftarrow> put (outsize s) (trg ! data s) o1;
     let n = inscnt s + 1;
     if n = 0x7f then do {
       o3 \<leftarrow> poke (outsize s) (int (length o2) - n - 1) (word_of_int n) o2;
       Some (s\<lparr>out := o3, data := data s + 1, inscnt := 0, msize := 0\<rparr>) }
     else Some (s\<lparr>out := o2, data := data s + 1, inscnt := n, msize := 0\<rparr>) }"

definition flush_literals :: "byte list \<Rightarrow> byte list \<Rightarrow> delta_state \<Rightarrow> delta_state option" where
  "flush_literals src trg s =
     (if inscnt s \<noteq> 0 then
        case match_back src trg (moff s) (msize s) (data s) (out s) (inscnt s) of
          (moff', msize', data', out', n) \<Rightarrow> do {
            o2 \<leftarrow> poke (outsize s) (int (length out') - n - 1) (word_of_int n) out';
            Some (s\<lparr>out := o2, data := data', inscnt := 0, moff := moff', msize := msize'\<rparr>) }
      else Some s)"

definition copy_step :: "byte \<Rightarrow> byte list \<Rightarrow> byte list \<Rightarrow> delta_state \<Rightarrow> delta_state option" where
  "copy_step slot src trg s = do {
     s \<leftarrow> flush_literals src trg s;
     let left = (if msize s < 0x10000 then 0 else msize s - 0x10000);
     let n = msize s - left;
     o2 \<leftarrow> store_copy slot (outsize s) (moff s) n (out s);
     let d = data s + n;
     Some (s\<lparr>out := o2, data := d, moff := (moff s + n) mod 2 ^ 32, msize := left,
       val := (if left < 4096 then fingerprint (take RABIN_WINDOW (drop (d - RABIN_WINDOW) trg)) else val s)\<rparr>) }"

definition search_step :: "git_delta_index \<Rightarrow> byte list \<Rightarrow> delta_state \<Rightarrow> delta_state option" where
  "search_step index trg s =
     (if msize s < 4096 then
        let v = rabin_step (val s XOR U ! unat (trg ! (data s - RABIN_WINDOW))) (trg ! data s);
            i = unat (v AND hash_mask index)
        in if length (buckets index) \<le> i then None
           else case search_bucket (src_buf index) trg (data s) v (buckets index ! i) (moff s, msize s) of
             (moff', msize') \<Rightarrow> Some (s\<lparr>val := v, moff := moff', msize := msize'\<rparr>)
      else Some s)"

text \<open>
  Growing the buffer, in \<open>unsigned int\<close> arithmetic.  The outcome says whether the loop goes on, is
  left with \<open>break\<close>, or the function returns null because \<open>realloc\<close> fails.
\<close>

datatype grown = Go_on delta_state | Break_off delta_state | Grow_failed

definition grow_step :: "(nat \<Rightarrow> bool) \<Rightarrow> nat \<Rightarrow> delta_state \<Rightarrow> grown" where
  "grow_step alloc max_size s =
     (if outsize s - MAX_OP_SIZE \<le> length (out s) then
        let size1 = outsize s * 3 mod 2 ^ 32 div 2;
            size2 = (if max_size \<noteq> 0 \<and> max_size \<le> size1 then (max_size + MAX_OP_SIZE + 1) mod 2 ^ 32 else size1)
        in if max_size \<noteq> 0 \<and> max_size < length (out s) then Break_off s
           else if alloc size2 then Go_on (s\<lparr>outsize := size2\<rparr>) else Grow_failed
      else Go_on s)"

definition delta_step :: "byte \<Rightarrow> git_delta_index \<Rightarrow> byte list \<Rightarrow> delta_state \<Rightarrow> delta_state option" where
  "delta_step slot index trg s = do {
     s \<leftarrow> search_step index trg s;
     if msize s < 4 then literal_step slot trg s else copy_step slot (src_buf index) trg s }"

partial_function (option) delta_loop ::
  "(nat \<Rightarrow> bool) \<Rightarrow> byte \<Rightarrow> git_delta_index \<Rightarrow> byte list \<Rightarrow> nat \<Rightarrow> delta_state \<Rightarrow> delta_state option option" where
  "delta_loop alloc slot index trg max_size s =
     (if data s < length trg then do {
        s \<leftarrow> delta_step slot index trg s;
        (case grow_step alloc max_size s of
           Go_on s \<Rightarrow> delta_loop alloc slot index trg max_size s
         | Break_off s \<Rightarrow> Some (Some s)
         | Grow_failed \<Rightarrow> Some None) }
      else Some (Some s))"

definition delta_start :: "byte \<Rightarrow> git_delta_index \<Rightarrow> byte list \<Rightarrow> nat \<Rightarrow> delta_state option" where
  "delta_start slot index trg size0 = do {
     o1 \<leftarrow> store_size size0 (src_size index mod 2 ^ 32) [];
     o2 \<leftarrow> store_size size0 (length trg mod 2 ^ 32) o1;
     let w = take RABIN_WINDOW trg;
     (v, o3) \<leftarrow> first_window size0 w 0 (o2 @ [slot]);
     Some \<lparr>out = o3, outsize = size0, data = length w, inscnt = int (length w), moff = 0, msize = 0, val = v\<rparr> }"

definition git_delta_create ::
  "(nat \<Rightarrow> bool) \<Rightarrow> byte \<Rightarrow> git_delta_index \<Rightarrow> byte list option \<Rightarrow> nat \<Rightarrow> byte list option option" where
  "git_delta_create alloc slot index trg_buf max_size =
     (case trg_buf of
        None \<Rightarrow> Some None
      | Some trg \<Rightarrow>
          let size0 = (if max_size \<noteq> 0 \<and> max_size \<le> 8192 then (max_size + MAX_OP_SIZE + 1) mod 2 ^ 32 else 8192)
          in if trg = [] \<or> \<not> alloc size0 then Some None
             else do {
               s \<leftarrow> delta_start slot index trg size0;
               r \<leftarrow> delta_loop alloc slot index trg max_size s;
               (case r of
                  None \<Rightarrow> Some None
                | Some s \<Rightarrow> do {
                    o2 \<leftarrow> (if inscnt s \<noteq> 0
                           then poke (outsize s) (int (length (out s)) - inscnt s - 1) (word_of_int (inscnt s)) (out s)
                           else Some (out s));
                    if max_size \<noteq> 0 \<and> max_size < length o2 then Some None else Some (Some o2) }) })"

end
