(* ===== verification/Delta_Correct.thy ===== *)
theory Delta_Correct
  imports Delta
begin

text \<open>
  Correctness of the delta encoder: its instructions decode to the bytes they stand for, its loop
  keeps the output a delta of the part of the target it has read, and so what \<open>git_delta_create\<close>
  returns, \<open>git__delta_apply\<close> turns back into the target.
\<close>

section \<open>Size headers\<close>

fun size_bytes :: "nat \<Rightarrow> byte list" where
  "size_bytes n = (if 128 \<le> n then (of_nat n OR 0x80) # size_bytes (n div 128) else [of_nat n])"

declare size_bytes.simps [simp del]

lemma word_bit_numeral_80: "bit (0x80 :: byte) i \<longleftrightarrow> i = 7"
  using bit_exp_iff [of 7 i, where 'a = byte] by (auto simp del: bit_exp_iff)

lemma word_bit_numeral_7f: "bit (0x7f :: u32) i \<longleftrightarrow> i < 7"
proof -
  have "(0x7f :: u32) = mask 7" by (simp add: mask_eq_exp_minus_1)
  then show ?thesis by (simp only: bit_mask_iff) auto
qed

lemma bit_size_byte:
  "bit (ucast (of_nat n OR 0x80 :: byte) AND 0x7f :: u32) i \<longleftrightarrow> i < 7 \<and> bit n i"
  unfolding bit_and_iff bit_unsigned_iff bit_or_iff word_bit_numeral_80 word_bit_numeral_7f
  by (auto simp: bit_of_nat_iff)

lemma bit_last_byte:
  "bit (ucast (of_nat n :: byte) AND 0x7f :: u32) i \<longleftrightarrow> i < 7 \<and> bit n i"
  unfolding bit_and_iff bit_unsigned_iff word_bit_numeral_7f by (auto simp: bit_of_nat_iff)

lemma bit_below:
  fixes n :: nat
  assumes "n < 2 ^ (32 - s)" "bit n (i - s)" "s \<le> i" "s < 32"
  shows "i < 32"
proof (rule ccontr)
  assume "\<not> i < 32"
  then have "32 - s \<le> i - s" by simp
  with bit_nat_high [OF assms(1)] assms(2) show False by blast
qed

lemma size_byte_join:
  fixes n :: nat
  assumes w: "\<And>i. bit (w :: u32) i \<longleftrightarrow> i < 7 \<and> bit n i" and n: "n < 2 ^ (32 - s)" "s < 32"
  shows "ucast (push_bit s w) OR push_bit (s + 7) (of_nat (n div 128)) = push_bit s (of_nat n :: u64)"
proof (rule bit_word_eqI)
  fix i assume "i < LENGTH(64)"
  moreover have "n div 128 = drop_bit 7 n" by (simp add: drop_bit_eq_div)
  moreover have "i < 32" if "bit n (i - s)" "s \<le> i" using bit_below n that by blast
  moreover have "7 + (i - (s + 7)) = i - s" if "s + 7 \<le> i" using that by simp
  ultimately show "bit (ucast (push_bit s w) OR push_bit (s + 7) (of_nat (n div 128)) :: u64) i =
      bit (push_bit s (of_nat n :: u64)) i"
    by (cases "s + 7 \<le> i") (auto simp: bit_or_iff bit_push_bit_iff bit_unsigned_iff bit_of_nat_iff w bit_drop_bit_eq)
qed

lemma hdr_loop_size_bytes:
  assumes "shift < 32" "n < 2 ^ (32 - shift)"
  shows "hdr_loop (size_bytes n @ d) r shift = Inr (r OR push_bit shift (of_nat n), d)"
  using assms
proof (induction n arbitrary: r shift rule: size_bytes.induct)
  case (1 n)
  show ?case
  proof (cases "128 \<le> n")
    case True
    have "(2 :: nat) ^ 7 < 2 ^ (32 - shift)" using True 1(3) by simp
    then have s: "shift + 7 < 32" using power_less_imp_less_exp [of "2 :: nat" 7 "32 - shift"] by simp
    then have "n div 128 < 2 ^ (32 - (shift + 7))"
      using 1(3) power_add [of "2 :: nat" "32 - (shift + 7)" 7] by (intro less_mult_imp_div_less) simp
    note IH = 1(1) [OF True s this]
    have cont: "(of_nat n OR 0x80 :: byte) AND 0x80 \<noteq> 0"
      using and_exp_eq_0_iff_not_bit [of "of_nat n OR 0x80 :: byte" 7] by (simp add: bit_simps word_bit_numeral_80)
    have "ucast (push_bit shift (ucast (of_nat n OR 0x80 :: byte) AND 0x7f :: u32)) OR push_bit (shift + 7) (of_nat (n div 128)) =
        push_bit shift (of_nat n :: u64)"
      using size_byte_join [OF bit_size_byte 1(3,2)] .
    then show ?thesis using True 1(2) IH cont
      by (simp add: size_bytes.simps [of n] Let_def or.assoc)
  next
    case False
    then have "(of_nat n :: byte) AND 0x80 = 0"
      by (intro byte_less_128_and) (simp add: word_less_nat_alt unat_of_nat)
    moreover have "ucast (push_bit shift (ucast (of_nat n :: byte) AND 0x7f :: u32)) = (push_bit shift (of_nat n) :: u64)"
      using size_byte_join [OF bit_last_byte 1(3,2)] False by simp
    ultimately show ?thesis using False 1(2) by (simp add: size_bytes.simps [of n] Let_def)
  qed
qed

lemma hdr_sz_size_bytes:
  assumes "n < 2 ^ 32"
  shows "hdr_sz (size_bytes n @ d) = Inr (of_nat n, d)"
  using hdr_loop_size_bytes [of 0 n d 0] assms by (simp add: hdr_sz_def)

lemma store_size_bytes:
  assumes "length o1 + length (size_bytes n) \<le> sz"
  shows "store_size sz n o1 = Some (o1 @ size_bytes n)"
  using assms
proof (induction n arbitrary: o1 rule: size_bytes.induct)
  case (1 n)
  then show ?case
    by (cases "128 \<le> n") (simp_all add: store_size.simps [of sz n] size_bytes.simps [of n] put_def)
qed

lemma length_size_bytes: "n < 2 ^ (7 * Suc k) \<Longrightarrow> length (size_bytes n) \<le> Suc k"
proof (induction k arbitrary: n)
  case 0
  then show ?case by (simp add: size_bytes.simps [of n])
next
  case (Suc k)
  have "n div 128 < 2 ^ (7 * Suc k)" using Suc.prems by (simp add: power_add less_mult_imp_div_less)
  from Suc.IH [OF this] show ?case by (simp add: size_bytes.simps [of n])
qed

section \<open>Copy instructions\<close>

definition opt_byte :: "byte \<Rightarrow> byte list" where
  "opt_byte b = (if b = 0 then [] else [b])"

definition flag_of :: "byte \<Rightarrow> byte \<Rightarrow> byte" where
  "flag_of flag b = (if b = 0 then 0 else flag)"

definition copy_cmd :: "nat \<Rightarrow> nat \<Rightarrow> byte" where
  "copy_cmd off n = 0x80 OR flag_of 0x01 (of_nat off) OR flag_of 0x02 (of_nat (drop_bit 8 off)) OR
     flag_of 0x04 (of_nat (drop_bit 16 off)) OR flag_of 0x08 (of_nat (drop_bit 24 off)) OR
     flag_of 0x10 (of_nat n) OR flag_of 0x20 (of_nat (drop_bit 8 n))"

definition copy_op :: "nat \<Rightarrow> nat \<Rightarrow> byte list" where
  "copy_op off n = copy_cmd off n #
     opt_byte (of_nat off) @ opt_byte (of_nat (drop_bit 8 off)) @ opt_byte (of_nat (drop_bit 16 off)) @
     opt_byte (of_nat (drop_bit 24 off)) @ opt_byte (of_nat n) @ opt_byte (of_nat (drop_bit 8 n))"

lemma and_byte_mask: "x AND push_bit k 0xff \<noteq> 0 \<longleftrightarrow> (of_nat (drop_bit k x) :: byte) \<noteq> 0" for x :: nat
proof -
  have "(0xff :: nat) = mask 8" by (simp add: mask_eq_exp_minus_1)
  then have "x AND push_bit k 0xff = x AND push_bit k (mask 8)" by (simp only:)
  also have "\<dots> = push_bit k (take_bit 8 (drop_bit k x))"
    by (intro bit_eqI) (auto simp: bit_and_iff bit_push_bit_iff bit_mask_iff bit_take_bit_iff bit_drop_bit_eq)
  finally have "x AND push_bit k 0xff = push_bit k (take_bit 8 (drop_bit k x))" .
  moreover have "unat (of_nat (drop_bit k x) :: byte) = take_bit 8 (drop_bit k x)"
    by (simp add: unsigned_of_nat)
  then have "(of_nat (drop_bit k x) :: byte) = 0 \<longleftrightarrow> take_bit 8 (drop_bit k x) = 0"
    by (metis unsigned_0 unat_eq_zero)
  ultimately show ?thesis by (simp add: push_bit_eq_mult)
qed

lemma store_byte_room:
  assumes "length o1 < sz"
  shows "store_byte sz (b \<noteq> 0) b flag (o1, i) = Some (o1 @ opt_byte b, i OR flag_of flag b)"
  using assms by (simp add: store_byte_def put_def opt_byte_def flag_of_def)

lemma length_opt_byte: "length (opt_byte b) \<le> 1"
  by (simp add: opt_byte_def)

lemma store_copy_op:
  assumes "length o1 + 7 \<le> sz"
  shows "store_copy slot sz off n o1 = Some (o1 @ copy_op off n)"
proof -
  let ?b = "\<lambda>k x. opt_byte (of_nat (drop_bit k x))"
  have l: "length (?b k x) \<le> 1" for k x by (rule length_opt_byte)
  have "length (opt_byte (of_nat x)) \<le> 1" for x by (rule length_opt_byte)
  note l' = this
  have masks: "off AND 0xff \<noteq> 0 \<longleftrightarrow> (of_nat off :: byte) \<noteq> 0"
    "off AND 0xff00 \<noteq> 0 \<longleftrightarrow> (of_nat (drop_bit 8 off) :: byte) \<noteq> 0"
    "off AND 0xff0000 \<noteq> 0 \<longleftrightarrow> (of_nat (drop_bit 16 off) :: byte) \<noteq> 0"
    "off AND 0xff000000 \<noteq> 0 \<longleftrightarrow> (of_nat (drop_bit 24 off) :: byte) \<noteq> 0" for off :: nat
    using and_byte_mask [of off 0] and_byte_mask [of off 8] and_byte_mask [of off 16] and_byte_mask [of off 24]
    by (simp_all add: push_bit_eq_mult)
  note add_le_mono [OF l' add_le_mono [OF l [of 8] add_le_mono [OF l [of 16] l [of 24]]], of off off off off]
  then show ?thesis
    using assms l' [of n]
    unfolding store_copy_def masks Let_def
    by (simp add: store_byte_room poke_def copy_op_def copy_cmd_def list_update_append or.assoc)
qed

lemma operand_bits:
  assumes "off < 2 ^ 31" "s \<le> 24"
  shows "bit (scast (push_bit s (ucast (of_nat (drop_bit s off) :: byte) :: u32)) :: u64) i \<longleftrightarrow>
    s \<le> i \<and> i < s + 8 \<and> bit off i"
proof -
  have "\<not> bit off j" if "31 \<le> j" for j using bit_nat_high [OF assms(1) that] .
  then show ?thesis
    using assms(2) by (auto simp: bit_signed_iff bit_push_bit_iff bit_unsigned_iff bit_of_nat_iff bit_drop_bit_eq min_def)
qed

lemma off_operands:
  assumes "off < 2 ^ 31"
  shows "scast (push_bit 0 (ucast (of_nat off :: byte) :: u32)) OR
     scast (push_bit 8 (ucast (of_nat (drop_bit 8 off) :: byte) :: u32)) OR
     scast (push_bit 16 (ucast (of_nat (drop_bit 16 off) :: byte) :: u32)) OR
     scast (push_bit 24 (ucast (of_nat (drop_bit 24 off) :: byte) :: u32)) = (of_nat off :: u64)" (is "?l = _")
proof (rule bit_word_eqI)
  fix i assume "i < LENGTH(64)"
  moreover have "i < 31" if "bit off i" using bit_nat_high [OF assms, of i] that by (cases "i < 31") auto
  moreover have "bit ?l i \<longleftrightarrow> bit off i \<and> i < 32"
    using operand_bits [OF assms, of 0] operand_bits [OF assms, of 8] operand_bits [OF assms, of 16]
      operand_bits [OF assms, of 24] by (auto simp: bit_or_iff simp del: push_bit_0_id)
  ultimately show "bit ?l i = bit (of_nat off :: u64) i" by (auto simp: bit_of_nat_iff)
qed

lemma len_operands:
  assumes "n < 0x10000"
  shows "scast (push_bit 0 (ucast (of_nat n :: byte) :: u32)) OR
     scast (push_bit 8 (ucast (of_nat (drop_bit 8 n) :: byte) :: u32)) = (of_nat n :: u64)"
proof -
  have "n < 2 ^ 31" using assms by simp
  moreover have "drop_bit 16 n = 0" "drop_bit 24 n = 0" using assms by (simp_all add: drop_bit_eq_div)
  ultimately show ?thesis using off_operands [of n] by simp
qed

lemma cmd_flags:
  "copy_cmd off n AND 0x80 \<noteq> 0"
  "copy_cmd off n AND 0x01 \<noteq> 0 \<longleftrightarrow> (of_nat off :: byte) \<noteq> 0"
  "copy_cmd off n AND 0x02 \<noteq> 0 \<longleftrightarrow> (of_nat (drop_bit 8 off) :: byte) \<noteq> 0"
  "copy_cmd off n AND 0x04 \<noteq> 0 \<longleftrightarrow> (of_nat (drop_bit 16 off) :: byte) \<noteq> 0"
  "copy_cmd off n AND 0x08 \<noteq> 0 \<longleftrightarrow> (of_nat (drop_bit 24 off) :: byte) \<noteq> 0"
  "copy_cmd off n AND 0x10 \<noteq> 0 \<longleftrightarrow> (of_nat n :: byte) \<noteq> 0"
  "copy_cmd off n AND 0x20 \<noteq> 0 \<longleftrightarrow> (of_nat (drop_bit 8 n) :: byte) \<noteq> 0"
  "copy_cmd off n AND 0x40 = 0"
  by (simp_all add: copy_cmd_def flag_of_def)

lemma copy_operands_op:
  assumes "off < 2 ^ 31" "0 < n" "n \<le> 0x10000"
  shows "copy_operands (copy_cmd off n) (tl (copy_op off n) @ rest) = Some (of_nat off, of_nat n, rest)"
proof -
  note opt = operand_optional [where cmd = "copy_cmd off n", folded opt_byte_def]
  obtain l :: u64 where l: "scast (push_bit 0 (ucast (of_nat n :: byte) :: u32)) OR
      scast (push_bit 8 (ucast (of_nat (drop_bit 8 n) :: byte) :: u32)) = l" "(if l = 0 then 0x10000 else l) = of_nat n"
  proof (cases "n = 0x10000")
    case True
    then show ?thesis using that [of 0] by (simp add: drop_bit_eq_div)
  next
    case False
    then have n: "n < 0x10000" using assms(3) by simp
    then have "unat (of_nat n :: u64) = n" by (simp add: unat_of_nat)
    then have "(of_nat n :: u64) \<noteq> 0" using assms(2) by (metis unsigned_0 less_irrefl)
    then show ?thesis using that [of "of_nat n"] len_operands [OF n] by simp
  qed
  show ?thesis
    using off_operands [OF assms(1)] l
    by (simp add: copy_operands_def copy_op_def opt [OF cmd_flags(2)] opt [OF cmd_flags(3)] opt [OF cmd_flags(4)]
       opt [OF cmd_flags(5)] opt [OF cmd_flags(6)] opt [OF cmd_flags(7)] operand_def [of _ "0x40"] cmd_flags(8) or.assoc
       del: push_bit_0_id)
qed

lemma decodes_copy:
  assumes "off < 2 ^ 31" "0 < n" "n \<le> 0x10000" "off + n \<le> length base" "length base < 2 ^ 32"
  shows "decodes base (copy_op off n) (take n (drop off base))"
proof -
  have unat: "unat (of_nat off :: u64) = off" "unat (of_nat n :: u64) = n"
      "unat (of_nat (length base) :: u64) = length base" "unat (of_nat off + of_nat n :: u64) = off + n"
    using assms by (simp_all add: unat_of_nat flip: of_nat_add)
  have len: "length (take n (drop off base)) = n" using assms(4) by simp
  have op: "copy_op off n = copy_cmd off n # tl (copy_op off n)" by (simp add: copy_op_def)
  have "\<not> of_nat (length base) < (of_nat off + of_nat n :: u64)"
    using assms(4) by (simp add: word_less_nat_alt unat)
  moreover have "\<not> m < (of_nat n :: u64)" if "n \<le> unat m" for m
    using that by (simp add: word_less_nat_alt unat)
  ultimately show ?thesis
    using assms(4) unfolding decodes_def len
    by (subst op) (simp add: cmd_flags(1) copy_operands_op [OF assms(1-3)] unat)
qed

section \<open>The output between two steps\<close>

text \<open>
  \<open>pending src trg hdr o1 d lits\<close>: the output is the header, instructions that produce the target up to
  the pending literals \<open>lits\<close>, and, if there are any, a slot for their count and themselves.
\<close>

definition pending :: "byte list \<Rightarrow> byte list \<Rightarrow> byte list \<Rightarrow> byte list \<Rightarrow> nat \<Rightarrow> byte list \<Rightarrow> bool" where
  "pending src trg hdr o1 d lits \<longleftrightarrow>
     d \<le> length trg \<and> length lits \<le> 127 \<and> length lits \<le> d \<and> lits = drop (d - length lits) (take d trg) \<and>
     (\<exists>ops sl. o1 = hdr @ ops @ (if lits = [] then [] else sl # lits) \<and> decodes src ops (take (d - length lits) trg))"

lemma pending_Nil:
  "pending src trg hdr o1 d [] \<longleftrightarrow> d \<le> length trg \<and> (\<exists>ops. o1 = hdr @ ops \<and> decodes src ops (take d trg))"
  by (auto simp: pending_def)

lemma pending_count:
  assumes "pending src trg hdr o1 d lits" "lits \<noteq> []" "length o1 \<le> sz"
  shows "\<exists>o2. poke sz (int (length o1) - int (length lits) - 1) (word_of_int (int (length lits))) o1 = Some o2 \<and>
    pending src trg hdr o2 d [] \<and> length o2 = length o1"
proof -
  from assms(1,2) obtain ops sl where o: "o1 = hdr @ ops @ sl # lits" "decodes src ops (take (d - length lits) trg)"
    by (auto simp: pending_def)
  let ?o = "hdr @ ops @ of_nat (length lits) # lits"
  have "take (d - length lits) trg @ lits = take d trg"
    using assms(1) by (metis pending_def append_take_drop_id take_take diff_le_self min.absorb1)
  moreover have "decodes src (of_nat (length lits) # lits) lits"
    using assms by (intro decodes_insert) (auto simp: pending_def)
  ultimately have "decodes src (ops @ of_nat (length lits) # lits) (take d trg)"
    using decodes_append [OF o(2)] by metis
  then have "pending src trg hdr ?o d []" using assms(1) by (auto simp: pending_Nil pending_def)
  moreover have "poke sz (int (length o1) - int (length lits) - 1) (word_of_int (int (length lits))) o1 = Some ?o"
    using assms(3) by (simp add: poke_def o(1) nat_add_distrib list_update_append)
  ultimately show ?thesis using o(1) by auto
qed

lemma pending_literal:
  assumes "pending src trg hdr o1 d lits" "length lits < 127" "d < length trg"
  shows "pending src trg hdr ((if lits = [] then o1 @ [slot] else o1) @ [trg ! d]) (d + 1) (lits @ [trg ! d])"
proof -
  have "take (d + 1) trg = take d trg @ [trg ! d]" using assms(3) by (simp add: take_Suc_conv_app_nth)
  then show ?thesis using assms by (auto simp: pending_def)
qed

lemma pending_back:
  assumes "pending src trg hdr o1 d (lits @ [x])"
  shows "x = trg ! (d - 1)" and "0 < d"
    and "pending src trg hdr (if lits = [] then butlast (butlast o1) else butlast o1) (d - 1) lits"
proof -
  from assms obtain ops sl where o: "d \<le> length trg" "length lits < 127" "Suc (length lits) \<le> d"
    "lits @ [x] = drop (d - Suc (length lits)) (take d trg)" "o1 = hdr @ ops @ sl # lits @ [x]"
    "decodes src ops (take (d - Suc (length lits)) trg)"
    by (auto simp: pending_def)
  then show "0 < d" by simp
  then have d: "take d trg = take (d - 1) trg @ [trg ! (d - 1)]"
    using o(1) take_Suc_conv_app_nth [of "d - 1" trg] by simp
  then have "lits @ [x] = drop (d - Suc (length lits)) (take (d - 1) trg) @ [trg ! (d - 1)]"
    using o(1,3,4) by simp
  then have *: "lits = drop (d - 1 - length lits) (take (d - 1) trg)" "x = trg ! (d - 1)" by simp_all
  then show "x = trg ! (d - 1)" by simp
  show "pending src trg hdr (if lits = [] then butlast (butlast o1) else butlast o1) (d - 1) lits"
    using o(1,2,3,5,6) *(1) by (cases "lits = []") (auto simp: pending_def butlast_append)
qed

section \<open>Matches\<close>

definition match_ok :: "byte list \<Rightarrow> byte list \<Rightarrow> nat \<Rightarrow> nat \<Rightarrow> nat \<Rightarrow> bool" where
  "match_ok src trg d off n \<longleftrightarrow>
     n = 0 \<or> off + n \<le> length src \<and> d + n \<le> length trg \<and> take n (drop off src) = take n (drop d trg)"

lemma match_loop_ge: "n \<le> match_loop k s r n"
  by (induction k s r n rule: match_loop.induct) auto

lemma match_loop_ok:
  "match_loop k s r n = n + m \<Longrightarrow> m \<le> length s \<and> m \<le> length r \<and> take m s = take m r"
proof (induction k s r n arbitrary: m rule: match_loop.induct)
  case (2 k a s b r n)
  show ?case
  proof (cases "a = b")
    case True
    with 2(2) match_loop_ge [of "Suc n" k s r] obtain m' where "m = Suc m'" by (cases m) auto
    with 2 True show ?thesis by simp
  qed (use 2 in simp)
qed auto

lemma match_loop_match:
  assumes "d \<le> length trg" "off \<le> length src" "n = match_loop k (drop d trg) (drop off src) 0"
  shows "match_ok src trg d off n"
  using match_loop_ok [of k "drop d trg" "drop off src" 0 n] assms by (auto simp: match_ok_def)

lemma search_bucket_ok:
  assumes "\<forall>e \<in> set es. ptr e \<le> length src" "d \<le> length trg" "match_ok src trg d (fst best) (snd best)"
  shows "match_ok src trg d (fst (search_bucket src trg d v es best)) (snd (search_bucket src trg d v es best))"
  using assms
proof (induction es arbitrary: best)
  case (Cons e es)
  let ?n = "match_loop (ref_size src trg d e) (drop d trg) (drop (ptr e) src) 0"
  have "match_ok src trg d (ptr e) ?n" using Cons.prems by (intro match_loop_match) auto
  with Cons show ?case by (simp add: Let_def)
qed simp

lemma match_ok_back:
  assumes "match_ok src trg d (Suc m) n" "0 < n" "0 < d" "src ! m = trg ! (d - 1)"
  shows "match_ok src trg (d - 1) m (n + 1)"
proof -
  have "drop m src = src ! m # drop (Suc m) src" "drop (d - 1) trg = trg ! (d - 1) # drop d trg"
    using assms Cons_nth_drop_Suc [of m src] Cons_nth_drop_Suc [of "d - 1" trg] by (auto simp: match_ok_def)
  with assms show ?thesis by (auto simp: match_ok_def)
qed

lemma match_back_ok:
  assumes "pending src trg hdr o1 d lits" "lits \<noteq> []" "match_ok src trg d off n" "0 < n"
    and "match_back src trg off n d o1 (int (length lits)) = (off', n', d', o2, c)"
  shows "\<exists>lits' k. pending src trg hdr o2 d' lits' \<and> c = (if lits' = [] then - 1 else int (length lits')) \<and>
    match_ok src trg d' off' n' \<and> n' = n + k \<and> d = d' + k \<and> k \<le> length lits \<and> length o2 + k \<le> length o1"
  using assms
proof (induction off arbitrary: n d o1 lits)
  case 0
  then show ?case by (intro exI [of _ lits] exI [of _ 0]) auto
next
  case (Suc m)
  from Suc.prems(2) obtain l x where l: "lits = l @ [x]" by (meson rev_exhaust)
  have "pending src trg hdr o1 d (l @ [x])" using Suc.prems(1) l by simp
  note bk = pending_back [OF this]
  obtain ops sl where o1: "o1 = hdr @ ops @ sl # l @ [x]" using Suc.prems(1) l by (auto simp: pending_def)
  show ?case
  proof (cases "src ! m = trg ! (d - 1)")
    case True
    note ok = match_ok_back [OF Suc.prems(3,4) bk(2) True]
    show ?thesis
    proof (cases "l = []")
      case Nil: True
      show ?thesis
        using bk ok Suc.prems(5) True Nil l o1 by (intro exI [of _ "[]"] exI [of _ 1]) auto
    next
      case False
      have "match_back src trg m (n + 1) (d - 1) (butlast o1) (int (length l)) = (off', n', d', o2, c)"
        using Suc.prems(5) True l False by simp
      from Suc.IH [OF _ False ok _ this] bk(3) False obtain lits' k where
        "pending src trg hdr o2 d' lits'" "c = (if lits' = [] then - 1 else int (length lits'))"
        "match_ok src trg d' off' n'" "n' = n + 1 + k" "d - 1 = d' + k" "k \<le> length l" "length o2 + k \<le> length (butlast o1)"
        by auto
      then show ?thesis using bk(2) l o1 by (intro exI [of _ lits'] exI [of _ "k + 1"]) auto
    qed
  next
    case False
    then show ?thesis using Suc.prems by (intro exI [of _ lits] exI [of _ 0]) auto
  qed
qed

lemma match_ok_rest:
  assumes "match_ok src trg d off (n + m)"
  shows "match_ok src trg (d + n) (off + n) m"
proof (cases "n + m = 0")
  case False
  with assms have "take (n + m) (drop off src) = take (n + m) (drop d trg)" by (auto simp: match_ok_def)
  from arg_cong [OF this, of "drop n"] have "take m (drop (off + n) src) = take m (drop (d + n) trg)"
    by (simp add: drop_take add.commute)
  with assms False show ?thesis by (auto simp: match_ok_def)
qed (simp add: match_ok_def)

section \<open>Steps of the encoder\<close>

text \<open>What the encoder needs of an index of \<open>src\<close>: its entries point into the buffer.\<close>

definition index_ok :: "git_delta_index \<Rightarrow> byte list \<Rightarrow> bool" where
  "index_ok index src \<longleftrightarrow> src_buf index = src \<and> src_size index = length src \<and>
     (\<forall>v. unat (v AND hash_mask index) < length (buckets index)) \<and>
     (\<forall>es \<in> set (buckets index). \<forall>e \<in> set es. ptr e \<le> length src)"

definition delta_inv :: "byte list \<Rightarrow> byte list \<Rightarrow> byte list \<Rightarrow> delta_state \<Rightarrow> bool" where
  "delta_inv hdr src trg s \<longleftrightarrow>
     (\<exists>lits. pending src trg hdr (out s) (data s) lits \<and> inscnt s = int (length lits) \<and> length lits < 127) \<and>
     match_ok src trg (data s) (moff s) (msize s) \<and> length (out s) \<le> length hdr + 1 + 2 * data s"

lemma delta_invE:
  assumes "delta_inv hdr src trg s"
  obtains lits where "pending src trg hdr (out s) (data s) lits" "inscnt s = int (length lits)" "length lits < 127"
    "match_ok src trg (data s) (moff s) (msize s)" "length (out s) \<le> length hdr + 1 + 2 * data s"
  using assms by (auto simp: delta_inv_def)

lemma search_step_ok:
  assumes "index_ok index src" "delta_inv hdr src trg s" "data s < length trg"
  shows "\<exists>s'. search_step index trg s = Some s' \<and> delta_inv hdr src trg s' \<and> data s' = data s \<and>
    out s' = out s \<and> outsize s' = outsize s"
proof (cases "msize s < 4096")
  case True
  define v where "v = rabin_step (val s XOR U ! unat (trg ! (data s - RABIN_WINDOW))) (trg ! data s)"
  define es where "es = buckets index ! unat (v AND hash_mask index)"
  have i: "unat (v AND hash_mask index) < length (buckets index)" using assms(1) by (simp add: index_ok_def)
  then have "\<forall>e \<in> set es. ptr e \<le> length src" using assms(1) by (auto simp: index_ok_def es_def)
  then have ok: "match_ok src trg (data s) (fst (search_bucket src trg (data s) v es (moff s, msize s)))
      (snd (search_bucket src trg (data s) v es (moff s, msize s)))"
    using assms(2,3) by (intro search_bucket_ok) (auto simp: delta_inv_def)
  show ?thesis
    using True assms(1,2) i [folded not_le] ok
    by (cases "search_bucket src trg (data s) v es (moff s, msize s)")
       (auto simp: search_step_def Let_def index_ok_def delta_inv_def v_def [symmetric] es_def [symmetric])
qed (use assms in \<open>auto simp: search_step_def\<close>)

lemma literal_step_ok:
  assumes "delta_inv hdr src trg s" "data s < length trg" "length (out s) + 2 \<le> outsize s"
  shows "\<exists>s'. literal_step slot trg s = Some s' \<and> delta_inv hdr src trg s' \<and> data s < data s' \<and>
    outsize s' = outsize s \<and> length (out s') \<le> length (out s) + 7"
proof -
  from assms(1) obtain lits where l: "pending src trg hdr (out s) (data s) lits" "inscnt s = int (length lits)"
    "length lits < 127" "length (out s) \<le> length hdr + 1 + 2 * data s" by (rule delta_invE)
  let ?o = "if lits = [] then out s @ [slot] else out s" and ?l = "lits @ [trg ! data s]"
  have pend: "pending src trg hdr (?o @ [trg ! data s]) (data s + 1) ?l"
    using pending_literal [OF l(1,3) assms(2)] .
  have put: "put (outsize s) (trg ! data s) ?o = Some (?o @ [trg ! data s])"
    using assms(3) by (simp add: put_def)
  have len: "length (?o @ [trg ! data s]) \<le> outsize s" using assms(3) by simp
  have m: "match_ok src trg d off 0" for d off by (simp add: match_ok_def)
  show ?thesis
  proof (cases "length lits = 126")
    case True
    from pending_count [OF pend _ len] True obtain o3 where o3:
      "poke (outsize s) (int (length (?o @ [trg ! data s])) - 127 - 1) (word_of_int 127) (?o @ [trg ! data s]) = Some o3"
      "pending src trg hdr o3 (data s + 1) []" "length o3 = length (?o @ [trg ! data s])" by auto
    with True put l show ?thesis
      by (auto simp: literal_step_def Let_def delta_inv_def m split: if_splits)
  next
    case False
    with put pend l show ?thesis
      by (auto simp: literal_step_def Let_def delta_inv_def m intro!: exI [of _ ?l] split: if_splits)
  qed
qed

lemma flush_literals_ok:
  assumes "delta_inv hdr src trg s" "0 < msize s" "length (out s) + 2 \<le> outsize s"
  shows "\<exists>s' k. flush_literals src trg s = Some s' \<and> pending src trg hdr (out s') (data s') [] \<and> inscnt s' = 0 \<and>
    match_ok src trg (data s') (moff s') (msize s') \<and> msize s' = msize s + k \<and> data s = data s' + k \<and> k < 127 \<and>
    outsize s' = outsize s \<and> length (out s') + k \<le> length (out s)"
proof -
  from assms(1) obtain lits where l: "pending src trg hdr (out s) (data s) lits" "inscnt s = int (length lits)"
    "length lits < 127" "match_ok src trg (data s) (moff s) (msize s)" by (rule delta_invE)
  show ?thesis
  proof (cases "lits = []")
    case True
    with l show ?thesis by (intro exI [of _ s] exI [of _ 0]) (auto simp: flush_literals_def)
  next
    case False
    obtain off' n' d' o2 c where r: "match_back src trg (moff s) (msize s) (data s) (out s) (int (length lits)) = (off', n', d', o2, c)"
      by (metis prod_cases5)
    from match_back_ok [OF l(1) False l(4) assms(2) r] obtain lits' k where
      b: "pending src trg hdr o2 d' lits'" "c = (if lits' = [] then - 1 else int (length lits'))"
      "match_ok src trg d' off' n'" "n' = msize s + k" "data s = d' + k" "k \<le> length lits" "length o2 + k \<le> length (out s)"
      by blast
    have "\<exists>o3. poke (outsize s) (int (length o2) - c - 1) (word_of_int c) o2 = Some o3 \<and>
        pending src trg hdr o3 d' [] \<and> length o3 = length o2"
    proof (cases "lits' = []")
      case True
      with b assms(3) show ?thesis by (auto simp: poke_def)
    next
      case False
      then show ?thesis using pending_count [OF b(1) False, of "outsize s"] b(2,7) assms(3) by auto
    qed
    with r b False l show ?thesis by (auto simp: flush_literals_def)
  qed
qed

lemma length_copy_op: "length (copy_op off n) \<le> 7"
  by (simp add: copy_op_def opt_byte_def)

lemma copy_step_ok:
  assumes "delta_inv hdr src trg s" "4 \<le> msize s" "length (out s) + 8 \<le> outsize s" "length src < 2 ^ 31"
  shows "\<exists>s'. copy_step slot src trg s = Some s' \<and> delta_inv hdr src trg s' \<and> data s < data s' \<and>
    outsize s' = outsize s \<and> length (out s') \<le> length (out s) + 7"
proof -
  have "0 < msize s" "length (out s) + 2 \<le> outsize s" using assms(2,3) by simp_all
  from flush_literals_ok [OF assms(1) this] obtain s1 k where
    f: "flush_literals src trg s = Some s1" "pending src trg hdr (out s1) (data s1) []" "inscnt s1 = 0"
      "match_ok src trg (data s1) (moff s1) (msize s1)" "msize s1 = msize s + k" "data s = data s1 + k" "k < 127"
      "outsize s1 = outsize s" "length (out s1) + k \<le> length (out s)"
    by blast
  define left where "left = (if msize s1 < 0x10000 then 0 else msize s1 - 0x10000)"
  define n where "n = msize s1 - left"
  have n: "0 < n" "n \<le> 0x10000" "n + left = msize s1" "k + 4 \<le> n"
    using assms(2) f(5,7) by (auto simp: n_def left_def)
  have m: "moff s1 + msize s1 \<le> length src" "data s1 + msize s1 \<le> length trg"
      "take (msize s1) (drop (moff s1) src) = take (msize s1) (drop (data s1) trg)"
    using f(4,5) assms(2) by (auto simp: match_ok_def)
  have "take n (drop (moff s1) src) = take n (drop (data s1) trg)"
    using arg_cong [OF m(3), of "take n"] n(3) by (simp add: min_def)
  moreover have "decodes src (copy_op (moff s1) n) (take n (drop (moff s1) src))"
    using m(1) n assms(4) by (intro decodes_copy) auto
  ultimately have "pending src trg hdr (out s1 @ copy_op (moff s1) n) (data s1 + n) []"
    using f(2) m(2) n(3) by (auto simp: pending_Nil take_add intro: decodes_append)
  moreover have "store_copy slot (outsize s1) (moff s1) n (out s1) = Some (out s1 @ copy_op (moff s1) n)"
    using f(8,9) assms(3) by (intro store_copy_op) simp
  moreover have "(moff s1 + n) mod 2 ^ 32 = moff s1 + n" using m(1) n(3) assms(4) by simp
  moreover have "match_ok src trg (data s1 + n) (moff s1 + n) left"
    using match_ok_rest [of src trg "data s1" "moff s1" n left] f(4) n(3) by simp
  moreover have "length (out s1 @ copy_op (moff s1) n) \<le> length hdr + 1 + 2 * (data s1 + n)"
    using assms(1) f(6,9) n(4) length_copy_op [of "moff s1" n] by (simp add: delta_inv_def)
  ultimately show ?thesis
    using f(3,6,8,9) n length_copy_op [of "moff s1" n]
    unfolding copy_step_def f(1) Option.bind.bind_lunit Let_def left_def [symmetric] n_def [symmetric]
    by (auto simp: delta_inv_def)
qed

lemma delta_step_ok:
  assumes "index_ok index src" "delta_inv hdr src trg s" "data s < length trg"
    and "length (out s) + 8 \<le> outsize s" "length src < 2 ^ 31"
  shows "\<exists>s'. delta_step slot index trg s = Some s' \<and> delta_inv hdr src trg s' \<and> data s < data s' \<and>
    outsize s' = outsize s \<and> length (out s') \<le> length (out s) + 7"
proof -
  from search_step_ok [OF assms(1-3)] obtain s1 where s1: "search_step index trg s = Some s1"
    "delta_inv hdr src trg s1" "data s1 = data s" "out s1 = out s" "outsize s1 = outsize s" by blast
  then show ?thesis
    using literal_step_ok [of hdr src trg s1 slot] copy_step_ok [of hdr src trg s1 slot] assms
    by (cases "msize s1 < 4") (auto simp: delta_step_def index_ok_def)
qed

section \<open>The whole encoder\<close>

lemma MAX_OP_SIZE_eval: "MAX_OP_SIZE = 34"
  by (simp add: MAX_OP_SIZE_def RABIN_WINDOW_def)

lemma grow_step_ok:
  assumes "length (out s) < outsize s" "36 \<le> outsize s" "length (out s) \<le> 2 ^ 30 + 100" "max_size < 2 ^ 31"
  shows "case grow_step alloc max_size s of
      Go_on s' \<Rightarrow> (\<exists>n. s' = s\<lparr>outsize := n\<rparr> \<and> length (out s) + 8 \<le> n \<and> 36 \<le> n)
    | Break_off s' \<Rightarrow> s' = s \<and> max_size \<noteq> 0 \<and> max_size < length (out s)
    | Grow_failed \<Rightarrow> \<exists>n. \<not> alloc n"
proof (cases "outsize s - MAX_OP_SIZE \<le> length (out s)")
  case False
  then have "length (out s) + 8 \<le> outsize s" by (simp add: MAX_OP_SIZE_eval)
  with False assms(2) show ?thesis by (auto simp: grow_step_def intro: exI [of _ "outsize s"])
next
  case True
  then have "outsize s * 3 < 2 ^ 32" using assms(3) by (simp add: MAX_OP_SIZE_eval)
  then have "outsize s * 3 mod 2 ^ 32 div 2 \<ge> outsize s + 18" using assms(2) by simp
  moreover have "(max_size + MAX_OP_SIZE + 1) mod 2 ^ 32 = max_size + 35" using assms(4) by (simp add: MAX_OP_SIZE_eval)
  ultimately show ?thesis using True assms(1,2) by (auto simp: grow_step_def Let_def)
qed

lemma delta_inv_outsize [simp]: "delta_inv hdr src trg (s\<lparr>outsize := n\<rparr>) = delta_inv hdr src trg s"
  by (simp add: delta_inv_def)

lemma delta_loop_ok:
  assumes "index_ok index src" "length src < 2 ^ 31" "length trg < 2 ^ 29" "length hdr \<le> 10" "max_size < 2 ^ 31"
    and "delta_inv hdr src trg s" "length (out s) + 8 \<le> outsize s" "36 \<le> outsize s"
  shows "\<exists>r. delta_loop alloc slot index trg max_size s = Some r \<and>
    (case r of
       None \<Rightarrow> \<exists>n. \<not> alloc n
     | Some s' \<Rightarrow> delta_inv hdr src trg s' \<and> length (out s') \<le> outsize s' \<and>
         (data s' = length trg \<or> max_size \<noteq> 0 \<and> max_size < length (out s')))"
  using assms(6-8)
proof (induction "length trg - data s" arbitrary: s rule: less_induct)
  case less
  have le: "data s \<le> length trg" using less.prems(1) by (auto simp: delta_inv_def pending_def)
  show ?case
  proof (cases "data s < length trg")
    case False
    with le less.prems show ?thesis by (subst delta_loop.simps) simp
  next
    case True
    from delta_step_ok [OF assms(1) less.prems(1) True less.prems(2) assms(2)] obtain s1 where s1:
      "delta_step slot index trg s = Some s1" "delta_inv hdr src trg s1" "data s < data s1" "outsize s1 = outsize s"
      "length (out s1) \<le> length (out s) + 7" by blast
    have "data s1 \<le> length trg" using s1(2) by (auto simp: delta_inv_def pending_def)
    then have "length (out s1) \<le> 2 ^ 30 + 100" using s1(2) assms(3,4) by (simp add: delta_inv_def)
    note g = grow_step_ok [of s1, OF _ _ this assms(5), of alloc]
    show ?thesis
    proof (cases "grow_step alloc max_size s1")
      case (Go_on s2)
      with g s1 less.prems obtain n where n: "s2 = s1\<lparr>outsize := n\<rparr>" "length (out s1) + 8 \<le> n" "36 \<le> n" by auto
      then have "length trg - data s2 < length trg - data s" using True s1(3) by simp
      from less.hyps [OF this] n s1(2) show ?thesis
        using True s1(1) Go_on by (subst delta_loop.simps) auto
    next
      case (Break_off s2)
      with g s1 less.prems True show ?thesis by (subst delta_loop.simps) auto
    next
      case Grow_failed
      with g s1 less.prems True show ?thesis by (subst delta_loop.simps) auto
    qed
  qed
qed

lemma first_window_ok:
  "length o1 + length bs \<le> sz \<Longrightarrow> \<exists>v. first_window sz bs v0 o1 = Some (v, o1 @ bs)"
proof (induction bs arbitrary: o1 v0)
  case (Cons b bs)
  then show ?case using Cons.IH [of "o1 @ [b]" "rabin_step v0 b"] by (simp add: put_def)
qed simp

lemma delta_start_ok:
  assumes "src_size index = length src" "length src < 2 ^ 31" "length trg < 2 ^ 29" "trg \<noteq> []" "36 \<le> sz"
  defines "hdr \<equiv> size_bytes (length src) @ size_bytes (length trg)"
  shows "\<exists>s. delta_start slot index trg sz = Some s \<and> delta_inv hdr src trg s \<and>
    length (out s) + 8 \<le> outsize s \<and> outsize s = sz" and "length hdr \<le> 10"
proof -
  have sb: "length (size_bytes (length src)) \<le> 5" "length (size_bytes (length trg)) \<le> 5"
    using length_size_bytes [of _ 4] assms(2,3) by auto
  then show "length hdr \<le> 10" by (simp add: hdr_def)
  let ?w = "take RABIN_WINDOW trg"
  have w: "length ?w \<le> 16" "?w \<noteq> []" using assms(4) by (simp_all add: RABIN_WINDOW_def)
  obtain v where v: "first_window sz ?w 0 (hdr @ [slot]) = Some (v, hdr @ slot # ?w)"
    using first_window_ok [of "hdr @ [slot]" ?w sz 0] sb w assms(5) by (auto simp: hdr_def)
  let ?s = "\<lparr>out = hdr @ slot # ?w, outsize = sz, data = length ?w, inscnt = int (length ?w), moff = 0, msize = 0, val = v\<rparr>"
  have "delta_start slot index trg sz = Some ?s"
    using assms(1-3,5) sb v by (simp add: delta_start_def store_size_bytes hdr_def Let_def del: length_take)
  moreover have "pending src trg hdr (hdr @ slot # ?w) (length ?w) ?w"
    using w by (auto simp: pending_def min_def intro!: exI [of _ "[]"] exI [of _ slot])
  then have "delta_inv hdr src trg ?s"
    using w by (auto simp: delta_inv_def match_ok_def intro!: exI [of _ ?w])
  moreover have "length (out ?s) + 8 \<le> sz" using sb w assms(5) by (simp add: hdr_def)
  ultimately show "\<exists>s. delta_start slot index trg sz = Some s \<and> delta_inv hdr src trg s \<and>
    length (out s) + 8 \<le> outsize s \<and> outsize s = sz" by auto
qed

end
