(* ===== verification/Delta_Index.thy ===== *)
theory Delta_Index
  imports Delta_Correct
begin

text \<open>
  The index of a base object: fingerprints stay below \<open>2 ^ 31\<close>, so that the tables are never read
  out of range, every entry of the index describes the block of the base before it, and the encoder
  finds what it needs.  The properties of the delta components are at the end.
\<close>

section \<open>Fingerprints\<close>

lemma T_top: "list_all (\<lambda>(t, j). drop_bit 31 t = of_bool (odd j)) (zip T [0..<256]) \<and> length T = 256"
  by code_simp

lemma U_top: "list_all (\<lambda>u. drop_bit 31 u = 0) U \<and> length U = 256"
  by code_simp

lemma bit_31: "bit w 31 \<longleftrightarrow> drop_bit 31 w = 1" and not_bit_31: "\<not> bit w 31 \<longleftrightarrow> drop_bit 31 w = 0" for w :: u32
proof -
  have "drop_bit 31 w = of_bool (bit w 31)"
  proof (rule bit_word_eqI)
    fix n
    have "n = 0" if "bit w (31 + n)" using bit_imp_le_length [OF that] by simp
    then show "bit (drop_bit 31 w) n = bit (of_bool (bit w 31) :: u32) n"
      by (auto simp: bit_drop_bit_eq bit_of_bool_iff)
  qed
  then show "bit w 31 \<longleftrightarrow> drop_bit 31 w = 1" "\<not> bit w 31 \<longleftrightarrow> drop_bit 31 w = 0" by simp_all
qed

lemma T_bit: "j < 256 \<Longrightarrow> bit (T ! j) 31 \<longleftrightarrow> odd j"
  using T_top by (auto simp: bit_31 list_all_length)

lemma below_31: "\<not> bit w 31 \<longleftrightarrow> unat w < 2 ^ 31" for w :: u32
proof -
  have "unat (drop_bit 31 w) = unat w div 2 ^ 31" by (metis unat_drop_bit_eq drop_bit_eq_div)
  then show ?thesis by (metis not_bit_31 unat_eq_zero div_eq_0_iff power_not_zero zero_neq_numeral)
qed

lemma table_index:
  assumes "\<not> bit (v :: u32) 31"
  shows "unat (drop_bit RABIN_SHIFT v) < length T"
proof -
  have "unat (drop_bit RABIN_SHIFT v) = unat v div 2 ^ 23"
    unfolding RABIN_SHIFT_def by (metis unat_drop_bit_eq drop_bit_eq_div)
  moreover have "unat v < 2 ^ 23 * 256" using assms below_31 [of v] by simp
  ultimately show ?thesis using T_top by (simp add: less_mult_imp_div_less)
qed

lemma rabin_step_top:
  assumes "\<not> bit v 31"
  shows "\<not> bit (rabin_step v b) 31"
proof -
  have "bit (T ! unat (drop_bit RABIN_SHIFT v)) 31 \<longleftrightarrow> odd (unat (drop_bit RABIN_SHIFT v))"
    using T_bit table_index [OF assms] T_top by simp
  also have "\<dots> \<longleftrightarrow> bit v 23"
    by (simp add: RABIN_SHIFT_def unat_drop_bit_eq bit_iff_odd_drop_bit [of "unat v"] bit_unsigned_iff flip: bit_iff_odd_drop_bit)
  finally show ?thesis
    by (simp add: rabin_step_def bit_xor_iff bit_or_iff bit_push_bit_iff bit_unsigned_iff)
       (auto dest: bit_imp_le_length)
qed

lemma fingerprint_top: "\<not> bit (fingerprint bs) 31"
  by (induction bs rule: rev_induct) (simp_all add: fingerprint_def rabin_step_top)

section \<open>Populating the index\<close>

text \<open>An entry stands for the block of 16 bytes that ends with the byte it points to.\<close>

definition entry_ok :: "byte list \<Rightarrow> u32 \<Rightarrow> nat \<Rightarrow> index_entry \<Rightarrow> bool" where
  "entry_ok buf hmask i e \<longleftrightarrow> RABIN_WINDOW \<le> ptr e \<and> ptr e < length buf \<and> RABIN_WINDOW dvd ptr e \<and>
     entry_val e = fingerprint (take RABIN_WINDOW (drop (ptr e + 1 - RABIN_WINDOW) buf)) \<and>
     unat (entry_val e AND hmask) = i"

definition index_inv :: "byte list \<Rightarrow> u32 \<Rightarrow> nat \<Rightarrow> u32 \<times> index_entry list list \<Rightarrow> bool" where
  "index_inv buf hmask hsize st \<longleftrightarrow> length (snd st) = hsize \<and>
     (\<forall>i < hsize. \<forall>e \<in> set (snd st ! i). entry_ok buf hmask i e) \<and>
     (fst st = NOT 0 \<or> (\<exists>e es. snd st ! unat (fst st AND hmask) = e # es \<and> entry_val e = fst st))"

lemma index_block_ok:
  assumes "index_inv buf hmask hsize st" "\<And>v. unat (v AND hmask) < hsize" "d = n * RABIN_WINDOW"
    and "d + RABIN_WINDOW < length buf"
  shows "\<exists>st'. index_block buf hmask d st = Some st' \<and> index_inv buf hmask hsize st'"
proof -
  obtain prev hash where st [simp]: "st = (prev, hash)" by (cases st)
  let ?v = "fingerprint (take RABIN_WINDOW (drop (d + 1) buf))"
  let ?i = "unat (?v AND hmask)" and ?e = "\<lparr>ptr = d + RABIN_WINDOW, entry_val = ?v\<rparr>"
  have i: "?i < length hash" "length hash = hsize" using assms(1,2) by (simp_all add: index_inv_def)
  have e: "entry_ok buf hmask ?i ?e" using assms(3,4) by (simp add: entry_ok_def RABIN_WINDOW_def)
  have cut: "\<not> (length buf \<le> d + RABIN_WINDOW \<or> length hash \<le> ?i)" using assms(4) i(1) by simp
  show ?thesis
  proof (cases "?v = prev")
    case True
    then have "prev \<noteq> NOT 0" using fingerprint_top [of "take RABIN_WINDOW (drop (d + 1) buf)"] by (auto simp: bit_not_iff)
    with assms(1) True obtain e0 es where h: "hash ! ?i = e0 # es" "entry_val e0 = ?v" by (auto simp: index_inv_def)
    then have "e0\<lparr>ptr := d + RABIN_WINDOW\<rparr> = ?e" by simp
    then have "index_block buf hmask d st = Some (prev, hash[?i := ?e # es])"
      using cut True h(1) by (simp add: index_block_def Let_def)
    moreover have "index_inv buf hmask hsize (prev, hash[?i := ?e # es])"
      using assms(1) e h i True by (auto simp: index_inv_def nth_list_update)
    ultimately show ?thesis by blast
  next
    case False
    then have "index_block buf hmask d st = Some (?v, hash[?i := ?e # hash ! ?i])"
      using cut by (simp add: index_block_def Let_def)
    moreover have "index_inv buf hmask hsize (?v, hash[?i := ?e # hash ! ?i])"
      using assms(1) e i by (auto simp: index_inv_def nth_list_update)
    ultimately show ?thesis by blast
  qed
qed

lemma index_loop_ok:
  assumes "index_inv buf hmask hsize st" "\<And>v. unat (v AND hmask) < hsize" "n * RABIN_WINDOW < length buf"
  shows "\<exists>st'. index_loop buf hmask n st = Some st' \<and> index_inv buf hmask hsize st'"
  using assms(1,3)
proof (induction n arbitrary: st)
  case (Suc n)
  have "n * RABIN_WINDOW + RABIN_WINDOW < length buf" using Suc.prems(2) by simp
  from index_block_ok [OF Suc.prems(1) assms(2) refl this] obtain st1 where
    "index_block buf hmask (n * RABIN_WINDOW) st = Some st1" "index_inv buf hmask hsize st1" by blast
  with Suc.IH [of st1] Suc.prems(2) show ?case by simp
qed auto

lemma hsize_loop_bounds: "i \<le> 31 \<Longrightarrow> i \<le> hsize_loop i h \<and> hsize_loop i h \<le> 31"
  by (induction i h rule: hsize_loop.induct) (subst (1 2) hsize_loop.simps, auto)

lemma mask_index:
  assumes "k \<le> 31"
  shows "unat (v AND of_nat (2 ^ k - 1) :: u32) < 2 ^ k"
proof -
  have "(of_nat (2 ^ k - 1) :: u32) = mask k" by (simp add: mask_eq_exp_minus_1 of_nat_diff)
  then have "v AND of_nat (2 ^ k - 1) = take_bit k v" by (simp add: take_bit_eq_mask)
  moreover have "unat (take_bit k v) = take_bit k (unat v)" by (rule unsigned_take_bit_eq)
  ultimately show ?thesis by simp
qed

lemma set_skip_loop: "set (skip_loop skip es) \<subseteq> set es"
  by (induction skip es rule: skip_loop.induct) auto

lemma set_cull: "set (cull count es) \<subseteq> set es"
  by (induction count es rule: cull.induct) (use set_skip_loop in fastforce)+

lemma set_limit_bucket: "set (limit_bucket es) \<subseteq> set es"
  using set_cull [of "length es" es] by (auto simp: limit_bucket_def)

lemma index_entries_bound:
  assumes "buf \<noteq> []"
  shows "index_entries (length buf) * RABIN_WINDOW < length buf"
proof -
  have "(length buf - 1) mod 2 ^ 32 div 16 * 16 \<le> (length buf - 1) mod 2 ^ 32" by (rule div_times_less_eq_dividend)
  also have "\<dots> \<le> length buf - 1" by (rule mod_less_eq_dividend)
  also have "\<dots> < length buf" using assms by (cases buf) auto
  finally show ?thesis by (auto simp: index_entries_def RABIN_WINDOW_def)
qed

lemma create_index_ok:
  assumes "src \<noteq> []"
  shows "\<exists>index. git_delta_create_index True True (Some src) = Some (Some index) \<and> index_ok index src \<and>
    (\<forall>i < length (buckets index). \<forall>e \<in> set (buckets index ! i). entry_ok src (hash_mask index) i e)"
proof -
  let ?k = "hsize_loop 4 (index_entries (length src) div 4)"
  let ?m = "of_nat (2 ^ ?k - 1) :: u32"
  have k: "?k \<le> 31" using hsize_loop_bounds [of 4] by simp
  have "index_inv src ?m (2 ^ ?k) (NOT 0, replicate (2 ^ ?k) [])" by (simp add: index_inv_def)
  from index_loop_ok [OF this mask_index [OF k] index_entries_bound [OF assms]] obtain prev hash where
    h: "index_loop src ?m (index_entries (length src)) (NOT 0, replicate (2 ^ ?k) []) = Some (prev, hash)"
      "index_inv src ?m (2 ^ ?k) (prev, hash)" by (metis surj_pair)
  have e: "entry_ok src ?m i e" if "i < 2 ^ ?k" "e \<in> set (limit_bucket (hash ! i))" for i e
    using h(2) that set_limit_bucket by (fastforce simp: index_inv_def)
  have len: "length hash = 2 ^ ?k" using h(2) by (simp add: index_inv_def)
  then have "ptr e \<le> length src" if "es \<in> set hash" "e \<in> set (limit_bucket es)" for e es
    using that e by (metis entry_ok_def in_set_conv_nth less_imp_le)
  then show ?thesis
    using assms h(1) e len mask_index [OF k] by (auto simp: git_delta_create_index_def Let_def index_ok_def)
qed

lemma delta_finish:
  assumes "delta_inv hdr src trg s" "length (out s) \<le> outsize s"
  shows "\<exists>o2. (if inscnt s \<noteq> 0
      then poke (outsize s) (int (length (out s)) - inscnt s - 1) (word_of_int (inscnt s)) (out s)
      else Some (out s)) = Some o2 \<and> pending src trg hdr o2 (data s) [] \<and> length o2 = length (out s)"
proof -
  from assms(1) obtain lits where l: "pending src trg hdr (out s) (data s) lits" "inscnt s = int (length lits)"
    by (rule delta_invE)
  then show ?thesis using pending_count [OF l(1) _ assms(2)] by (cases "lits = []") auto
qed

lemma apply_delta:
  assumes "pending src trg (size_bytes (length src) @ size_bytes (length trg)) o2 (length trg) []"
    and "length src < 2 ^ 31" "length trg < 2 ^ 29"
  shows "git__delta_apply True src o2 = Inr trg"
    and "git__delta_read_header o2 = Inr (of_nat (length src), of_nat (length trg))"
proof -
  from assms(1) obtain ops where o: "o2 = size_bytes (length src) @ size_bytes (length trg) @ ops" "decodes src ops trg"
    by (auto simp: pending_Nil)
  from assms(2,3) apply_decoded [OF o(2)]
  show "git__delta_apply True src o2 = Inr trg"
    "git__delta_read_header o2 = Inr (of_nat (length src), of_nat (length trg))"
    by (simp_all add: git__delta_apply_def git__delta_read_header_def o(1) hdr_sz_size_bytes)
qed

lemma delta_create_ok:
  assumes "index_ok index src" "trg \<noteq> []" "length src < 2 ^ 31" "length trg < 2 ^ 29" "max_size < 2 ^ 31"
  shows "\<exists>r. git_delta_create alloc slot index (Some trg) max_size = Some r \<and>
    (\<forall>delta. r = Some delta \<longrightarrow> (max_size = 0 \<or> length delta \<le> max_size) \<and>
       pending src trg (size_bytes (length src) @ size_bytes (length trg)) delta (length trg) []) \<and>
    (r = None \<longrightarrow> (\<exists>n. \<not> alloc n) \<or> max_size \<noteq> 0)"
proof -
  define sz where "sz = (if max_size \<noteq> 0 \<and> max_size \<le> 8192 then (max_size + MAX_OP_SIZE + 1) mod 2 ^ 32 else 8192)"
  let ?hdr = "size_bytes (length src) @ size_bytes (length trg)"
  have sz: "36 \<le> sz" by (auto simp: sz_def MAX_OP_SIZE_eval)
  have src: "src_size index = length src" using assms(1) by (simp add: index_ok_def)
  note start = delta_start_ok [OF src assms(3,4,2) sz]
  from start(1) obtain s where s: "delta_start slot index trg sz = Some s" "delta_inv ?hdr src trg s"
    "length (out s) + 8 \<le> outsize s" "outsize s = sz" by blast
  from delta_loop_ok [OF assms(1,3,4) start(2) assms(5) s(2,3), of alloc slot] sz s(4) obtain r where
    r: "delta_loop alloc slot index trg max_size s = Some r"
      "case r of None \<Rightarrow> \<exists>n. \<not> alloc n
       | Some s' \<Rightarrow> delta_inv ?hdr src trg s' \<and> length (out s') \<le> outsize s' \<and>
           (data s' = length trg \<or> max_size \<noteq> 0 \<and> max_size < length (out s'))" by auto
  have create: "git_delta_create alloc slot index (Some trg) max_size =
    (if \<not> alloc sz then Some None else
       case r of None \<Rightarrow> Some None
       | Some s \<Rightarrow> do {
           o2 \<leftarrow> (if inscnt s \<noteq> 0
                 then poke (outsize s) (int (length (out s)) - inscnt s - 1) (word_of_int (inscnt s)) (out s)
                 else Some (out s));
           if max_size \<noteq> 0 \<and> max_size < length o2 then Some None else Some (Some o2) })"
    using assms(2) s(1) r(1) unfolding git_delta_create_def sz_def [symmetric]
    by (cases r) (simp_all add: Let_def)
  show ?thesis
  proof (cases r)
    case None
    with create r(2) show ?thesis by auto
  next
    case (Some s')
    with r(2) have i: "delta_inv ?hdr src trg s'" "length (out s') \<le> outsize s'"
      "data s' = length trg \<or> max_size \<noteq> 0 \<and> max_size < length (out s')" by auto
    from delta_finish [OF i(1,2)] obtain o2 where o2: "(if inscnt s' \<noteq> 0
      then poke (outsize s') (int (length (out s')) - inscnt s' - 1) (word_of_int (inscnt s')) (out s')
      else Some (out s')) = Some o2" "pending src trg ?hdr o2 (data s') []" "length o2 = length (out s')" by blast
    show ?thesis
      using create i(3) o2(2,3) unfolding Some option.case o2(1) by (auto simp: not_less)
  qed
qed

lemma apply_loop_length:
  "apply_loop base delta n res = Inr r \<Longrightarrow> \<exists>t. r = res @ t \<and> length t = unat n"
proof (induction base delta n res arbitrary: r rule: apply_loop.induct)
  case (1 base n res)
  then show ?case by (auto split: if_splits)
next
  case (2 base cmd delta n res)
  show ?case
  proof (cases "cmd AND 0x80 \<noteq> 0")
    case True
    with "2.prems" obtain off len d where c: "copy_operands cmd delta = Some (off, len, d)"
      "\<not> n < len" "unat off + unat len \<le> length base"
      "apply_loop base d (n - len) (res @ take (unat len) (drop (unat off) base)) = Inr r"
      by (auto split: option.splits if_splits)
    then have "length (take (unat len) (drop (unat off) base)) = unat len" "unat len + unat (n - len) = unat n"
      by (simp_all add: unat_sub word_le_nat_alt not_less)
    moreover have "\<exists>t. r = (res @ take (unat len) (drop (unat off) base)) @ t \<and> length t = unat (n - len)"
      using "2.IH"(1) [OF True c(1) refl refl _ _ c(4)] "2.prems" c True by (auto split: if_splits)
    ultimately show ?thesis by (metis append.assoc length_append)
  next
    case False
    with "2.prems" have c: "cmd \<noteq> 0" "unat cmd \<le> length delta" "\<not> n < ucast cmd"
      "apply_loop base (drop (unat cmd) delta) (n - ucast cmd) (res @ take (unat cmd) delta) = Inr r"
      by (auto split: if_splits)
    have "unat cmd < 2 ^ 64" using unsigned_less [of cmd, where 'a = nat] by simp
    then have "unat (ucast cmd :: u64) = unat cmd" by (simp add: unsigned_ucast_eq take_bit_nat_eq_self)
    then have "length (take (unat cmd) delta) + unat (n - ucast cmd) = unat n"
      using c(2,3) by (simp add: unat_sub not_less word_le_nat_alt)
    moreover have "\<exists>t. r = (res @ take (unat cmd) delta) @ t \<and> length t = unat (n - ucast cmd)"
      using "2.IH"(2) [OF False c(1) _ c(4)] c by auto
    ultimately show ?thesis by (metis append.assoc length_append)
  qed
qed

lemma skip_loop_all: "skip \<le> 0 \<Longrightarrow> skip_loop skip es = []"
  by (induction skip es rule: skip_loop.induct) auto

lemma skip_loop_one: "skip_loop 1 es = es"
  by (cases es) auto

lemma cull_one: "count div HASH_LIMIT div 2 = 1 \<Longrightarrow> cull count es = es"
  by (induction es) (simp_all add: skip_loop_one)

section \<open>Properties\<close>

text \<open>
  (C22) Encoding and decoding are inverse.  With the index of a base below 2 GiB, the encoder never
  accesses memory outside its buffers, and it ends; the delta it returns for a target below 512 MiB
  names the two sizes, decodes to the target, and respects the size limit.  It returns null only for a
  failed allocation or a delta above the limit.
\<close>

theorem git_delta_roundtrip:
  assumes "src \<noteq> []" "trg \<noteq> []" "length src < 2 ^ 31" "length trg < 2 ^ 29" "max_size < 2 ^ 31"
    and "git_delta_create_index True True (Some src) = Some (Some index)"
  shows "\<exists>r. git_delta_create alloc slot index (Some trg) max_size = Some r \<and>
    (\<forall>delta. r = Some delta \<longrightarrow>
       git__delta_apply True src delta = Inr trg \<and>
       git__delta_read_header delta = Inr (of_nat (length src), of_nat (length trg)) \<and>
       (max_size = 0 \<or> length delta \<le> max_size)) \<and>
    (r = None \<longrightarrow> (\<exists>n. \<not> alloc n) \<or> max_size \<noteq> 0)"
proof -
  have "index_ok index src" using create_index_ok [OF assms(1)] assms(6) by auto
  from delta_create_ok [OF this assms(2-5), of alloc slot] apply_delta [OF _ assms(3,4)]
  show ?thesis by blast
qed

theorem git_delta_roundtrip_witness:
  "\<exists>index delta. git_delta_create_index True True (Some [7, 7, 7]) = Some (Some index) \<and>
     git_delta_create (\<lambda>_. True) 0 index (Some [7, 8]) 0 = Some (Some delta) \<and>
     git__delta_apply True [7, 7, 7] delta = Inr [7, 8]"
proof -
  obtain index where index: "git_delta_create_index True True (Some [7, 7, 7]) = Some (Some index)"
    using create_index_ok [of "[7, 7, 7]"] by auto
  from git_delta_roundtrip [OF _ _ _ _ _ index, of "[7, 8]" 0 "\<lambda>_. True" 0] index show ?thesis by auto
qed

text \<open>
  (C29) The index describes the base: it is built without an access outside its arrays, every entry is
  in the bucket of its fingerprint and points to the last byte of a block of the base that has it.
\<close>

theorem git_delta_create_index_correct:
  assumes "src \<noteq> []"
  shows "\<exists>index. git_delta_create_index True True (Some src) = Some (Some index) \<and> src_buf index = src \<and>
    (\<forall>v. unat (v AND hash_mask index) < length (buckets index)) \<and>
    (\<forall>i < length (buckets index). \<forall>e \<in> set (buckets index ! i).
       RABIN_WINDOW \<le> ptr e \<and> ptr e < length src \<and>
       entry_val e = fingerprint (take RABIN_WINDOW (drop (ptr e + 1 - RABIN_WINDOW) src)) \<and>
       unat (entry_val e AND hash_mask index) = i)"
  using create_index_ok [OF assms] unfolding index_ok_def entry_ok_def by blast

theorem git_delta_create_index_correct_witness:
  "\<exists>index. git_delta_create_index True True (Some (replicate 40 5)) = Some (Some index)"
  using git_delta_create_index_correct [of "replicate 40 5"] by auto

text \<open>
  What the decoder returns has exactly the size the delta announces, and it only decodes a
  delta against a base of the announced size.
\<close>

lemma git__delta_apply_size:
  assumes "git__delta_apply alloc base delta = Inr res"
  shows "\<exists>res_sz. git__delta_read_header delta = Inr (of_nat (length base), res_sz) \<and> unat res_sz = length res"
  using assms apply_loop_length [of base _ _ "[]" res]
  by (auto simp: git__delta_apply_def git__delta_read_header_def split: sum.splits if_splits prod.splits)


text \<open>
  The limit on the size of a bucket is not what it is documented to be: a bucket of 64 to 127
  entries keeps only its first one, and one of 128 to 255 entries keeps all of them.
\<close>

lemma limit_bucket_limits:
  assumes "64 \<le> length es" "length es < 256"
  shows "limit_bucket es = (if length es < 128 then [hd es] else es)"
proof (cases "length es < 128")
  case True
  then have "length es div HASH_LIMIT div 2 = 0" by (simp add: HASH_LIMIT_def div_eq_0_iff less_mult_imp_div_less flip: div_mult2_eq)
  then show ?thesis using assms True by (cases es) (auto simp: limit_bucket_def HASH_LIMIT_def skip_loop_all)
next
  case False
  then have "length es div HASH_LIMIT div 2 = 1" using assms(2) by (simp add: HASH_LIMIT_def flip: div_mult2_eq)
  then show ?thesis using False assms(1) by (simp add: limit_bucket_def HASH_LIMIT_def cull_one)
qed

end
