(* ===== verification/Miner.thy ===== *)
theory Miner
  imports Prelude
begin

text \<open>
  The two threads of \<open>level1/src/level1.c\<close> and the signal handler.  A state holds the shared
  variables, the owners of the two mutexes and one program counter per thread; there is one step for
  every access to a shared variable, every lock operation and every call that acts on the
  repository.  What the environment decides (the result of the hash thread, of \<open>git push\<close> and of
  \<open>git fetch\<close>) is an argument of the step.  \<open>commits\<close> and \<open>pushes\<close> record the calls of
  \<open>commit_result\<close> and \<open>push_result_shell\<close>; \<open>resets\<close> counts those of \<open>reset_hard\<close>.
\<close>

section \<open>State\<close>

datatype thread = Main | Worker

text \<open>The program counters: \<open>main\<close> from the loop at line 347, \<open>check_updates_worker\<close>, \<open>int_handler\<close>.\<close>

datatype main_pc =
  M_while | M_lock_commit | M_lock_update | M_if_updated | M_reset | M_clear_updated | M_clear_push
| M_unlock_update | M_unlock_commit | M_hash | M_if_stop | M_if_updated2 | M_spin | M_if_stop2 | M_if_updated3
| M_lock_commit2 | M_commit | M_set_push | M_unlock_commit2 | M_join | M_done

datatype worker_pc =
  W_while | W_if_updated | W_if_push | W_if_push2 | W_lock_commit | W_push | W_lock_update | W_fetch | W_set_updated
| W_unlock_update | W_clear_push | W_unlock_commit | W_check | W_lock_update2 | W_set_updated2 | W_unlock_update2 | W_done

datatype handler_pc = H_idle | H_updated

record 'oid miner =
  stop :: bool
  updated :: bool
  push_commit :: bool
  curr_commit :: 'oid
  commit_mutex :: "thread option"
  update_mutex :: "thread option"
  found :: bool
  main_pc :: main_pc
  worker_pc :: worker_pc
  handler_pc :: handler_pc
  commits :: "'oid list"
  pushes :: "('oid option \<times> bool) list"
  resets :: nat

text \<open>When the worker is created, \<open>check_updates\<close> and \<open>reset_hard\<close> have run once.\<close>

definition miner_init :: "'oid \<Rightarrow> 'oid miner" where
  "miner_init oid = \<lparr>stop = False, updated = False, push_commit = False, curr_commit = oid,
     commit_mutex = None, update_mutex = None, found = False, main_pc = M_while, worker_pc = W_while,
     handler_pc = H_idle, commits = [], pushes = [], resets = 1\<rparr>"

section \<open>Steps\<close>

text \<open>
  \<open>M_hash\<close> stands for \<open>prepare_index\<close>, the hash thread and its join: \<open>None\<close> says that the thread could
  not be created, \<open>Some b\<close> that it has returned with \<open>args.found = b\<close>.  \<open>oid\<close> is the id of the commit
  written next.  \<open>push_commit\<close> is the null pointer or the address of \<open>curr_commit\<close>.
\<close>

definition main_step :: "bool option \<Rightarrow> 'oid \<Rightarrow> 'oid miner \<Rightarrow> 'oid miner option" where
  "main_step hash oid s =
     (case main_pc s of
        M_while \<Rightarrow> Some (s\<lparr>main_pc := if stop s then M_join else M_lock_commit\<rparr>)
      | M_lock_commit \<Rightarrow>
          if commit_mutex s = None then Some (s\<lparr>commit_mutex := Some Main, main_pc := M_lock_update\<rparr>) else None
      | M_lock_update \<Rightarrow>
          if update_mutex s = None then Some (s\<lparr>update_mutex := Some Main, main_pc := M_if_updated\<rparr>) else None
      | M_if_updated \<Rightarrow> Some (s\<lparr>main_pc := if updated s then M_reset else M_unlock_update\<rparr>)
      | M_reset \<Rightarrow> Some (s\<lparr>resets := Suc (resets s), main_pc := M_clear_updated\<rparr>)
      | M_clear_updated \<Rightarrow> Some (s\<lparr>updated := False, main_pc := M_clear_push\<rparr>)
      | M_clear_push \<Rightarrow> Some (s\<lparr>push_commit := False, main_pc := M_unlock_update\<rparr>)
      | M_unlock_update \<Rightarrow> Some (s\<lparr>update_mutex := None, main_pc := M_unlock_commit\<rparr>)
      | M_unlock_commit \<Rightarrow> Some (s\<lparr>commit_mutex := None, main_pc := M_hash\<rparr>)
      | M_hash \<Rightarrow>
          (case hash of
             None \<Rightarrow> Some (s\<lparr>found := False, stop := True, main_pc := M_if_stop\<rparr>)
           | Some b \<Rightarrow> Some (s\<lparr>found := b, main_pc := M_if_stop\<rparr>))
      | M_if_stop \<Rightarrow> Some (s\<lparr>main_pc := if stop s then M_while else M_if_updated2\<rparr>)
      | M_if_updated2 \<Rightarrow> Some (s\<lparr>main_pc := if \<not> updated s \<and> found s then M_spin else M_while\<rparr>)
      | M_spin \<Rightarrow> Some (s\<lparr>main_pc := if push_commit s then M_spin else M_if_stop2\<rparr>)
      | M_if_stop2 \<Rightarrow> Some (s\<lparr>main_pc := if stop s then M_while else M_if_updated3\<rparr>)
      | M_if_updated3 \<Rightarrow> Some (s\<lparr>main_pc := if updated s then M_while else M_lock_commit2\<rparr>)
      | M_lock_commit2 \<Rightarrow>
          if commit_mutex s = None then Some (s\<lparr>commit_mutex := Some Main, main_pc := M_commit\<rparr>) else None
      | M_commit \<Rightarrow> Some (s\<lparr>curr_commit := oid, commits := commits s @ [oid], main_pc := M_set_push\<rparr>)
      | M_set_push \<Rightarrow> Some (s\<lparr>push_commit := True, main_pc := M_unlock_commit2\<rparr>)
      | M_unlock_commit2 \<Rightarrow> Some (s\<lparr>commit_mutex := None, main_pc := M_while\<rparr>)
      | M_join \<Rightarrow> if worker_pc s = W_done then Some (s\<lparr>main_pc := M_done\<rparr>) else None
      | M_done \<Rightarrow> None)"

text \<open>\<open>ok\<close> is the outcome of \<open>git push\<close>, \<open>news\<close> that of \<open>check_updates\<close>.\<close>

definition worker_step :: "bool \<Rightarrow> bool \<Rightarrow> 'oid miner \<Rightarrow> 'oid miner option" where
  "worker_step ok news s =
     (case worker_pc s of
        W_while \<Rightarrow> Some (s\<lparr>worker_pc := if stop s then W_done else W_if_updated\<rparr>)
      | W_if_updated \<Rightarrow> Some (s\<lparr>worker_pc := if updated s then W_while else W_if_push\<rparr>)
      | W_if_push \<Rightarrow> Some (s\<lparr>worker_pc := if push_commit s then W_if_push2 else W_while\<rparr>)
      | W_if_push2 \<Rightarrow> Some (s\<lparr>worker_pc := if push_commit s then W_lock_commit else W_check\<rparr>)
      | W_lock_commit \<Rightarrow>
          if commit_mutex s = None then Some (s\<lparr>commit_mutex := Some Worker, worker_pc := W_push\<rparr>) else None
      | W_push \<Rightarrow>
          Some (s\<lparr>pushes := pushes s @ [(if push_commit s then Some (curr_commit s) else None, ok)],
            worker_pc := if ok then W_clear_push else W_lock_update\<rparr>)
      | W_lock_update \<Rightarrow>
          if update_mutex s = None then Some (s\<lparr>update_mutex := Some Worker, worker_pc := W_fetch\<rparr>) else None
      | W_fetch \<Rightarrow> Some (s\<lparr>worker_pc := W_set_updated\<rparr>)
      | W_set_updated \<Rightarrow> Some (s\<lparr>updated := True, worker_pc := W_unlock_update\<rparr>)
      | W_unlock_update \<Rightarrow> Some (s\<lparr>update_mutex := None, worker_pc := W_clear_push\<rparr>)
      | W_clear_push \<Rightarrow> Some (s\<lparr>push_commit := False, worker_pc := W_unlock_commit\<rparr>)
      | W_unlock_commit \<Rightarrow> Some (s\<lparr>commit_mutex := None, worker_pc := W_while\<rparr>)
      | W_check \<Rightarrow> Some (s\<lparr>worker_pc := if news then W_lock_update2 else W_while\<rparr>)
      | W_lock_update2 \<Rightarrow>
          if update_mutex s = None then Some (s\<lparr>update_mutex := Some Worker, worker_pc := W_set_updated2\<rparr>) else None
      | W_set_updated2 \<Rightarrow> Some (s\<lparr>updated := True, worker_pc := W_unlock_update2\<rparr>)
      | W_unlock_update2 \<Rightarrow> Some (s\<lparr>update_mutex := None, worker_pc := W_while\<rparr>)
      | W_done \<Rightarrow> None)"

text \<open>\<open>int_handler\<close>: the two assignments, on the delivery of a signal.\<close>

definition handler_step :: "'oid miner \<Rightarrow> 'oid miner" where
  "handler_step s =
     (case handler_pc s of
        H_idle \<Rightarrow> s\<lparr>stop := True, handler_pc := H_updated\<rparr>
      | H_updated \<Rightarrow> s\<lparr>updated := True, handler_pc := H_idle\<rparr>)"

text \<open>
  An undisturbed run has no signal and always gets its hash thread; a run in general has both.
\<close>

inductive calm_step :: "'oid miner \<Rightarrow> 'oid miner \<Rightarrow> bool" where
  calm_main: "main_step (Some b) oid s = Some s' \<Longrightarrow> calm_step s s'"
| calm_worker: "worker_step ok news s = Some s' \<Longrightarrow> calm_step s s'"

inductive miner_step :: "'oid miner \<Rightarrow> 'oid miner \<Rightarrow> bool" where
  step_main: "main_step hash oid s = Some s' \<Longrightarrow> miner_step s s'"
| step_worker: "worker_step ok news s = Some s' \<Longrightarrow> miner_step s s'"
| step_handler: "miner_step s (handler_step s)"

inductive_cases calm_stepE: "calm_step s s'"
inductive_cases miner_stepE: "miner_step s s'"

section \<open>Invariants of runs\<close>

text \<open>What every step keeps, every run keeps.\<close>

locale kept =
  fixes step :: "'s \<Rightarrow> 's \<Rightarrow> bool" and inv :: "'s \<Rightarrow> bool"
  assumes step_keeps: "inv s \<Longrightarrow> step s s' \<Longrightarrow> inv s'"
begin

lemma run_keeps: "step\<^sup>*\<^sup>* s s' \<Longrightarrow> inv s \<Longrightarrow> inv s'"
  by (induction rule: rtranclp_induct) (auto intro: step_keeps)

end

subsection \<open>Lock ownership\<close>

fun main_commit :: "main_pc \<Rightarrow> bool" where
  "main_commit M_lock_update = True"
| "main_commit M_if_updated = True"
| "main_commit M_reset = True"
| "main_commit M_clear_updated = True"
| "main_commit M_clear_push = True"
| "main_commit M_unlock_update = True"
| "main_commit M_unlock_commit = True"
| "main_commit M_commit = True"
| "main_commit M_set_push = True"
| "main_commit M_unlock_commit2 = True"
| "main_commit _ = False"

fun main_update :: "main_pc \<Rightarrow> bool" where
  "main_update M_if_updated = True"
| "main_update M_reset = True"
| "main_update M_clear_updated = True"
| "main_update M_clear_push = True"
| "main_update M_unlock_update = True"
| "main_update _ = False"

fun worker_commit :: "worker_pc \<Rightarrow> bool" where
  "worker_commit W_push = True"
| "worker_commit W_lock_update = True"
| "worker_commit W_fetch = True"
| "worker_commit W_set_updated = True"
| "worker_commit W_unlock_update = True"
| "worker_commit W_clear_push = True"
| "worker_commit W_unlock_commit = True"
| "worker_commit _ = False"

fun worker_update :: "worker_pc \<Rightarrow> bool" where
  "worker_update W_fetch = True"
| "worker_update W_set_updated = True"
| "worker_update W_unlock_update = True"
| "worker_update W_set_updated2 = True"
| "worker_update W_unlock_update2 = True"
| "worker_update _ = False"

definition owner :: "bool \<Rightarrow> bool \<Rightarrow> thread option \<Rightarrow> bool" where
  "owner m w mutex \<longleftrightarrow> \<not> (m \<and> w) \<and> mutex = (if m then Some Main else if w then Some Worker else None)"

definition locks_ok :: "'oid miner \<Rightarrow> bool" where
  "locks_ok s \<longleftrightarrow> owner (main_commit (main_pc s)) (worker_commit (worker_pc s)) (commit_mutex s) \<and>
     owner (main_update (main_pc s)) (worker_update (worker_pc s)) (update_mutex s)"

lemma main_step_locks: "locks_ok s \<Longrightarrow> pred_option locks_ok (main_step hash oid s)"
  by (cases "main_pc s") (simp_all add: main_step_def locks_ok_def owner_def split: option.split)

lemma worker_step_locks: "locks_ok s \<Longrightarrow> pred_option locks_ok (worker_step ok news s)"
  by (cases "worker_pc s") (simp_all add: worker_step_def locks_ok_def owner_def)

lemma handler_step_locks: "locks_ok s \<Longrightarrow> locks_ok (handler_step s)"
  by (simp add: handler_step_def locks_ok_def split: handler_pc.split)

text \<open>A step that is possible leads to a state the predicate holds of.\<close>

lemma pred_step: "pred_option P x \<Longrightarrow> x = Some y \<Longrightarrow> P y"
  by simp

interpretation locks: kept miner_step locks_ok
  by unfold_locales (auto elim!: miner_stepE intro: pred_step main_step_locks worker_step_locks handler_step_locks)

lemma init_locks: "locks_ok (miner_init oid)"
  by (simp add: locks_ok_def miner_init_def owner_def)

lemma main_blocked:
  assumes "main_step None oid s = None"
  shows "main_pc s = M_done \<or> main_pc s = M_join \<and> worker_pc s \<noteq> W_done \<or>
    (main_pc s = M_lock_commit \<or> main_pc s = M_lock_commit2) \<and> commit_mutex s \<noteq> None \<or>
    main_pc s = M_lock_update \<and> update_mutex s \<noteq> None"
  using assms by (cases "main_pc s") (simp_all add: main_step_def split: if_split_asm)

lemma worker_blocked:
  assumes "worker_step ok news s = None"
  shows "worker_pc s = W_done \<or> worker_pc s = W_lock_commit \<and> commit_mutex s \<noteq> None \<or>
    (worker_pc s = W_lock_update \<or> worker_pc s = W_lock_update2) \<and> update_mutex s \<noteq> None"
  using assms by (cases "worker_pc s") (simp_all add: worker_step_def split: if_split_asm)

lemma not_both_blocked:
  assumes "locks_ok s" "main_step None oid s = None" "worker_step ok news s = None"
  shows "main_pc s = M_done"
  using main_blocked [OF assms(2)] worker_blocked [OF assms(3)] assms(1)
  by (elim disjE conjE) (simp_all add: locks_ok_def owner_def split: if_split_asm)

lemma join_waits: "main_pc s = M_done \<longrightarrow> worker_pc s = W_done \<Longrightarrow>
    pred_option (\<lambda>s. main_pc s = M_done \<longrightarrow> worker_pc s = W_done) (main_step hash oid s)"
  by (cases "main_pc s") (simp_all add: main_step_def split: option.split)

interpretation join: kept miner_step "\<lambda>s. main_pc s = M_done \<longrightarrow> worker_pc s = W_done"
proof
  fix s s' :: "'a miner"
  assume inv: "main_pc s = M_done \<longrightarrow> worker_pc s = W_done" and "miner_step s s'"
  from this(2) show "main_pc s' = M_done \<longrightarrow> worker_pc s' = W_done"
  proof cases
    case (step_main hash oid)
    from pred_step [OF join_waits [OF inv] this] show ?thesis .
  next
    case (step_worker ok news)
    have "main_pc s' = main_pc s" "worker_pc s \<noteq> W_done"
      using step_worker by (auto simp: worker_step_def split: worker_pc.splits if_split_asm)
    with inv show ?thesis by simp
  next
    case step_handler
    with inv show ?thesis by (simp add: handler_step_def split: handler_pc.split)
  qed
qed

subsection \<open>Runs without a signal\<close>

text \<open>
  Where the worker has seen a commit to push, where it has not yet asked for a reset, where it has
  pushed, where it has asked for a reset but not yet cleared the pointer, and its unused branch;
  where the main thread knows that nothing is being pushed, and where it is about to commit.
\<close>

fun w_seen :: "worker_pc \<Rightarrow> bool" where
  "w_seen W_if_push2 = True"
| "w_seen W_lock_commit = True"
| "w_seen W_push = True"
| "w_seen W_lock_update = True"
| "w_seen W_fetch = True"
| "w_seen W_set_updated = True"
| "w_seen W_unlock_update = True"
| "w_seen W_clear_push = True"
| "w_seen _ = False"

fun w_before :: "worker_pc \<Rightarrow> bool" where
  "w_before W_if_push = True"
| "w_before W_if_push2 = True"
| "w_before W_lock_commit = True"
| "w_before W_push = True"
| "w_before W_lock_update = True"
| "w_before W_fetch = True"
| "w_before W_set_updated = True"
| "w_before _ = False"

fun w_pushed :: "worker_pc \<Rightarrow> bool" where
  "w_pushed W_lock_update = True"
| "w_pushed W_fetch = True"
| "w_pushed W_set_updated = True"
| "w_pushed W_unlock_update = True"
| "w_pushed W_clear_push = True"
| "w_pushed _ = False"

fun w_asked :: "worker_pc \<Rightarrow> bool" where
  "w_asked W_unlock_update = True"
| "w_asked W_clear_push = True"
| "w_asked _ = False"

fun w_checking :: "worker_pc \<Rightarrow> bool" where
  "w_checking W_check = True"
| "w_checking W_lock_update2 = True"
| "w_checking W_set_updated2 = True"
| "w_checking W_unlock_update2 = True"
| "w_checking _ = False"

fun m_idle :: "main_pc \<Rightarrow> bool" where
  "m_idle M_reset = True"
| "m_idle M_clear_updated = True"
| "m_idle M_clear_push = True"
| "m_idle M_if_stop2 = True"
| "m_idle M_if_updated3 = True"
| "m_idle M_lock_commit2 = True"
| "m_idle M_commit = True"
| "m_idle M_set_push = True"
| "m_idle _ = False"

fun m_fresh :: "main_pc \<Rightarrow> bool" where
  "m_fresh M_lock_commit2 = True"
| "m_fresh M_commit = True"
| "m_fresh M_set_push = True"
| "m_fresh _ = False"

definition unpushed :: "'oid miner \<Rightarrow> bool" where
  "unpushed s \<longleftrightarrow> main_pc s = M_set_push \<or> push_commit s \<and> \<not> w_pushed (worker_pc s)"

definition calm_inv :: "'oid miner \<Rightarrow> bool" where
  "calm_inv s \<longleftrightarrow> locks_ok s \<and> \<not> stop s \<and>
     (w_seen (worker_pc s) \<longrightarrow> push_commit s) \<and> (w_before (worker_pc s) \<longrightarrow> \<not> updated s) \<and>
     (m_idle (main_pc s) \<longrightarrow> \<not> push_commit s) \<and> (m_fresh (main_pc s) \<longrightarrow> \<not> updated s) \<and>
     (updated s \<and> push_commit s \<longrightarrow> w_asked (worker_pc s)) \<and> \<not> w_checking (worker_pc s) \<and>
     map Some (commits s) = map fst (pushes s) @ (if unpushed s then [Some (curr_commit s)] else [])"

lemma asked_holds: "w_asked pc \<Longrightarrow> worker_commit pc" and pushed_seen: "w_pushed pc \<Longrightarrow> w_seen pc"
  by (cases pc; simp)+

lemma fresh_idle: "m_fresh pc \<Longrightarrow> m_idle pc"
  by (cases pc) simp_all

lemma calm_main_step:
  assumes "calm_inv s"
  shows "pred_option calm_inv (main_step (Some b) oid s)"
  using assms asked_holds [of "worker_pc s"] pushed_seen [of "worker_pc s"] main_step_locks [of s "Some b" oid]
  by (cases "main_pc s")
     (auto simp: main_step_def calm_inv_def unpushed_def locks_ok_def owner_def split: if_split_asm)

lemma calm_worker_step:
  assumes "calm_inv s"
  shows "pred_option calm_inv (worker_step ok news s)"
  using assms worker_step_locks [of s ok news] fresh_idle [of "main_pc s"]
  by (cases "worker_pc s"; cases "main_pc s = M_set_push")
     (auto simp: worker_step_def calm_inv_def unpushed_def split: if_split_asm)

interpretation calm: kept calm_step calm_inv
  by unfold_locales (auto elim!: calm_stepE intro: pred_step calm_main_step calm_worker_step)

lemma init_calm: "calm_inv (miner_init oid)"
  by (simp add: calm_inv_def init_locks unpushed_def) (simp add: miner_init_def)


section \<open>Schedules\<close>

text \<open>A schedule names the thread of every step and what the environment decides in it.\<close>

datatype 'oid event = M "bool option" 'oid | W bool bool | H

fun run :: "'oid event list \<Rightarrow> 'oid miner \<Rightarrow> 'oid miner option" where
  "run [] s = Some s"
| "run (M hash oid # es) s = (case main_step hash oid s of Some s \<Rightarrow> run es s | None \<Rightarrow> None)"
| "run (W ok news # es) s = (case worker_step ok news s of Some s \<Rightarrow> run es s | None \<Rightarrow> None)"
| "run (H # es) s = run es (handler_step s)"

lemma run_steps: "run es s = Some s' \<Longrightarrow> miner_step\<^sup>*\<^sup>* s s'"
proof (induction es s rule: run.induct)
  case (2 hash oid es s)
  then show ?case by (auto split: option.splits intro: step_main converse_rtranclp_into_rtranclp)
next
  case (3 ok news es s)
  then show ?case by (auto split: option.splits intro: step_worker converse_rtranclp_into_rtranclp)
next
  case (4 es s)
  then show ?case by (auto intro: step_handler converse_rtranclp_into_rtranclp)
qed simp

lemma run_calm:
  assumes "run es s = Some s'" "list_all (\<lambda>e. case e of M hash _ \<Rightarrow> hash \<noteq> None | W _ _ \<Rightarrow> True | H \<Rightarrow> False) es"
  shows "calm_step\<^sup>*\<^sup>* s s'"
  using assms
proof (induction es s rule: run.induct)
  case (2 hash oid es s)
  then show ?case by (auto split: option.splits intro: calm_main converse_rtranclp_into_rtranclp)
next
  case (3 ok news es s)
  then show ?case by (auto split: option.splits intro: calm_worker converse_rtranclp_into_rtranclp)
qed simp_all

text \<open>
  One turn of the main loop that finds a coin and commits it; then either the worker is about to push
  while the main thread, interrupted at the top of its loop, resets; or the main thread waits for the
  worker while the worker is interrupted at the top of its own.
\<close>

definition first_coin :: "'oid \<Rightarrow> 'oid event list" where
  "first_coin oid = replicate 16 (M (Some True) oid)"

definition null_push :: "'oid \<Rightarrow> 'oid event list" where
  "null_push oid = first_coin oid @ replicate 4 (W True False) @ [M None oid, M None oid, H, H] @
     replicate 7 (M None oid) @ [W True False, W True False]"

definition hang :: "'oid \<Rightarrow> 'oid event list" where
  "hang oid = first_coin oid @ replicate 9 (M (Some True) oid) @ [H, H, W True False]"

lemma stuck: "miner_step s s' \<Longrightarrow> main_pc s = M_spin \<and> worker_pc s = W_done \<and> push_commit s \<Longrightarrow>
    main_pc s' = M_spin \<and> worker_pc s' = W_done \<and> push_commit s'"
  by (erule miner_stepE) (auto simp: main_step_def worker_step_def handler_step_def split: handler_pc.splits)

interpretation stuck: kept miner_step "\<lambda>s. main_pc s = M_spin \<and> worker_pc s = W_done \<and> push_commit s"
  by unfold_locales (rule stuck)

section \<open>Properties\<close>

text \<open>
  (C4) Without a signal every commit is pushed exactly once and in order: in every reachable state the
  pushes so far name the commits so far, except for a last one whose push is still to come.  The
  worker only pushes while the pointer is set, and its branch that polls for updates is never taken.
\<close>

theorem commits_are_pushed:
  assumes "calm_step\<^sup>*\<^sup>* (miner_init oid) s"
  shows "map Some (commits s) = map fst (pushes s) @ (if unpushed s then [Some (curr_commit s)] else []) \<and>
    (worker_pc s = W_push \<longrightarrow> push_commit s) \<and> worker_pc s \<noteq> W_check"
proof -
  have "calm_inv s" using calm.run_keeps [OF assms init_calm] .
  then show ?thesis by (auto simp: calm_inv_def)
qed

theorem commits_are_pushed_witness:
  "\<exists>s. calm_step\<^sup>*\<^sup>* (miner_init (0 :: nat)) s \<and> commits s = [0] \<and> \<not> unpushed s \<and> map fst (pushes s) = [Some 0]"
proof -
  obtain s where s: "run (first_coin 0 @ replicate 6 (W True False)) (miner_init (0 :: nat)) = Some s" "commits s = [0]" "\<not> unpushed s"
    by (simp add: first_coin_def numeral_eq_Suc miner_init_def main_step_def worker_step_def unpushed_def)
  have "calm_step\<^sup>*\<^sup>* (miner_init 0) s" by (rule run_calm [OF s(1)]) (simp add: first_coin_def list_all_iff)
  with commits_are_pushed [OF this] s(2,3) show ?thesis by auto
qed



text \<open>
  (C30) An interrupt can delete the remote branch: the worker decides to push, the handler runs, the main
  thread resets and clears the pointer, and the worker then pushes a null commit.
\<close>

theorem interrupt_pushes_null:
  "\<exists>s. miner_step\<^sup>*\<^sup>* (miner_init oid) s \<and> pushes s = [(None, True)] \<and> commits s = [oid]"
proof -
  obtain s where "run (null_push oid) (miner_init oid) = Some s" "pushes s = [(None, True)]" "commits s = [oid]"
    by (simp add: null_push_def first_coin_def numeral_eq_Suc miner_init_def main_step_def worker_step_def handler_step_def)
  then show ?thesis using run_steps by blast
qed

text \<open>
  (C31) An interrupt can make the program hang: once the worker has left its loop with a commit
  unpushed, the main thread waits for it for ever.
\<close>

theorem interrupt_hangs:
  "\<exists>s. miner_step\<^sup>*\<^sup>* (miner_init oid) s \<and> stop s \<and>
     (\<forall>s'. miner_step\<^sup>*\<^sup>* s s' \<longrightarrow> main_pc s' = M_spin)"
proof -
  obtain s where s: "run (hang oid) (miner_init oid) = Some s" "stop s"
      "main_pc s = M_spin \<and> worker_pc s = W_done \<and> push_commit s"
    by (simp add: hang_def first_coin_def numeral_eq_Suc miner_init_def main_step_def worker_step_def handler_step_def)
  from stuck.run_keeps [OF _ s(3)] run_steps [OF s(1)] s(2) show ?thesis by blast
qed

theorem interrupt_hangs_witness:
  "\<exists>s. miner_step\<^sup>*\<^sup>* (miner_init (0 :: nat)) s \<and> stop s \<and> main_pc s = M_spin"
  using interrupt_hangs [of "0 :: nat"] by blast

end
