(* ===== verification/Pqueue.thy ===== *)
theory Pqueue
  imports Prelude "HOL-Library.Multiset"
begin

text \<open>
  \<open>libgit2-development/src/pqueue.c\<close>: a priority queue as a binary heap in an array.  Index 0 of
  the array is unused, \<open>size\<close> is one more than the number of elements, and the array holds at least
  \<open>size\<close> elements; \<open>cmppri a b\<close> says that \<open>b\<close> has the higher priority.  The result of \<open>realloc\<close> is an
  argument.
\<close>

section \<open>Operations\<close>

record 'a git_pqueue =
  q_d :: "'a list"
  q_size :: nat
  q_avail :: nat
  q_step :: nat

definition left :: "nat \<Rightarrow> nat" where "left i = push_bit 1 i"
definition right :: "nat \<Rightarrow> nat" where "right i = push_bit 1 i + 1"
definition parent :: "nat \<Rightarrow> nat" where "parent i = drop_bit 1 i"

text \<open>\<open>junk\<close> is what the allocated array holds before anything is stored in it.\<close>

definition git_pqueue_init :: "bool \<Rightarrow> (nat \<Rightarrow> 'a) \<Rightarrow> nat \<Rightarrow> int \<times> 'a git_pqueue option" where
  "git_pqueue_init alloc junk n =
     (if \<not> alloc then (- 1, None)
      else (0, Some \<lparr>q_d = map junk [0..<n + 1], q_size = 1, q_avail = n + 1, q_step = n + 1\<rparr>))"

definition git_pqueue_clear :: "'a git_pqueue \<Rightarrow> 'a git_pqueue" where
  "git_pqueue_clear q = q\<lparr>q_size := 1\<rparr>"

definition git_pqueue_size :: "'a git_pqueue \<Rightarrow> nat" where
  "git_pqueue_size q = q_size q - 1"

text \<open>
  The loops move a hole through the array \<open>d\<close>; the moving element is stored at the end.  The
  positions are never 0: both loops start at 1 or above.
\<close>

function bubble_loop :: "('a \<Rightarrow> 'a \<Rightarrow> bool) \<Rightarrow> 'a list \<Rightarrow> nat \<Rightarrow> 'a \<Rightarrow> 'a list \<times> nat" where
  "bubble_loop cmppri d i moving_node =
     (if i > 1 \<and> cmppri (d ! parent i) moving_node
      then bubble_loop cmppri (d[i := d ! parent i]) (parent i) moving_node
      else (d, i))"
  by pat_completeness auto
termination
  by (relation "measure (\<lambda>(cmppri, d, i, m). i)") (auto simp: parent_def drop_bit_eq_div)

definition bubble_up :: "('a \<Rightarrow> 'a \<Rightarrow> bool) \<Rightarrow> 'a git_pqueue \<Rightarrow> nat \<Rightarrow> 'a git_pqueue" where
  "bubble_up cmppri q i =
     (let moving_node = q_d q ! i;
          (d, i) = bubble_loop cmppri (q_d q) i moving_node
      in q\<lparr>q_d := d[i := moving_node]\<rparr>)"

definition maxchild :: "('a \<Rightarrow> 'a \<Rightarrow> bool) \<Rightarrow> 'a list \<Rightarrow> nat \<Rightarrow> nat \<Rightarrow> nat" where
  "maxchild cmppri d sz i =
     (let child_node = left i
      in if sz \<le> child_node then 0
         else if child_node + 1 < sz \<and> cmppri (d ! child_node) (d ! (child_node + 1))
         then child_node + 1 else child_node)"

function percolate_loop :: "('a \<Rightarrow> 'a \<Rightarrow> bool) \<Rightarrow> 'a list \<Rightarrow> nat \<Rightarrow> nat \<Rightarrow> 'a \<Rightarrow> 'a list \<times> nat" where
  "percolate_loop cmppri d sz i moving_node =
     (let child_node = maxchild cmppri d sz i
      in if 0 < i \<and> child_node \<noteq> 0 \<and> cmppri moving_node (d ! child_node)
         then percolate_loop cmppri (d[i := d ! child_node]) sz child_node moving_node
         else (d, i))"
  by pat_completeness auto
termination
  by (relation "measure (\<lambda>(cmppri, d, sz, i, m). sz - i)")
     (auto simp: maxchild_def left_def push_bit_eq_mult Let_def split: if_splits)

declare bubble_loop.simps [simp del] percolate_loop.simps [simp del]

definition percolate_down :: "('a \<Rightarrow> 'a \<Rightarrow> bool) \<Rightarrow> 'a git_pqueue \<Rightarrow> nat \<Rightarrow> 'a git_pqueue" where
  "percolate_down cmppri q i =
     (let moving_node = q_d q ! i;
          (d, i) = percolate_loop cmppri (q_d q) (q_size q) i moving_node
      in q\<lparr>q_d := d[i := moving_node]\<rparr>)"

definition git_pqueue_insert ::
  "('a \<Rightarrow> 'a \<Rightarrow> bool) \<Rightarrow> bool \<Rightarrow> (nat \<Rightarrow> 'a) \<Rightarrow> 'a git_pqueue \<Rightarrow> 'a \<Rightarrow> int \<times> 'a git_pqueue" where
  "git_pqueue_insert cmppri alloc junk q x =
     (let newsize = q_size q + q_step q
      in if q_avail q \<le> q_size q \<and> \<not> alloc then (- 1, q)
         else let q = (if q_avail q \<le> q_size q
                       then q\<lparr>q_d := q_d q @ map junk [length (q_d q)..<newsize], q_avail := newsize\<rparr> else q);
                  i = q_size q;
                  q = q\<lparr>q_size := i + 1, q_d := (q_d q)[i := x]\<rparr>
              in (0, bubble_up cmppri q i))"

definition git_pqueue_pop :: "('a \<Rightarrow> 'a \<Rightarrow> bool) \<Rightarrow> 'a git_pqueue \<Rightarrow> 'a option \<times> 'a git_pqueue" where
  "git_pqueue_pop cmppri q =
     (if q_size q = 1 then (None, q)
      else let head = q_d q ! 1;
               sz = q_size q - 1;
               q = q\<lparr>q_size := sz, q_d := (q_d q)[1 := q_d q ! sz]\<rparr>
           in (Some head, percolate_down cmppri q 1))"

definition git_pqueue_peek :: "'a git_pqueue \<Rightarrow> 'a option" where
  "git_pqueue_peek q = (if q_size q = 1 then None else Some (q_d q ! 1))"

text \<open>The comparison the revision walk uses: commits by their time (\<open>commit_list.c\<close>).\<close>

record git_commit_list_node =
  commit_oid :: "byte list"
  commit_time :: u32

definition git_commit_list_time_cmp :: "git_commit_list_node \<Rightarrow> git_commit_list_node \<Rightarrow> bool" where
  "git_commit_list_time_cmp a b \<longleftrightarrow> commit_time a < commit_time b"

section \<open>Heaps\<close>

interpretation time_order: strict_weak git_commit_list_time_cmp
  by unfold_locales (auto simp: git_commit_list_time_cmp_def)

text \<open>
  \<open>edges cmp d sz S\<close>: every element but those at positions in \<open>S\<close> is not above its parent.
\<close>

definition edges :: "('a \<Rightarrow> 'a \<Rightarrow> bool) \<Rightarrow> 'a list \<Rightarrow> nat \<Rightarrow> (nat \<Rightarrow> bool) \<Rightarrow> bool" where
  "edges lt d sz S \<longleftrightarrow> (\<forall>j. 2 \<le> j \<and> j < sz \<and> \<not> S j \<longrightarrow> \<not> lt (d ! parent j) (d ! j))"

text \<open>The children of \<open>i\<close> are not above the parent of \<open>i\<close>.\<close>

definition bridged :: "('a \<Rightarrow> 'a \<Rightarrow> bool) \<Rightarrow> 'a list \<Rightarrow> nat \<Rightarrow> nat \<Rightarrow> bool" where
  "bridged lt d sz i \<longleftrightarrow> (2 \<le> i \<longrightarrow> (\<forall>j < sz. parent j = i \<longrightarrow> \<not> lt (d ! parent i) (d ! j)))"

definition elems :: "'a list \<Rightarrow> nat \<Rightarrow> 'a multiset" where
  "elems d sz = mset (take (sz - 1) (drop 1 d))"

lemma parent_eq: "parent j = j div 2"
  by (simp add: parent_def drop_bit_eq_div)

lemma child_pos: "parent j = i \<Longrightarrow> 0 < i \<Longrightarrow> i < j"
  by (simp add: parent_eq)

lemma elems_swap:
  assumes "0 < i" "i < sz" "0 < j" "j < sz" "sz \<le> length d"
  shows "elems (d[i := d ! j, j := d ! i]) sz = elems d sz"
proof -
  let ?e = "take (sz - 1) (drop 1 d)"
  have "take (sz - 1) (drop 1 (d[i := d ! j, j := d ! i])) = ?e[i - 1 := ?e ! (j - 1), j - 1 := ?e ! (i - 1)]"
    using assms by (simp add: drop_update_swap take_update_swap)
  moreover have "mset (?e[i - 1 := ?e ! (j - 1), j - 1 := ?e ! (i - 1)]) = mset ?e"
    using assms by (intro mset_swap) simp_all
  ultimately show ?thesis unfolding elems_def by metis
qed

context strict_weak
begin

text \<open>The loops, on the array with the moving element in the hole: every turn is a swap.\<close>

lemma bubble_swap:
  assumes "edges lt d sz (\<lambda>j. j = i)" "bridged lt d sz i" "1 < i" "i < sz" "sz \<le> length d"
    and "lt (d ! parent i) (d ! i)"
  defines "d2 \<equiv> d[i := d ! parent i, parent i := d ! i]"
  shows "edges lt d2 sz (\<lambda>j. j = parent i)" and "bridged lt d2 sz (parent i)"
proof -
  have p: "0 < parent i" "parent i < i" using assms(3) by (simp_all add: parent_eq)
  have at: "d2 ! i = d ! parent i" "d2 ! parent i = d ! i" "\<And>j. j \<noteq> i \<Longrightarrow> j \<noteq> parent i \<Longrightarrow> d2 ! j = d ! j"
    using assms(4,5) p by (auto simp: d2_def nth_list_update)
  have old: "\<not> lt (d ! parent j) (d ! j)" if "2 \<le> j" "j < sz" "j \<noteq> i" for j
    using assms(1) that by (simp add: edges_def)
  show "edges lt d2 sz (\<lambda>j. j = parent i)"
    unfolding edges_def
  proof (intro allI impI, elim conjE)
    fix j assume j: "2 \<le> j" "j < sz" "j \<noteq> parent i"
    consider "j = i" | "parent j = i" "j \<noteq> i" | "parent j = parent i" "j \<noteq> i" | "parent j \<noteq> i" "parent j \<noteq> parent i" "j \<noteq> i"
      by blast
    then show "\<not> lt (d2 ! parent j) (d2 ! j)"
    proof cases
      case 1
      then show ?thesis using at asym [OF assms(6)] by simp
    next
      case 2
      then show ?thesis using at(1,3) j assms(2,3) by (simp add: bridged_def)
    next
      case 3
      have "\<not> lt (d ! i) (d ! j)" using old [OF j(1,2) 3(2)] 3(1) assms(6) lt_trans by metis
      then show ?thesis using at j 3 by simp
    next
      case 4
      then show ?thesis using at(3) j old by simp
    qed
  qed
  have "\<not> lt (d2 ! parent (parent i)) (d2 ! j)" if pp: "2 \<le> parent i" and j: "j < sz" "parent j = parent i" for j
  proof -
    have up: "\<not> lt (d ! parent (parent i)) (d ! parent i)" using old [of "parent i"] pp p(2) assms(4) by simp
    have out: "parent (parent i) \<noteq> i" "parent (parent i) \<noteq> parent i" using p pp by (simp_all add: parent_eq)
    show ?thesis
    proof (cases "j = i")
      case True
      then show ?thesis using at out up by simp
    next
      case False
      moreover have "2 \<le> j" "j \<noteq> parent i" using pp j(2) by (auto simp: parent_eq)
      ultimately show ?thesis using at(3) out up old [of j] j neg_trans by metis
    qed
  qed
  then show "bridged lt d2 sz (parent i)" by (simp add: bridged_def)
qed

lemma bubble_loop_heap:
  assumes "edges lt (d[i := m]) sz (\<lambda>j. j = i)" "bridged lt (d[i := m]) sz i" "0 < i" "i < sz" "sz \<le> length d"
    and "bubble_loop lt d i m = (d', i')"
  shows "edges lt (d'[i' := m]) sz (\<lambda>_. False) \<and> elems (d'[i' := m]) sz = elems (d[i := m]) sz \<and> length d' = length d"
  using assms
proof (induction i arbitrary: d rule: less_induct)
  case (less i)
  let ?d = "d[i := m]"
  show ?case
  proof (cases "1 < i \<and> lt (d ! parent i) m")
    case True
    have p: "0 < parent i" "parent i < i" using True by (simp_all add: parent_eq)
    have at: "?d ! i = m" "?d ! parent i = d ! parent i" using less.prems(4,5) p by simp_all
    have swap: "d[i := d ! parent i, parent i := m] = ?d[i := ?d ! parent i, parent i := ?d ! i]" by (simp add: at)
    have "edges lt (d[i := d ! parent i, parent i := m]) sz (\<lambda>j. j = parent i)"
      "bridged lt (d[i := d ! parent i, parent i := m]) sz (parent i)"
      unfolding swap using bubble_swap [of ?d sz i] less.prems True at by simp_all
    moreover have "elems (d[i := d ! parent i, parent i := m]) sz = elems ?d sz"
      unfolding swap using less.prems p by (intro elems_swap) simp_all
    moreover have "bubble_loop lt (d[i := d ! parent i]) (parent i) m = (d', i')"
      using less.prems(6) True by (simp add: bubble_loop.simps [of lt d i])
    ultimately show ?thesis
      using less.IH [OF p(2), of "d[i := d ! parent i]"] less.prems(4,5) p by simp
  next
    case False
    have "?d ! parent i = d ! parent i" if "1 < i" using that by (simp add: parent_eq)
    then have "edges lt ?d sz (\<lambda>_. False)"
      using less.prems(1,3,4,5) False unfolding edges_def
      by (metis nth_list_update_eq less_le_trans le_trans one_le_numeral not_less_eq_eq numeral_2_eq_2 One_nat_def not_le)
    then show ?thesis using False less.prems(6) by (auto simp: bubble_loop.simps [of lt d i])
  qed
qed

lemma maxchild_cases:
  assumes "0 < i"
  shows "maxchild lt d sz i = 0 \<and> sz \<le> 2 * i \<or>
    parent (maxchild lt d sz i) = i \<and> maxchild lt d sz i < sz \<and> 2 \<le> maxchild lt d sz i \<and>
    (\<forall>j < sz. parent j = i \<longrightarrow> \<not> lt (d ! maxchild lt d sz i) (d ! j))"
proof -
  have irrefl: "\<not> lt a a" for a using asym by blast
  have child: "j = 2 * i \<or> j = 2 * i + 1" if "parent j = i" for j using that by (simp add: parent_eq) linarith
  consider "sz \<le> 2 * i" | "2 * i < sz" "2 * i + 1 < sz \<and> lt (d ! (2 * i)) (d ! (2 * i + 1))"
    | "2 * i < sz" "\<not> (2 * i + 1 < sz \<and> lt (d ! (2 * i)) (d ! (2 * i + 1)))" by linarith
  then show ?thesis
  proof cases
    case 1
    then show ?thesis by (simp add: maxchild_def left_def push_bit_eq_mult mult.commute [of i])
  next
    case 2
    then have "maxchild lt d sz i = 2 * i + 1" by (simp add: maxchild_def left_def push_bit_eq_mult Let_def mult.commute [of i])
    moreover have "\<not> lt (d ! (2 * i + 1)) (d ! j)" if "parent j = i" for j
      using child [OF that] 2(2) irrefl asym by auto
    ultimately show ?thesis using 2 assms by (auto simp: parent_eq)
  next
    case 3
    then have "maxchild lt d sz i = 2 * i" by (simp add: maxchild_def left_def push_bit_eq_mult Let_def mult.commute [of i])
    moreover have "\<not> lt (d ! (2 * i)) (d ! j)" if "parent j = i" "j < sz" for j
      using child [OF that(1)] that(2) 3(2) irrefl by auto
    ultimately show ?thesis using 3 assms by (auto simp: parent_eq)
  qed
qed

lemma percolate_swap:
  assumes "edges lt d sz (\<lambda>j. parent j = i)" "bridged lt d sz i" "0 < i" "i < sz" "sz \<le> length d"
    and "parent c = i" "c < sz" "2 \<le> c" "\<forall>j < sz. parent j = i \<longrightarrow> \<not> lt (d ! c) (d ! j)" "lt (d ! i) (d ! c)"
  defines "d2 \<equiv> d[i := d ! c, c := d ! i]"
  shows "edges lt d2 sz (\<lambda>j. parent j = c)" and "bridged lt d2 sz c"
proof -
  have ic: "i < c" using child_pos [OF assms(6,3)] .
  have at: "d2 ! i = d ! c" "d2 ! c = d ! i" "\<And>j. j \<noteq> i \<Longrightarrow> j \<noteq> c \<Longrightarrow> d2 ! j = d ! j"
    using assms(4,5,7) ic by (auto simp: d2_def nth_list_update)
  have old: "\<not> lt (d ! parent j) (d ! j)" if "2 \<le> j" "j < sz" "parent j \<noteq> i" for j
    using assms(1) that by (simp add: edges_def)
  show "edges lt d2 sz (\<lambda>j. parent j = c)"
    unfolding edges_def
  proof (intro allI impI, elim conjE)
    fix j assume j: "2 \<le> j" "j < sz" "parent j \<noteq> c"
    consider "j = c" | "parent j = i" "j \<noteq> c" | "j = i" | "parent j \<noteq> i" "j \<noteq> i" "j \<noteq> c" by blast
    then show "\<not> lt (d2 ! parent j) (d2 ! j)"
    proof cases
      case 1
      then show ?thesis using at assms(6) asym [OF assms(10)] by simp
    next
      case 2
      then have "j \<noteq> i" using child_pos [OF _ assms(3)] by blast
      then show ?thesis using at 2 assms(9) j by simp
    next
      case 3
      have "parent i \<noteq> i" "parent i \<noteq> c" using assms(3) ic by (simp_all add: parent_eq)
      then show ?thesis using 3 at assms(2,6,7) j by (simp add: bridged_def)
    next
      case 4
      then show ?thesis using at(3) j old by simp
    qed
  qed
  have "\<not> lt (d2 ! parent c) (d2 ! j)" if j: "j < sz" "parent j = c" for j
  proof -
    have "c < j" "2 \<le> j" "parent j \<noteq> i" using child_pos [OF j(2)] assms(8) ic j(2) by simp_all
    then show ?thesis using at assms(6) ic old [of j] j by simp
  qed
  then show "bridged lt d2 sz c" by (simp add: bridged_def)
qed

lemma percolate_loop_heap:
  assumes "edges lt (d[i := m]) sz (\<lambda>j. parent j = i)" "bridged lt (d[i := m]) sz i" "0 < i" "i < sz" "sz \<le> length d"
    and "percolate_loop lt d sz i m = (d', i')"
  shows "edges lt (d'[i' := m]) sz (\<lambda>_. False) \<and> elems (d'[i' := m]) sz = elems (d[i := m]) sz \<and> length d' = length d"
  using assms
proof (induction "sz - i" arbitrary: d i rule: less_induct)
  case less
  let ?d = "d[i := m]" and ?c = "maxchild lt d sz i"
  have same: "?d ! j = d ! j" if "parent j = i" for j using child_pos [OF that less.prems(3)] by simp
  note mc = maxchild_cases [OF less.prems(3), of d sz]
  show ?case
  proof (cases "?c \<noteq> 0 \<and> lt m (d ! ?c)")
    case True
    with mc have c: "parent ?c = i" "?c < sz" "2 \<le> ?c" "\<forall>j < sz. parent j = i \<longrightarrow> \<not> lt (d ! ?c) (d ! j)" by auto
    have ic: "i < ?c" using child_pos [OF c(1) less.prems(3)] .
    have at: "?d ! i = m" "?d ! ?c = d ! ?c" using less.prems(4,5) ic by simp_all
    have swap: "d[i := d ! ?c, ?c := m] = ?d[i := ?d ! ?c, ?c := ?d ! i]" by (simp add: at)
    have "edges lt (d[i := d ! ?c, ?c := m]) sz (\<lambda>j. parent j = ?c)" "bridged lt (d[i := d ! ?c, ?c := m]) sz ?c"
      unfolding swap using percolate_swap [of ?d sz i ?c] less.prems c True at same by simp_all
    moreover have "elems (d[i := d ! ?c, ?c := m]) sz = elems ?d sz"
      unfolding swap using less.prems c ic by (intro elems_swap) simp_all
    moreover have "percolate_loop lt (d[i := d ! ?c]) sz ?c m = (d', i')"
      using less.prems(3,6) True by (simp add: percolate_loop.simps [of lt d sz i] Let_def)
    ultimately show ?thesis
      using less.hyps [of ?c "d[i := d ! ?c]"] less.prems(4,5) c ic by simp
  next
    case False
    have "\<not> lt m (d ! j)" if j: "j < sz" "parent j = i" for j
      using mc
    proof
      assume "?c = 0 \<and> sz \<le> 2 * i"
      then show ?thesis using j by (simp add: parent_eq) linarith
    next
      assume "parent ?c = i \<and> ?c < sz \<and> 2 \<le> ?c \<and> (\<forall>j < sz. parent j = i \<longrightarrow> \<not> lt (d ! ?c) (d ! j))"
      then show ?thesis using False j neg_trans by auto
    qed
    then have "edges lt ?d sz (\<lambda>_. False)"
      using less.prems(1,4,5) same unfolding edges_def by (metis nth_list_update_eq less_le_trans)
    then show ?thesis using False less.prems(6) by (auto simp: percolate_loop.simps [of lt d sz i] Let_def)
  qed
qed

lemma root_max:
  assumes "edges lt d sz (\<lambda>_. False)" "0 < j" "j < sz"
  shows "\<not> lt (d ! 1) (d ! j)"
  using assms(2,3)
proof (induction j rule: less_induct)
  case (less j)
  show ?case
  proof (cases "j = 1")
    case True
    then show ?thesis using asym by blast
  next
    case False
    with less.prems have p: "parent j < j" "0 < parent j" "2 \<le> j" by (simp_all add: parent_eq)
    with less.IH [OF p(1)] assms(1) less.prems show ?thesis
      unfolding edges_def by (meson less_trans neg_trans)
  qed
qed

end

section \<open>Queues\<close>

definition pq_ok :: "('a \<Rightarrow> 'a \<Rightarrow> bool) \<Rightarrow> 'a git_pqueue \<Rightarrow> bool" where
  "pq_ok lt q \<longleftrightarrow> 1 \<le> q_size q \<and> q_size q \<le> q_avail q \<and> length (q_d q) = q_avail q \<and> 0 < q_step q \<and>
     edges lt (q_d q) (q_size q) (\<lambda>_. False)"

definition contents :: "'a git_pqueue \<Rightarrow> 'a multiset" where
  "contents q = elems (q_d q) (q_size q)"

lemma set_elems:
  assumes "1 \<le> sz" "sz \<le> length d"
  shows "x \<in># elems d sz \<longleftrightarrow> (\<exists>j. 0 < j \<and> j < sz \<and> x = d ! j)"
proof -
  have "x \<in># elems d sz \<longleftrightarrow> (\<exists>k < sz - 1. x = d ! Suc k)"
    using assms by (auto simp: elems_def in_set_conv_nth)
  then show ?thesis using assms(1) by (metis Suc_diff_1 Suc_less_eq less_eq_Suc_le One_nat_def zero_less_Suc gr0_conv_Suc)
qed

lemma elems_Suc:
  assumes "1 \<le> sz" "sz < length d"
  shows "elems d (Suc sz) = add_mset (d ! sz) (elems d sz)"
proof -
  obtain k where k: "sz = Suc k" using assms(1) by (cases sz) auto
  then show ?thesis using assms(2) by (simp add: elems_def take_Suc_conv_app_nth)
qed

lemma elems_update_out: "sz \<le> i \<Longrightarrow> 1 \<le> sz \<Longrightarrow> elems (d[i := x]) sz = elems d sz"
  by (cases i) (simp_all add: elems_def drop_update_swap)

lemma elems_update:
  assumes "0 < i" "i < sz" "sz \<le> length d"
  shows "elems (d[i := x]) sz = add_mset x (elems d sz - {#d ! i#})"
proof -
  obtain k where k: "i = Suc k" using assms(1) by (cases i) auto
  then show ?thesis using assms(2,3) by (simp add: elems_def drop_update_swap take_update_swap mset_update)
qed

context strict_weak
begin

lemma insert_ok:
  assumes "pq_ok lt q" "git_pqueue_insert lt True junk q x = (rc, q')"
  shows "rc = 0 \<and> pq_ok lt q' \<and> contents q' = add_mset x (contents q)"
proof -
  define q1 where "q1 = (if q_avail q \<le> q_size q
    then q\<lparr>q_d := q_d q @ map junk [length (q_d q)..<q_size q + q_step q], q_avail := q_size q + q_step q\<rparr> else q)"
  let ?i = "q_size q1" and ?d = "(q_d q1)[q_size q1 := x]"
  have q: "1 \<le> q_size q" "q_size q \<le> length (q_d q)" "length (q_d q) = q_avail q" "0 < q_step q"
    "edges lt (q_d q) (q_size q) (\<lambda>_. False)" using assms(1) by (simp_all add: pq_ok_def)
  have q1: "?i = q_size q" "length (q_d q1) = q_avail q1" "?i < q_avail q1" "q_step q1 = q_step q"
      "\<And>j. j < ?i \<Longrightarrow> q_d q1 ! j = q_d q ! j"
    using q by (auto simp: q1_def nth_append)
  have "elems (q_d q1) ?i = elems (q_d q) (q_size q)"
    using q by (simp add: q1_def elems_def)
  then have el: "elems ?d (Suc ?i) = add_mset x (contents q)"
    using elems_Suc [of ?i ?d] elems_update_out [of ?i ?i "q_d q1" x] q(1) q1 by (simp add: contents_def)
  have "edges lt ?d (Suc ?i) (\<lambda>j. j = ?i)"
    using q(5) q1(1,3,5) unfolding edges_def
    by (auto simp: parent_eq less_Suc_eq nth_list_update)
  moreover have "\<not> j < Suc ?i" if "parent j = ?i" for j using child_pos [OF that] q(1) q1(1) by simp
  then have "bridged lt ?d (Suc ?i) ?i" unfolding bridged_def by blast
  moreover obtain d' i' where b: "bubble_loop lt ?d ?i x = (d', i')" by fastforce
  ultimately have h: "edges lt (d'[i' := x]) (Suc ?i) (\<lambda>_. False)" "elems (d'[i' := x]) (Suc ?i) = elems ?d (Suc ?i)"
      "length d' = length ?d"
    using bubble_loop_heap [of ?d ?i x "Suc ?i" d' i'] q(1) q1 by simp_all
  have "q' = q1\<lparr>q_size := Suc ?i, q_d := d'[i' := x]\<rparr>" "rc = 0"
    using assms(2) b q1 by (simp_all add: git_pqueue_insert_def Let_def bubble_up_def flip: q1_def)
  with h el q q1 show ?thesis by (simp add: pq_ok_def contents_def)
qed

lemma pop_ok:
  assumes "pq_ok lt q" "git_pqueue_pop lt q = (r, q')"
  shows "pq_ok lt q' \<and>
    (case r of
       None \<Rightarrow> contents q = {#} \<and> q' = q
     | Some x \<Rightarrow> x \<in># contents q \<and> (\<forall>y \<in># contents q. \<not> lt x y) \<and> contents q' = contents q - {#x#} \<and>
         git_pqueue_peek q = Some x)"
proof (cases "q_size q = 1")
  case True
  with assms show ?thesis by (simp add: git_pqueue_pop_def contents_def elems_def)
next
  case False
  define sz where "sz = q_size q - 1"
  let ?d = "(q_d q)[1 := q_d q ! sz]" and ?m = "q_d q ! sz"
  have q: "q_size q = Suc sz" "1 \<le> sz" "Suc sz \<le> length (q_d q)" "edges lt (q_d q) (Suc sz) (\<lambda>_. False)"
    using assms(1) False by (auto simp: pq_ok_def sz_def)
  obtain d' i' where b: "percolate_loop lt ?d sz 1 ?m = (d', i')" by fastforce
  have res: "r = Some (q_d q ! 1)" "q' = q\<lparr>q_size := sz, q_d := d'[i' := ?m]\<rparr>"
    using assms(2) False b q by (simp_all add: git_pqueue_pop_def percolate_down_def Let_def flip: sz_def)
  have all: "contents q = add_mset ?m (elems (q_d q) sz)" using elems_Suc [of sz "q_d q"] q by (simp add: contents_def)
  have h: "edges lt (d'[i' := ?m]) sz (\<lambda>_. False) \<and> elems (d'[i' := ?m]) sz = contents q - {#q_d q ! 1#} \<and>
      length d' = length (q_d q)"
  proof (cases "sz = 1")
    case True
    then have "percolate_loop lt ?d sz 1 ?m = (?d, 1)"
      by (simp add: percolate_loop.simps maxchild_def left_def)
    with b True all show ?thesis by (auto simp: edges_def elems_def)
  next
    case False
    have "edges lt (?d[1 := ?m]) sz (\<lambda>j. parent j = 1)"
      using q unfolding edges_def by (auto simp: parent_eq nth_list_update)
    moreover have "bridged lt (?d[1 := ?m]) sz 1" by (simp add: bridged_def)
    moreover have "elems (?d[1 := ?m]) sz = contents q - {#q_d q ! 1#}"
    proof -
      have "q_d q ! 1 \<in># elems (q_d q) sz" using set_elems [of sz "q_d q"] q False by (metis One_nat_def le_neq_implies_less less_one Suc_leD)
      then show ?thesis using elems_update [of 1 sz "q_d q" ?m] q False all by (simp add: add_mset_diff_bothsides)
    qed
    ultimately show ?thesis using percolate_loop_heap [of ?d 1 ?m sz d' i'] b q False by simp
  qed
  have mem: "y \<in># contents q \<longleftrightarrow> (\<exists>j. 0 < j \<and> j < Suc sz \<and> y = q_d q ! j)" for y
    using set_elems [of "Suc sz" "q_d q"] q by (simp add: contents_def)
  then have "q_d q ! 1 \<in># contents q" "\<forall>y \<in># contents q. \<not> lt (q_d q ! 1) y"
    using q(2) root_max [OF q(4)] by auto
  with h res q assms(1) False show ?thesis
    by (simp add: pq_ok_def contents_def git_pqueue_peek_def)
qed

end

section \<open>Properties\<close>

text \<open>
  (C19) The queue is a priority queue: for a comparison that is a strict weak order, insertion adds the
  element to the multiset of contents, and popping removes an element that none of the others
  outranks, the one that \<open>peek\<close> shows; both keep the heap well formed and inside its array.
\<close>

theorem git_pqueue_correct:
  assumes "strict_weak cmppri" "pq_ok cmppri q"
  shows "(\<exists>q'. git_pqueue_insert cmppri True junk q x = (0, q') \<and> pq_ok cmppri q' \<and>
      contents q' = add_mset x (contents q)) \<and>
    (contents q \<noteq> {#} \<longrightarrow> (\<exists>y q'. git_pqueue_pop cmppri q = (Some y, q') \<and> git_pqueue_peek q = Some y \<and>
      pq_ok cmppri q' \<and> y \<in># contents q \<and> (\<forall>z \<in># contents q. \<not> cmppri y z) \<and> contents q' = contents q - {#y#}))"
proof -
  obtain rc qi where i: "git_pqueue_insert cmppri True junk q x = (rc, qi)" by fastforce
  obtain r qp where p: "git_pqueue_pop cmppri q = (r, qp)" by fastforce
  from strict_weak.insert_ok [OF assms i] strict_weak.pop_ok [OF assms p] i p show ?thesis
    by (cases r) auto
qed

theorem git_pqueue_correct_witness:
  "\<exists>q q'. git_pqueue_init True (\<lambda>_. \<lparr>commit_oid = [], commit_time = 0\<rparr>) 1 = (0, Some q) \<and>
     git_pqueue_insert git_commit_list_time_cmp True (\<lambda>_. \<lparr>commit_oid = [], commit_time = 0\<rparr>) q
       \<lparr>commit_oid = [7], commit_time = 5\<rparr> = (0, q') \<and> contents q' = {#\<lparr>commit_oid = [7], commit_time = 5\<rparr>#}"
proof -
  let ?j = "\<lambda>_. \<lparr>commit_oid = [], commit_time = 0\<rparr>"
  obtain q where q: "git_pqueue_init True ?j 1 = (0, Some q)" "pq_ok git_commit_list_time_cmp q" "contents q = {#}"
    by (auto simp: git_pqueue_init_def pq_ok_def edges_def contents_def elems_def)
  from git_pqueue_correct [OF time_order.strict_weak_axioms q(2), of ?j "\<lparr>commit_oid = [7], commit_time = 5\<rparr>"] q
  show ?thesis by auto
qed

end
