(* ===== verification/Util.thy ===== *)
theory Util
  imports C_Strings "HOL-Library.Multiset"
begin

text \<open>
  \<open>libgit2-development/src/util.c\<close>: parsing numbers, comparing and splitting strings, the hash
  function, binary search and insertion sort.  A C string is the list of its characters; the end of
  the list is the terminating NUL.
\<close>

section \<open>Numbers\<close>

text \<open>The argument is a \<open>char\<close> promoted to \<open>int\<close>, so that the last test never succeeds for one.\<close>

definition git__isspace :: "int \<Rightarrow> bool" where
  "git__isspace c \<longleftrightarrow> c = 32 \<or> c = 9 \<or> c = 10 \<or> c = 12 \<or> c = 13 \<or> c = 11 \<or> c = 0x85"

definition digit_value :: "byte \<Rightarrow> int \<Rightarrow> int" where
  "digit_value b base =
     (let c = sint b
      in if 48 \<le> c \<and> c \<le> 57 then c - 48
         else if 97 \<le> c \<and> c \<le> 122 then c - 97 + 10
         else if 65 \<le> c \<and> c \<le> 90 then c - 65 + 10
         else base)"

text \<open>
  The digit loop; \<open>ovfl\<close> is set when the value gets smaller.  The arithmetic is that of the signed type
  \<open>int64_t\<close>, which C leaves undefined when it overflows; here it wraps, as the machine does and as the
  test \<open>nn < n\<close> presumes.
\<close>

fun strtol_digits :: "int \<Rightarrow> byte list \<Rightarrow> u64 \<Rightarrow> nat \<Rightarrow> bool \<Rightarrow> u64 \<times> nat \<times> bool \<times> byte list" where
  "strtol_digits base [] n ndig ovfl = (n, ndig, ovfl, [])"
| "strtol_digits base (c # p) n ndig ovfl =
     (let v = digit_value c base
      in if base \<le> v then (n, ndig, ovfl, c # p)
         else let nn = n * word_of_int base + word_of_int v
              in strtol_digits base p nn (ndig + 1) (ovfl \<or> sint nn < sint n))"

text \<open>Sign and base prefix: what is left of the string, the sign and the base; \<open>None\<close> is the jump to \<open>Return\<close>.\<close>

definition strtol_sign :: "byte list \<Rightarrow> bool \<times> byte list" where
  "strtol_sign p =
     (if str_head p = 45 then (True, tl p) else if str_head p = 43 then (False, tl p) else (False, p))"

definition strtol_base :: "int \<Rightarrow> byte list \<Rightarrow> (int \<times> byte list) option" where
  "strtol_base base p =
     (let x = (str_head (tl p) = 120 \<or> str_head (tl p) = 88)
      in if base = 0 then
           if str_head p \<noteq> 48 then Some (10, p)
           else if x then Some (16, drop 2 p) else Some (8, p)
         else if base = 16 \<and> str_head p = 48 then Some (base, if x then drop 2 p else p)
         else if base < 0 \<or> 36 < base then None
         else Some (base, p))"

text \<open>The result, if it is stored, and the end pointer, if it is stored.\<close>

definition git__strtol64 :: "byte list \<Rightarrow> int \<Rightarrow> int \<times> u64 option \<times> byte list option" where
  "git__strtol64 nptr base =
     (let p = dropWhile (\<lambda>c. git__isspace (sint c)) nptr;
          (neg, p) = strtol_sign p
      in case strtol_base base p of
        None \<Rightarrow> (- 1, None, None)
      | Some (base, p) \<Rightarrow>
          let (n, ndig, ovfl, p) = strtol_digits base p 0 0 False
          in if ndig = 0 then (- 1, None, None)
             else if ovfl then (- 1, None, Some p)
             else (0, Some (if neg then - n else n), Some p))"

definition git__strtol32 :: "byte list \<Rightarrow> int \<Rightarrow> int \<times> u32 option \<times> byte list option" where
  "git__strtol32 nptr base =
     (case git__strtol64 nptr base of
        (error, tmp_long, endptr) \<Rightarrow>
          if error < 0 then (error, None, endptr)
          else (case tmp_long of
            None \<Rightarrow> (error, None, endptr)
          | Some l \<Rightarrow>
              let tmp_int = (ucast l :: u32)
              in if sint tmp_int \<noteq> sint l then (- 1, None, endptr) else (error, Some tmp_int, endptr)))"

section \<open>Strings\<close>

fun git__strcmp :: "byte list \<Rightarrow> byte list \<Rightarrow> int" where
  "git__strcmp (a # as) (b # bs) =
     (if a \<noteq> 0 \<and> b \<noteq> 0 \<and> a = b then git__strcmp as bs else uint a - uint b)"
| "git__strcmp as bs = uint (str_head as) - uint (str_head bs)"

fun git__strcasecmp :: "byte list \<Rightarrow> byte list \<Rightarrow> int" where
  "git__strcasecmp (a # as) (b # bs) =
     (if a \<noteq> 0 \<and> b \<noteq> 0 \<and> tolower a = tolower b then git__strcasecmp as bs else sint (tolower a) - sint (tolower b))"
| "git__strcasecmp as bs = sint (tolower (str_head as)) - sint (tolower (str_head bs))"

fun git__strcasesort_loop :: "byte list \<Rightarrow> byte list \<Rightarrow> int \<Rightarrow> int" where
  "git__strcasesort_loop (a # as) (b # bs) cmp =
     (if a \<noteq> 0 \<and> b \<noteq> 0 then
        if a \<noteq> b then
          if tolower a \<noteq> tolower b then sint (tolower a) - sint (tolower b)
          else git__strcasesort_loop as bs (if cmp = 0 then uint a - uint b else cmp)
        else git__strcasesort_loop as bs cmp
      else if a \<noteq> 0 \<or> b \<noteq> 0 then sint (tolower a) - sint (tolower b) else cmp)"
| "git__strcasesort_loop as bs cmp =
     (if str_head as \<noteq> 0 \<or> str_head bs \<noteq> 0
      then sint (tolower (str_head as)) - sint (tolower (str_head bs)) else cmp)"

definition git__strcasesort_cmp :: "byte list \<Rightarrow> byte list \<Rightarrow> int" where
  "git__strcasesort_cmp a b = git__strcasesort_loop a b 0"

fun git__strncmp :: "byte list \<Rightarrow> byte list \<Rightarrow> nat \<Rightarrow> int" where
  "git__strncmp as bs 0 = 0"
| "git__strncmp as bs (Suc sz) =
     (if str_head as \<noteq> 0 \<and> str_head bs \<noteq> 0 \<and> str_head as = str_head bs then git__strncmp (tl as) (tl bs) sz
      else uint (str_head as) - uint (str_head bs))"

text \<open>The count is decremented before it is tested, so that zero stands for \<open>2 ^ 64\<close>.\<close>

function git__strncasecmp :: "byte list \<Rightarrow> byte list \<Rightarrow> u64 \<Rightarrow> int" where
  "git__strncasecmp a b sz =
     (let al = tolower (str_head a); bl = tolower (str_head b)
      in if sz - 1 \<noteq> 0 \<and> al \<noteq> 0 \<and> al = bl then git__strncasecmp (tl a) (tl b) (sz - 1)
         else uint al - uint bl)"
  by pat_completeness auto
termination
  by (relation "measure (\<lambda>(a, b, sz). length a)") (auto simp: str_head_def tolower_def isupper_def split: list.splits)

declare git__strncasecmp.simps [simp del]

definition git__strntolower :: "byte list \<Rightarrow> nat \<Rightarrow> byte list" where
  "git__strntolower str len = map tolower (take len str) @ drop len str"

definition git__strtolower :: "byte list \<Rightarrow> byte list" where
  "git__strtolower str = git__strntolower str (strlen str)"

fun git__prefixcmp :: "byte list \<Rightarrow> byte list \<Rightarrow> int" where
  "git__prefixcmp str [] = 0"
| "git__prefixcmp str (p # prefix) =
     (if p = 0 then 0
      else if str_head str \<noteq> p then uint (str_head str) - uint p
      else git__prefixcmp (tl str) prefix)"

definition git__suffixcmp :: "byte list \<Rightarrow> byte list \<Rightarrow> int" where
  "git__suffixcmp str suffix =
     (let a = strlen str; b = strlen suffix
      in if a < b then - 1 else strcmp (drop (a - b) str) suffix)"

text \<open>The token and the new value of \<open>*end\<close>; \<open>strchr\<close> also finds the terminating NUL, which the loops test first.\<close>

definition git__strtok :: "byte list \<Rightarrow> byte list \<Rightarrow> (byte list \<times> byte list) option" where
  "git__strtok end_ptr sep =
     (let ptr = dropWhile (\<lambda>c. c \<in> set sep) end_ptr
      in if ptr \<noteq> [] then
           let tok = hd ptr # takeWhile (\<lambda>c. c \<notin> set sep) (tl ptr);
               rest = dropWhile (\<lambda>c. c \<notin> set sep) (tl ptr)
           in Some (tok, tl rest)
         else None)"

definition git__strsep :: "byte list \<Rightarrow> byte list \<Rightarrow> (byte list \<times> byte list) option" where
  "git__strsep end_ptr sep =
     (let ptr = dropWhile (\<lambda>c. c \<notin> set sep) end_ptr
      in if ptr \<noteq> [] then Some (takeWhile (\<lambda>c. c \<notin> set sep) end_ptr, tl ptr) else None)"

definition strcasecmp_eq :: "byte list \<Rightarrow> byte list \<Rightarrow> bool" where
  "strcasecmp_eq a b \<longleftrightarrow> map tolower a = map tolower b"

definition git__parse_bool :: "byte list option \<Rightarrow> int \<times> int option" where
  "git__parse_bool value =
     (case value of
        None \<Rightarrow> (0, Some 1)
      | Some v \<Rightarrow>
          if strcasecmp_eq v (ascii ''true'') \<or> strcasecmp_eq v (ascii ''yes'') \<or> strcasecmp_eq v (ascii ''on'') then (0, Some 1)
          else if strcasecmp_eq v (ascii ''false'') \<or> strcasecmp_eq v (ascii ''no'') \<or> strcasecmp_eq v (ascii ''off'') \<or> str_head v = 0
          then (0, Some 0)
          else (- 1, None))"

text \<open>The string in place after the call; the value returned is its length.\<close>

fun git__unescape :: "byte list \<Rightarrow> byte list" where
  "git__unescape [] = []"
| "git__unescape [c] = [c]"
| "git__unescape (c # d # s) = (if c = 92 then d # git__unescape s else c # git__unescape (d # s))"

section \<open>Hashing\<close>

definition MURMUR_BLOCK :: "u32 \<Rightarrow> u32 \<times> u32 \<times> u32 \<Rightarrow> u32 \<times> u32 \<times> u32" where
  "MURMUR_BLOCK k1 st =
     (let (h1, c1, c2) = st;
          k1 = rotl32 11 (k1 * c1) * c2
      in ((h1 XOR k1) * 3 + 0x52dce729, c1 * 5 + 0x7b7d159c, c2 * 5 + 0x6bce6396))"

text \<open>The words are read in the byte order of a little-endian machine.\<close>

definition git__hash :: "byte list \<Rightarrow> u32 \<Rightarrow> u32" where
  "git__hash key seed =
     (let len = length key;
          nblocks = len div 4;
          blocks = map le32 (chunks 4 (take (4 * nblocks) key));
          st = fold MURMUR_BLOCK blocks (0x971e137b XOR seed, 0x95543787, 0x2ad7eb25);
          tail = drop (4 * nblocks) key;
          k1 = (if len mod 4 = 3 then push_bit 16 (ucast (tail ! 2)) else 0) XOR
               (if 2 \<le> len mod 4 then push_bit 8 (ucast (tail ! 1)) else 0) XOR
               (if 1 \<le> len mod 4 then ucast (tail ! 0) else 0);
          st = (if 1 \<le> len mod 4 then MURMUR_BLOCK k1 st else st);
          h1 = fst st XOR of_nat len;
          h1 = (h1 XOR drop_bit 16 h1) * 0x85ebca6b;
          h1 = (h1 XOR drop_bit 13 h1) * 0xc2b2ae35
      in h1 XOR drop_bit 16 h1)"

section \<open>Searching and sorting\<close>

text \<open>\<open>compare x\<close> compares the key with the element \<open>x\<close>; \<open>base\<close> is an index of the array.\<close>

function bsearch_loop :: "('a \<Rightarrow> int) \<Rightarrow> 'a list \<Rightarrow> nat \<Rightarrow> nat \<Rightarrow> int \<Rightarrow> int \<times> nat" where
  "bsearch_loop compare array base lim cmp =
     (if lim = 0 then (cmp, base)
      else let part = base + lim div 2;
               cmp = compare (array ! part)
           in if cmp = 0 then (cmp, part)
              else if 0 < cmp then bsearch_loop compare array (part + 1) ((lim - 1) div 2) cmp
              else bsearch_loop compare array base (lim div 2) cmp)"
  by pat_completeness auto
termination
  by (relation "measure (\<lambda>(compare, array, base, lim, cmp). lim)") auto

declare bsearch_loop.simps [simp del]

definition git__bsearch :: "'a list \<Rightarrow> ('a \<Rightarrow> int) \<Rightarrow> int \<times> nat" where
  "git__bsearch array compare =
     (let (cmp, position) = bsearch_loop compare array 0 (length array) (- 1)
      in (if cmp = 0 then 0 else - 3, position))"

text \<open>The inner loop moves the element at \<open>j\<close> down by swaps; the outer one starts with the second element.\<close>

fun insert_loop :: "('a \<Rightarrow> 'a \<Rightarrow> int) \<Rightarrow> 'a list \<Rightarrow> nat \<Rightarrow> 'a list" where
  "insert_loop cmp els 0 = els"
| "insert_loop cmp els (Suc j) =
     (if cmp (els ! Suc j) (els ! j) < 0 then insert_loop cmp (els[Suc j := els ! j, j := els ! Suc j]) j else els)"

definition git__insertsort_r :: "('a \<Rightarrow> 'a \<Rightarrow> int) \<Rightarrow> 'a list \<Rightarrow> 'a list" where
  "git__insertsort_r cmp els = fold (\<lambda>i els. insert_loop cmp els i) [1..<length els] els"

section \<open>Correctness of the searches\<close>

lemma bsearch_loop_correct:
  assumes "base + lim \<le> length array" "lim = 0 \<Longrightarrow> cmp \<noteq> 0"
    and "\<forall>i < base. 0 < compare (array ! i)"
    and "\<forall>i. base + lim \<le> i \<and> i < length array \<longrightarrow> compare (array ! i) < 0"
    and "sorted_wrt (\<lambda>x y. sgn (compare y) \<le> sgn (compare x)) array"
    and "bsearch_loop compare array base lim cmp = (c, pos)"
  shows "if c = 0 then pos < length array \<and> compare (array ! pos) = 0
         else pos \<le> length array \<and> (\<forall>i < pos. 0 < compare (array ! i)) \<and>
              (\<forall>i. pos \<le> i \<and> i < length array \<longrightarrow> compare (array ! i) < 0)"
  using assms
proof (induction compare array base lim cmp rule: bsearch_loop.induct)
  case (1 compare array base lim cmp)
  define part where "part = base + lim div 2"
  have mono: "sgn (compare (array ! j)) \<le> sgn (compare (array ! i))" if "i \<le> j" "j < length array" for i j
    using "1.prems"(5) that by (cases "i = j") (auto simp: sorted_wrt_iff_nth_less)
  consider "lim = 0" | "lim \<noteq> 0" "compare (array ! part) = 0"
    | "lim \<noteq> 0" "0 < compare (array ! part)" | "lim \<noteq> 0" "compare (array ! part) < 0"
    by linarith
  then show ?case
  proof cases
    case 1
    then show ?thesis using "1.prems" by (auto simp: bsearch_loop.simps [of _ _ _ 0])
  next
    case 2
    then show ?thesis using "1.prems"
      by (auto simp: bsearch_loop.simps [of _ _ _ lim] part_def Let_def)
  next
    case 3
    have left: "0 < compare (array ! i)" if "i < part + 1" for i
    proof -
      have "part < length array" using 3(1) "1.prems"(1) by (simp add: part_def)
      then show ?thesis using mono [of i part] that 3(2) by (auto simp: sgn_if split: if_splits)
    qed
    have size: "part + 1 + (lim - 1) div 2 = base + lim"
      using 3(1) by (auto simp: part_def)
    have step: "bsearch_loop compare array (part + 1) ((lim - 1) div 2) (compare (array ! part)) = (c, pos)"
      using 3 "1.prems"(6) by (simp add: bsearch_loop.simps [of _ _ _ lim] part_def Let_def)
    have "compare (array ! part) \<noteq> 0" "\<not> compare (array ! part) = 0" using 3(2) by simp_all
    note IH = "1.IH"(1) [OF 3(1) part_def refl this(2) 3(2) _ this(1) _ _ "1.prems"(5) step]
    show ?thesis by (rule IH) (use left size "1.prems"(1,4) in \<open>auto simp del: One_nat_def\<close>)
  next
    case 4
    have right: "compare (array ! i) < 0" if "part \<le> i" "i < length array" for i
      using mono [of part i] that 4(2) by (auto simp: sgn_if split: if_splits)
    have step: "bsearch_loop compare array base (lim div 2) (compare (array ! part)) = (c, pos)"
      using 4 "1.prems"(6) by (simp add: bsearch_loop.simps [of _ _ _ lim] part_def Let_def)
    have "compare (array ! part) \<noteq> 0" "\<not> compare (array ! part) = 0" "\<not> 0 < compare (array ! part)" using 4(2) by simp_all
    note IH = "1.IH"(2) [OF 4(1) part_def refl this(2) this(3) _ this(1) "1.prems"(3) _ "1.prems"(5) step]
    show ?thesis by (rule IH) (use right "1.prems"(1) in \<open>auto simp: part_def\<close>)
  qed
qed

lemma bsearch_result:
  assumes "sorted_wrt (\<lambda>x y. sgn (compare y) \<le> sgn (compare x)) array"
    and "git__bsearch array compare = (rc, pos)"
  shows "if \<exists>x \<in> set array. compare x = 0 then rc = 0 \<and> pos < length array \<and> compare (array ! pos) = 0
         else rc = - 3 \<and> pos \<le> length array \<and> (\<forall>i < pos. 0 < compare (array ! i)) \<and>
              (\<forall>i. pos \<le> i \<and> i < length array \<longrightarrow> compare (array ! i) < 0)"
proof -
  obtain c where c: "bsearch_loop compare array 0 (length array) (- 1) = (c, pos)" "rc = (if c = 0 then 0 else - 3)"
    using assms(2) by (auto simp: git__bsearch_def split: prod.splits)
  have *: "if c = 0 then pos < length array \<and> compare (array ! pos) = 0
     else pos \<le> length array \<and> (\<forall>i < pos. 0 < compare (array ! i)) \<and>
       (\<forall>i. pos \<le> i \<and> i < length array \<longrightarrow> compare (array ! i) < 0)"
    by (rule bsearch_loop_correct [OF _ _ _ _ assms(1) c(1)]) simp_all
  show ?thesis
  proof (cases "c = 0")
    case True
    then show ?thesis using * c(2) by (auto intro: nth_mem)
  next
    case False
    then have none: "compare (array ! i) \<noteq> 0" if "i < length array" for i
      using * that by (metis less_irrefl not_le)
    then show ?thesis using * c(2) False by (auto simp: in_set_conv_nth)
  qed
qed

text \<open>
  (C17) On an array that is sorted for the comparison, \<open>git__bsearch\<close> finds an element equal to the key if
  there is one; otherwise it returns \<open>GIT_ENOTFOUND\<close> and the position before which all elements are
  smaller and from which on all are greater, where the key would be inserted.
\<close>

theorem git__bsearch_correct:
  assumes "sorted_wrt (\<lambda>x y. sgn (compare y) \<le> sgn (compare x)) array"
    and "git__bsearch array compare = (rc, pos)"
  shows "if \<exists>x \<in> set array. compare x = 0 then rc = 0 \<and> pos < length array \<and> compare (array ! pos) = 0
         else rc = - 3 \<and> pos \<le> length array \<and> (\<forall>i < pos. 0 < compare (array ! i)) \<and>
              (\<forall>i. pos \<le> i \<and> i < length array \<longrightarrow> compare (array ! i) < 0)"
  by (rule bsearch_result [OF assms])

theorem git__bsearch_correct_witness:
  "git__bsearch [2, 4, 4, 9 :: int] (\<lambda>x. 5 - x) = (- 3, 3) \<and> (5 :: int) - [2, 4, 4, 9] ! 3 < 0"
proof -
  have run: "git__bsearch [2, 4, 4, 9 :: int] (\<lambda>x. 5 - x) = (- 3, 3)" by code_simp
  show ?thesis using git__bsearch_correct [OF _ run] run by simp
qed

section \<open>Correctness of the sort\<close>

lemma insert_loop_splits:
  "\<exists>ys zs. xs = ys @ zs \<and> insert_loop cmp (xs @ x # rest) (length xs) = ys @ x # zs @ rest \<and>
     (\<forall>z \<in> set zs. cmp x z < 0) \<and> (ys \<noteq> [] \<longrightarrow> \<not> cmp x (last ys) < 0)"
proof (induction xs arbitrary: rest rule: rev_induct)
  case Nil
  then show ?case by simp
next
  case (snoc y xs)
  show ?case
  proof (cases "cmp x y < 0")
    case True
    obtain ys zs where "xs = ys @ zs" "insert_loop cmp (xs @ x # y # rest) (length xs) = ys @ x # zs @ y # rest"
      "\<forall>z \<in> set zs. cmp x z < 0" "ys \<noteq> [] \<longrightarrow> \<not> cmp x (last ys) < 0"
      using snoc.IH [of "y # rest"] by blast
    then show ?thesis using True
      by (intro exI [of _ ys] exI [of _ "zs @ [y]"]) (auto simp: nth_append list_update_append)
  next
    case False
    then show ?thesis by (intro exI [of _ "xs @ [y]"] exI [of _ "[]"]) (simp add: nth_append)
  qed
qed

context strict_weak
begin

lemma sorted_insert:
  assumes "sorted_wrt (\<lambda>a b. \<not> lt b a) (ys @ zs)" "\<forall>z \<in> set zs. lt x z" "ys \<noteq> [] \<longrightarrow> \<not> lt x (last ys)"
  shows "sorted_wrt (\<lambda>a b. \<not> lt b a) (ys @ x # zs)"
proof -
  have "\<forall>y \<in> set ys. \<not> lt x y"
  proof (cases ys rule: rev_cases)
    case (snoc us u)
    then have "\<not> lt x u" "\<forall>y \<in> set us. \<not> lt u y" using assms(1,3) by (auto simp: sorted_wrt_append)
    then show ?thesis using snoc neg_trans [of x u] by auto
  qed simp
  then show ?thesis using assms(1,2) asym by (auto simp: sorted_wrt_append)
qed

end

lemma insert_loop_sorts:
  assumes "strict_weak (\<lambda>a b. cmp a b < 0)" "i < length els"
    and "sorted_wrt (\<lambda>a b. \<not> cmp b a < 0) (take i els)"
  shows "mset (insert_loop cmp els i) = mset els \<and>
         sorted_wrt (\<lambda>a b. \<not> cmp b a < 0) (take (Suc i) (insert_loop cmp els i))"
proof -
  have els: "els = take i els @ els ! i # drop (Suc i) els" using assms(2) by (rule id_take_nth_drop)
  have len: "length (take i els) = i" using assms(2) by simp
  obtain ys zs where *: "take i els = ys @ zs"
    "insert_loop cmp els i = ys @ els ! i # zs @ drop (Suc i) els"
    "\<forall>z \<in> set zs. cmp (els ! i) z < 0" "ys \<noteq> [] \<longrightarrow> \<not> cmp (els ! i) (last ys) < 0"
    using insert_loop_splits [of "take i els" cmp "els ! i" "drop (Suc i) els", unfolded len els [symmetric]] by blast
  have "take (Suc i) (insert_loop cmp els i) = ys @ els ! i # zs"
    using * len by (simp add: take_Cons' Suc_diff_le)
  moreover have "mset els = mset (ys @ zs) + mset (els ! i # drop (Suc i) els)"
    using els * (1) by (metis mset_append)
  ultimately show ?thesis
    using * strict_weak.sorted_insert [OF assms(1) _ *(3,4)] assms(3) by simp
qed

lemma insertsort_prefix:
  assumes "strict_weak (\<lambda>a b. cmp a b < 0)" "n < length els"
  shows "mset (fold (\<lambda>i els. insert_loop cmp els i) [1..<Suc n] els) = mset els \<and>
         sorted_wrt (\<lambda>a b. \<not> cmp b a < 0) (take (Suc n) (fold (\<lambda>i els. insert_loop cmp els i) [1..<Suc n] els))"
  using assms(2)
proof (induction n)
  case 0
  then show ?case by (cases els) simp_all
next
  case (Suc n)
  let ?els = "fold (\<lambda>i els. insert_loop cmp els i) [1..<Suc n] els"
  have IH: "mset ?els = mset els" "sorted_wrt (\<lambda>a b. \<not> cmp b a < 0) (take (Suc n) ?els)"
    using Suc by auto
  then have "Suc n < length ?els" using Suc.prems by (metis size_mset)
  from insert_loop_sorts [OF assms(1) this IH(2)] IH(1) show ?case by simp
qed

text \<open>
  For every comparison that is a strict weak order, \<open>git__insertsort_r\<close> leaves a permutation of the
  array in which no element is smaller than an earlier one.
\<close>

lemma git__insertsort_r_correct:
  assumes "strict_weak (\<lambda>a b. cmp a b < 0)"
  shows "mset (git__insertsort_r cmp els) = mset els \<and>
         sorted_wrt (\<lambda>a b. \<not> cmp b a < 0) (git__insertsort_r cmp els)"
proof (cases "length els")
  case 0
  then show ?thesis by (simp add: git__insertsort_r_def)
next
  case (Suc n)
  then have *: "mset (git__insertsort_r cmp els) = mset els"
    "sorted_wrt (\<lambda>a b. \<not> cmp b a < 0) (take (Suc n) (git__insertsort_r cmp els))"
    using insertsort_prefix [OF assms, of n els] by (simp_all add: git__insertsort_r_def)
  from *(1) have "length (git__insertsort_r cmp els) = Suc n" using Suc by (metis size_mset)
  then show ?thesis using * by simp
qed

section \<open>Correctness of the comparisons\<close>

lemma str_head_simps [simp]: "str_head [] = 0" "str_head (c # s) = c"
  by (simp_all add: str_head_def)

lemma uint_eq_0 [simp]: "uint (x :: byte) = 0 \<longleftrightarrow> x = 0"
  by (simp add: uint_0_iff)

lemma uint_inject: "uint (x :: byte) = uint y \<longleftrightarrow> x = y"
  by (simp add: word_eq_iff_unsigned [where 'a = int])

lemma git__strcmp_minus: "git__strcmp b a = - git__strcmp a b"
  by (induction a b rule: git__strcmp.induct) auto

text \<open>\<open>git__strcmp\<close> is a weak order; this is the law that the sort and the queue need.\<close>

lemma git__strcmp_trans:
  "0 \<le> git__strcmp a b \<Longrightarrow> 0 \<le> git__strcmp b c \<Longrightarrow> 0 \<le> git__strcmp a c"
proof (induction a arbitrary: b c)
  case Nil
  then show ?case by (cases b; cases c) (auto split: if_splits)
next
  case (Cons x a)
  then show ?case by (cases b; cases c) (auto split: if_splits simp: uint_inject)
qed

interpretation str_order: strict_weak "\<lambda>a b. git__strcmp a b < 0"
proof unfold_locales
  fix a b :: "byte list"
  assume "git__strcmp a b < 0"
  then show "\<not> git__strcmp b a < 0" using git__strcmp_minus [of a b] by simp
next
  fix a b c :: "byte list"
  assume "\<not> git__strcmp a b < 0" "\<not> git__strcmp b c < 0"
  then show "\<not> git__strcmp a c < 0" using git__strcmp_trans [of a b c] by simp
qed

lemma git__prefixcmp_iff:
  "0 \<notin> set p \<Longrightarrow> 0 \<notin> set s \<Longrightarrow> git__prefixcmp s p = 0 \<longleftrightarrow> take (length p) s = p"
proof (induction s p rule: git__prefixcmp.induct)
  case (2 s c p)
  then show ?case by (cases s) (auto simp: uint_inject)
qed simp

lemma strncmp_eq_0:
  "0 \<notin> set s \<Longrightarrow> 0 \<notin> set t \<Longrightarrow> length s < n \<Longrightarrow> length t < n \<Longrightarrow> strncmp n s t = 0 \<longleftrightarrow> s = t"
proof (induction n s t rule: strncmp.induct)
  case (2 n s t)
  then show ?case by (cases s; cases t) (auto simp: uint_inject)
qed simp

lemma git__strcmp_eq_0:
  "0 \<notin> set s \<Longrightarrow> 0 \<notin> set t \<Longrightarrow> git__strcmp s t = 0 \<longleftrightarrow> s = t"
proof (induction s arbitrary: t)
  case Nil
  then show ?case by (cases t) auto
next
  case (Cons a s)
  then show ?case by (cases t) (auto simp: uint_inject)
qed

text \<open>
  The comparisons of C strings decide what their names say: \<open>git__strcmp\<close> returns zero for equal
  strings only, \<open>git__prefixcmp\<close> when the second is a prefix of the first, and \<open>git__suffixcmp\<close> when it
  is a suffix.
\<close>

lemma string_compare_correct:
  assumes "0 \<notin> set s" "0 \<notin> set t"
  shows "(git__strcmp s t = 0 \<longleftrightarrow> s = t) \<and>
         (git__prefixcmp s t = 0 \<longleftrightarrow> (\<exists>u. s = t @ u)) \<and>
         (git__suffixcmp s t = 0 \<longleftrightarrow> (\<exists>u. s = u @ t))"
proof -
  have prefix: "take (length t) s = t \<longleftrightarrow> (\<exists>u. s = t @ u)"
    by (metis append_eq_conv_conj append_take_drop_id)
  have suffix: "drop (length s - length t) s = t \<longleftrightarrow> (\<exists>u. s = u @ t)" if "length t \<le> length s"
    using that by (metis append_eq_append_conv append_take_drop_id length_drop diff_diff_cancel)
  have "0 \<notin> set (drop k s)" for k using assms(1) by (meson in_set_dropD)
  then have "strcmp (drop (length s - length t) s) t = 0 \<longleftrightarrow> drop (length s - length t) s = t"
    unfolding strcmp_def using assms by (intro strncmp_eq_0) auto
  then show ?thesis
    using assms git__strcmp_eq_0 git__prefixcmp_iff prefix suffix
    by (cases "length s < length t") (auto simp: git__suffixcmp_def Let_def)
qed

section \<open>Correctness of the number parser\<close>

lemma digit_value_digit:
  assumes "d < 10"
  shows "digit_value (of_nat (48 + d)) 10 = int d"
proof -
  have "d \<in> {0, 1, 2, 3, 4, 5, 6, 7, 8, 9}" using assms by auto
  then show ?thesis by (auto simp: digit_value_def Let_def)
qed

lemma strtol_digits_append:
  assumes "n < 2 ^ 63"
  shows "\<exists>k > 0. strtol_digits 10 (decimal n @ rest) 0 0 False = strtol_digits 10 rest (of_nat n) k False"
  using assms
proof (induction n arbitrary: rest rule: decimal.induct)
  case (1 n)
  have sint: "sint (of_nat m :: u64) = int m" if "m \<le> n" for m
    using that "1.prems" by (simp add: sint_uint unsigned_of_nat take_bit_nat_eq_self signed_take_bit_int_eq_self)
  show ?case
  proof (cases "n < 10")
    case True
    then show ?thesis using digit_value_digit [OF True] sint [of n]
      by (intro exI [of _ 1]) (simp add: decimal.simps [of n] Let_def)
  next
    case False
    have d: "n mod 10 < 10" by simp
    obtain k where k: "strtol_digits 10 (decimal (n div 10) @ of_nat (48 + n mod 10) # rest) 0 0 False =
        strtol_digits 10 (of_nat (48 + n mod 10) # rest) (of_nat (n div 10)) k False"
      using "1.IH" [OF False] "1.prems" by (meson div_le_dividend le_less_trans)
    have val: "of_nat (n div 10) * 10 + of_nat (n mod 10) = (of_nat n :: u64)"
      by (metis div_mult_mod_eq of_nat_add of_nat_mult of_nat_numeral)
    show ?thesis
      using False k d digit_value_digit [OF d] div_le_dividend [of n 10] val sint [of n] sint [of "n div 10"]
      by (intro exI [of _ "Suc k"]) (simp add: decimal.simps [of n] Let_def not_le [symmetric])
  qed
qed

lemma hd_decimal: "\<exists>d < 10. \<exists>ds. decimal n = of_nat (48 + d) # ds"
proof (induction n rule: decimal.induct)
  case (1 n)
  then show ?case by (cases "n < 10") (auto simp: decimal.simps [of n])
qed

lemma digit_not_space:
  assumes "d < 10"
  shows "\<not> git__isspace (sint (of_nat (48 + d) :: byte))" "of_nat (48 + d) \<noteq> (45 :: byte)" "of_nat (48 + d) \<noteq> (43 :: byte)"
proof -
  have "d \<in> {0, 1, 2, 3, 4, 5, 6, 7, 8, 9}" using assms by auto
  then show "\<not> git__isspace (sint (of_nat (48 + d) :: byte))"
    "of_nat (48 + d) \<noteq> (45 :: byte)" "of_nat (48 + d) \<noteq> (43 :: byte)"
    by (auto simp: git__isspace_def)
qed

lemma strtol_digits_decimal:
  assumes "n < 2 ^ 63" "rest = [] \<or> 10 \<le> digit_value (hd rest) 10"
  shows "\<exists>k > 0. strtol_digits 10 (decimal n @ rest) 0 0 False = (of_nat n, k, False, rest)"
proof -
  have "strtol_digits 10 rest (of_nat n) k False = (of_nat n, k, False, rest)" for k
    using assms(2) by (cases rest) (auto simp: Let_def)
  then show ?thesis using strtol_digits_append [OF assms(1), of rest] by simp
qed

text \<open>
  (C18) Printing and parsing are inverse: the decimal digits of a number below \<open>2 ^ 63\<close>, after white space
  and with or without a minus sign, are read by \<open>git__strtol64\<close> as that number, and the end pointer is
  left at the first character that is not a digit.
\<close>

theorem git__strtol64_decimal:
  assumes "n < 2 ^ 63" "rest = [] \<or> 10 \<le> digit_value (hd rest) 10"
    and "\<forall>c \<in> set ws. git__isspace (sint c)"
  shows "git__strtol64 (ws @ decimal n @ rest) 10 = (0, Some (of_nat n), Some rest) \<and>
         git__strtol64 (ws @ 45 # decimal n @ rest) 10 = (0, Some (- of_nat n), Some rest)"
proof -
  obtain d ds where d: "d < 10" "decimal n = of_nat (48 + d) # ds" using hd_decimal by blast
  have skip: "dropWhile (\<lambda>c. git__isspace (sint c)) (ws @ decimal n @ rest) = decimal n @ rest"
    "dropWhile (\<lambda>c. git__isspace (sint c)) (ws @ 45 # decimal n @ rest) = 45 # decimal n @ rest"
    using assms(3) digit_not_space(1) [OF d(1)] by (auto simp: d(2) dropWhile_append git__isspace_def)
  have sign: "strtol_sign (decimal n @ rest) = (False, decimal n @ rest)"
    using digit_not_space(2,3) [OF d(1)] by (simp add: d(2) strtol_sign_def)
  have base: "strtol_base 10 p = Some (10, p)" for p by (simp add: strtol_base_def)
  obtain k where "0 < k" "strtol_digits 10 (decimal n @ rest) 0 0 False = (of_nat n, k, False, rest)"
    using strtol_digits_decimal [OF assms(1,2)] by blast
  then show ?thesis
    unfolding git__strtol64_def skip by (simp add: sign base strtol_sign_def [of "_ # _"])
qed

theorem git__strtol64_decimal_witness:
  "git__strtol64 ([32] @ decimal 1400 @ ascii '' +0200'') 10 = (0, Some 1400, Some (ascii '' +0200''))"
  using git__strtol64_decimal [of 1400 "ascii '' +0200''" "[32]"]
  by (simp add: ascii_def digit_value_def git__isspace_def)


text \<open>The 32-bit parser accepts what the 64-bit one does, when the value fits.\<close>

lemma git__strtol32_value:
  "git__strtol32 s base = (0, Some r, e) \<longleftrightarrow> (\<exists>l. git__strtol64 s base = (0, Some l, e) \<and> r = ucast l \<and> sint r = sint l)"
  by (auto simp: git__strtol32_def Let_def split: prod.splits option.splits if_splits)

section \<open>Tokens\<close>

text \<open>A token is a maximal run of characters that are not separators; there is none when all are.\<close>

lemma git__strtok_None: "git__strtok s sep = None \<longleftrightarrow> set s \<subseteq> set sep"
  by (auto simp: git__strtok_def Let_def)

lemma git__strtok_Some:
  assumes "git__strtok s sep = Some (tok, rest)"
  shows "tok \<noteq> [] \<and> set tok \<inter> set sep = {} \<and>
    (\<exists>pre. set pre \<subseteq> set sep \<and> (s = pre @ tok \<and> rest = [] \<or> (\<exists>c \<in> set sep. s = pre @ tok @ c # rest)))"
proof -
  define pre where "pre = takeWhile (\<lambda>c. c \<in> set sep) s"
  obtain x p where x: "dropWhile (\<lambda>c. c \<in> set sep) s = x # p"
    using assms by (cases "dropWhile (\<lambda>c. c \<in> set sep) s") (auto simp: git__strtok_def Let_def)
  then have s: "s = pre @ x # p" "x \<notin> set sep"
    using dropWhile_eq_Cons_conv [of "\<lambda>c. c \<in> set sep" s x p] by (auto simp: pre_def)
  define q where "q = dropWhile (\<lambda>c. c \<notin> set sep) p"
  have tok: "tok = x # takeWhile (\<lambda>c. c \<notin> set sep) p" "rest = tl q"
    using assms x by (auto simp: git__strtok_def q_def)
  have "p = takeWhile (\<lambda>c. c \<notin> set sep) p @ q" by (simp add: q_def)
  moreover have "q = [] \<or> hd q \<in> set sep" using hd_dropWhile [of "\<lambda>c. c \<notin> set sep" p] by (auto simp: q_def)
  moreover have "set pre \<subseteq> set sep" by (auto simp: pre_def dest: set_takeWhileD)
  moreover have "s = pre @ tok \<and> rest = [] \<or> (\<exists>c \<in> set sep. s = pre @ tok @ c # rest)"
    using calculation(1,2) s(1) tok by (cases q) auto
  moreover have "tok \<noteq> [] \<and> set tok \<inter> set sep = {}" using s(2) tok(1) by (auto dest: set_takeWhileD)
  ultimately show ?thesis by blast
qed

text \<open>A string without backslashes is its own unescaped form, and no string grows.\<close>

lemma git__unescape_plain: "92 \<notin> set s \<Longrightarrow> git__unescape s = s"
  by (induction s rule: git__unescape.induct) auto

lemma git__unescape_length: "length (git__unescape s) \<le> length s"
  by (induction s rule: git__unescape.induct) auto

end
