(* ===== verification/Tsort.thy ===== *)
theory Tsort
  imports Util
begin

text \<open>
  \<open>libgit2-development/src/tsort.c\<close>: the merge sort with natural runs that sorts every vector of libgit2.
  The array is a list; \<open>None\<close> is an access outside an array, that of the run stack included.  The stack
  of runs is a list whose head is the top, so that \<open>stack[stack_curr - 1]\<close> is its first element.
  \<open>realloc_ok n\<close> says whether \<open>git__realloc\<close> to \<open>n\<close> pointers succeeds; the comparison has its payload applied.
\<close>

section \<open>Binary insertion sort\<close>

text \<open>The loops that step over equal elements have no bound of their own.\<close>

function skip_equal :: "('a \<Rightarrow> 'a \<Rightarrow> int) \<Rightarrow> 'a \<Rightarrow> 'a list \<Rightarrow> nat \<Rightarrow> nat option" where
  "skip_equal cmp x dst i =
     (if i < length dst then if cmp x (dst ! i) = 0 then skip_equal cmp x dst (i + 1) else Some i else None)"
  by pat_completeness auto
termination
  by (relation "measure (\<lambda>(cmp, x, dst, i). length dst - i)") auto

declare skip_equal.simps [simp del]

function binsearch_loop :: "('a \<Rightarrow> 'a \<Rightarrow> int) \<Rightarrow> 'a \<Rightarrow> 'a list \<Rightarrow> nat \<Rightarrow> nat \<Rightarrow> nat option" where
  "binsearch_loop cmp x dst l r =
     (let c = l + (r - l) div 2
      in if length dst \<le> c then None
         else let v = cmp x (dst ! c)
              in if v < 0 then if c - l \<le> 1 then Some c else binsearch_loop cmp x dst l c
                 else if 0 < v then if r - c \<le> 1 then Some (c + 1) else binsearch_loop cmp x dst c r
                 else skip_equal cmp x dst (c + 1))"
  by pat_completeness auto
termination
  by (relation "measure (\<lambda>(cmp, x, dst, l, r). r - l)") (simp_all, linarith+)

declare binsearch_loop.simps [simp del]

definition binsearch :: "('a \<Rightarrow> 'a \<Rightarrow> int) \<Rightarrow> 'a list \<Rightarrow> 'a \<Rightarrow> nat \<Rightarrow> nat option" where
  "binsearch cmp dst x sz =
     (if dst = [] then None
      else if cmp x (dst ! 0) < 0 then Some 0
      else if cmp x (dst ! 0) = 0 then skip_equal cmp x dst 1
      else binsearch_loop cmp x dst 0 (sz - 1))"

text \<open>The loop that moves the elements from \<open>location\<close> on up by one; the second number is \<open>j + 1\<close>.\<close>

fun shift_right :: "'a list \<Rightarrow> nat \<Rightarrow> nat \<Rightarrow> 'a list" where
  "shift_right dst location 0 = dst"
| "shift_right dst location (Suc j) =
     (if location \<le> j then shift_right (dst[Suc j := dst ! j]) location j else dst)"

text \<open>The loop of \<open>bisort\<close> from index \<open>i\<close> on, for the given number of iterations.\<close>

primrec bisort_loop :: "('a \<Rightarrow> 'a \<Rightarrow> int) \<Rightarrow> nat \<Rightarrow> nat \<Rightarrow> 'a list \<Rightarrow> 'a list option" where
  "bisort_loop cmp 0 i dst = Some dst"
| "bisort_loop cmp (Suc n) i dst =
     (if cmp (dst ! (i - 1)) (dst ! i) \<le> 0 then bisort_loop cmp n (i + 1) dst
      else let x = dst ! i
           in case binsearch cmp dst x i of
             None \<Rightarrow> None
           | Some location \<Rightarrow> bisort_loop cmp n (i + 1) ((shift_right dst location i)[location := x]))"

definition bisort :: "('a \<Rightarrow> 'a \<Rightarrow> int) \<Rightarrow> 'a list \<Rightarrow> nat \<Rightarrow> nat \<Rightarrow> 'a list option" where
  "bisort cmp dst start sz = bisort_loop cmp (sz - start) start dst"

section \<open>Runs\<close>

record tsort_run =
  run_start :: nat
  run_length :: nat

function reverse_elements :: "'a list \<Rightarrow> nat \<Rightarrow> nat \<Rightarrow> 'a list" where
  "reverse_elements dst s e =
     (if s < e then reverse_elements (dst[s := dst ! e, e := dst ! s]) (s + 1) (e - 1) else dst)"
  by pat_completeness auto
termination
  by (relation "measure (\<lambda>(dst, s, e). e - s)") auto

declare reverse_elements.simps [simp del]

text \<open>Both loops of \<open>count_run\<close>: \<open>ok\<close> is the test of two neighbours.\<close>

function run_end :: "('a \<Rightarrow> 'a \<Rightarrow> bool) \<Rightarrow> 'a list \<Rightarrow> nat \<Rightarrow> nat \<Rightarrow> nat" where
  "run_end ok dst cur sz =
     (if cur < sz - 1 \<and> ok (dst ! (cur - 1)) (dst ! cur) then run_end ok dst (cur + 1) sz else cur)"
  by pat_completeness auto
termination
  by (relation "measure (\<lambda>(ok, dst, cur, sz). sz - cur)") auto

declare run_end.simps [simp del]

definition count_run :: "('a \<Rightarrow> 'a \<Rightarrow> int) \<Rightarrow> 'a list \<Rightarrow> nat \<Rightarrow> nat \<Rightarrow> 'a list \<times> nat" where
  "count_run cmp dst start sz =
     (if sz - start = 1 then (dst, 1)
      else if sz - 2 \<le> start then
        (if 0 < cmp (dst ! (sz - 2)) (dst ! (sz - 1))
         then dst[sz - 1 := dst ! (sz - 2), sz - 2 := dst ! (sz - 1)] else dst, 2)
      else if cmp (dst ! start) (dst ! (start + 1)) \<le> 0 then
        (dst, run_end (\<lambda>a b. cmp a b \<le> 0) dst (start + 2) sz - start)
      else
        let cur = run_end (\<lambda>a b. 0 < cmp a b) dst (start + 2) sz
        in (reverse_elements dst start (cur - 1), cur - start))"

fun minrun_loop :: "nat \<Rightarrow> nat \<Rightarrow> nat" where
  "minrun_loop n r = (if 64 \<le> n then minrun_loop (n div 2) (if odd n then 1 else r) else n + r)"

declare minrun_loop.simps [simp del]

definition compute_minrun :: "nat \<Rightarrow> nat" where
  "compute_minrun n = minrun_loop n 0"

definition check_invariant :: "tsort_run list \<Rightarrow> bool" where
  "check_invariant stack =
     (case stack of
        C # B # A # _ \<Rightarrow> \<not> (run_length A \<le> run_length B + run_length C \<or> run_length B \<le> run_length C)
      | [B, A] \<Rightarrow> run_length B < run_length A
      | _ \<Rightarrow> True)"

section \<open>Merging\<close>

text \<open>The size of the temporary storage, and whether it could be had.\<close>

definition tsort_resize :: "(nat \<Rightarrow> bool) \<Rightarrow> nat \<Rightarrow> nat \<Rightarrow> bool \<times> nat" where
  "tsort_resize realloc_ok store new_size =
     (if store < new_size then if realloc_ok new_size then (True, new_size) else (False, store) else (True, store))"

text \<open>The left merge: \<open>e\<close> is \<open>curr + A + B\<close>, the first number the iterations that are left.\<close>

primrec merge_left :: "('a \<Rightarrow> 'a \<Rightarrow> int) \<Rightarrow> nat \<Rightarrow> 'a list \<Rightarrow> nat \<Rightarrow> 'a list \<Rightarrow> nat \<Rightarrow> nat \<Rightarrow> nat \<Rightarrow> 'a list" where
  "merge_left cmp 0 storage e dst i j k = dst"
| "merge_left cmp (Suc n) storage e dst i j k =
     (if i < length storage \<and> j < e then
        if cmp (storage ! i) (dst ! j) \<le> 0 then merge_left cmp n storage e (dst[k := storage ! i]) (i + 1) j (k + 1)
        else merge_left cmp n storage e (dst[k := dst ! j]) i (j + 1) (k + 1)
      else if i < length storage then merge_left cmp n storage e (dst[k := storage ! i]) (i + 1) j (k + 1)
      else merge_left cmp n storage e (dst[k := dst ! j]) i (j + 1) (k + 1))"

text \<open>The right merge, downwards; here \<open>i\<close> and \<open>j\<close> are one more than in the source, and \<open>k\<close> is \<open>curr + n\<close>.\<close>

primrec merge_right :: "('a \<Rightarrow> 'a \<Rightarrow> int) \<Rightarrow> nat \<Rightarrow> 'a list \<Rightarrow> nat \<Rightarrow> 'a list \<Rightarrow> nat \<Rightarrow> nat \<Rightarrow> 'a list" where
  "merge_right cmp 0 storage cur dst i j = dst"
| "merge_right cmp (Suc n) storage cur dst i j =
     (let k = cur + n
      in if 0 < i \<and> cur < j then
           if 0 < cmp (dst ! (j - 1)) (storage ! (i - 1))
           then merge_right cmp n storage cur (dst[k := dst ! (j - 1)]) i (j - 1)
           else merge_right cmp n storage cur (dst[k := storage ! (i - 1)]) (i - 1) j
         else if 0 < i then merge_right cmp n storage cur (dst[k := storage ! (i - 1)]) (i - 1) j
         else merge_right cmp n storage cur (dst[k := dst ! (j - 1)]) i (j - 1))"

definition tsort_merge ::
  "(nat \<Rightarrow> bool) \<Rightarrow> ('a \<Rightarrow> 'a \<Rightarrow> int) \<Rightarrow> tsort_run \<Rightarrow> tsort_run \<Rightarrow> 'a list \<times> nat \<Rightarrow> 'a list \<times> nat" where
  "tsort_merge realloc_ok cmp rA rB s =
     (let (dst, store) = s; A = run_length rA; B = run_length rB; cur = run_start rA;
          (ok, store) = tsort_resize realloc_ok store (min A B)
      in if \<not> ok then (dst, store)
         else if A < B
         then (merge_left cmp (A + B) (take A (drop cur dst)) (cur + A + B) dst 0 (cur + A) cur, store)
         else (merge_right cmp (A + B) (take B (drop (cur + A) dst)) cur dst B (cur + A), store))"

text \<open>The run that two neighbours become.\<close>

definition joined :: "tsort_run \<Rightarrow> tsort_run \<Rightarrow> tsort_run" where
  "joined rA rB = rA\<lparr>run_length := run_length rA + run_length rB\<rparr>"

function collapse ::
  "(nat \<Rightarrow> bool) \<Rightarrow> ('a \<Rightarrow> 'a \<Rightarrow> int) \<Rightarrow> nat \<Rightarrow> 'a list \<times> nat \<Rightarrow> tsort_run list \<Rightarrow> ('a list \<times> nat) \<times> tsort_run list" where
  "collapse realloc_ok cmp sz s stack =
     (case stack of
        rC # rB # rA # rs \<Rightarrow>
          let A = run_length rA; B = run_length rB; C = run_length rC
          in if A \<le> B + C then
               if A < C then collapse realloc_ok cmp sz (tsort_merge realloc_ok cmp rA rB s) (rC # joined rA rB # rs)
               else collapse realloc_ok cmp sz (tsort_merge realloc_ok cmp rB rC s) (joined rB rC # rA # rs)
             else if B \<le> C then collapse realloc_ok cmp sz (tsort_merge realloc_ok cmp rB rC s) (joined rB rC # rA # rs)
             else (s, stack)
      | [r1, r0] \<Rightarrow>
          if run_length r0 + run_length r1 = sz then (tsort_merge realloc_ok cmp r0 r1 s, [joined r0 r1])
          else if run_length r0 \<le> run_length r1 then (tsort_merge realloc_ok cmp r0 r1 s, [joined r0 r1])
          else (s, stack)
      | _ \<Rightarrow> (s, stack))"
  by pat_completeness auto
termination
  by (relation "measure (\<lambda>(ok, cmp, sz, s, stack). length stack)") auto

declare collapse.simps [simp del]

fun finish_up ::
  "(nat \<Rightarrow> bool) \<Rightarrow> ('a \<Rightarrow> 'a \<Rightarrow> int) \<Rightarrow> 'a list \<times> nat \<Rightarrow> tsort_run list \<Rightarrow> 'a list" where
  "finish_up realloc_ok cmp s (rB # rA # rs) =
     finish_up realloc_ok cmp (tsort_merge realloc_ok cmp rA rB s) (joined rA rB # rs)"
| "finish_up realloc_ok cmp s stack = fst s"

section \<open>The sort\<close>

text \<open>\<open>Inl\<close> is the return of the sorted array, \<open>Inr\<close> the next state of the loop.\<close>

definition push_next ::
  "(nat \<Rightarrow> bool) \<Rightarrow> ('a \<Rightarrow> 'a \<Rightarrow> int) \<Rightarrow> nat \<Rightarrow> nat \<Rightarrow> ('a list \<times> nat) \<times> tsort_run list \<times> nat \<Rightarrow>
   ('a list + ('a list \<times> nat) \<times> tsort_run list \<times> nat) option" where
  "push_next realloc_ok cmp sz minrun st =
     (let ((dst, store), stack, cur) = st;
          (dst, len) = count_run cmp dst cur sz;
          run = min minrun (sz - cur);
          sorted = (if len < run then map_option (\<lambda>d. (take cur dst @ d, run)) (bisort cmp (drop cur dst) len run)
                    else Some (dst, len))
      in case sorted of
        None \<Rightarrow> None
      | Some (dst, len) \<Rightarrow>
          if 128 \<le> length stack then None
          else let stack = \<lparr>run_start = cur, run_length = len\<rparr> # stack; cur = cur + len
               in if cur = sz then Some (Inl (finish_up realloc_ok cmp (dst, store) stack))
                  else Some (Inr ((dst, store), stack, cur)))"

section \<open>Termination of the main loop\<close>

lemma run_end_ge: "cur \<le> run_end ok dst cur sz"
  by (induction ok dst cur sz rule: run_end.induct) (subst run_end.simps, auto)

lemma count_run_pos: "0 < snd (count_run cmp dst start sz)"
proof -
  have "start < run_end ok dst (start + 2) sz" for ok using run_end_ge [of "start + 2" ok dst sz] by simp
  then show ?thesis by (simp add: count_run_def Let_def)
qed

lemma push_next_grows:
  assumes "push_next realloc_ok cmp sz minrun (s, stack, cur) = Some (Inr (s', stack', cur'))"
  shows "cur < cur'"
proof -
  obtain dst store dst' len where s: "s = (dst, store)" "count_run cmp dst cur sz = (dst', len)" by (cases s) fastforce
  then have "0 < len" using count_run_pos [of cmp dst cur sz] by simp
  then show ?thesis using assms
    by (auto simp: push_next_def s Let_def split: option.splits if_splits)
qed

lemma collapse_le: "length (snd (collapse realloc_ok cmp sz s stack)) \<le> length stack"
proof (induction realloc_ok cmp sz s stack rule: collapse.induct)
  case (1 realloc_ok cmp sz s stack)
  show ?case
    by (subst collapse.simps) (use 1 in \<open>fastforce simp: Let_def split: list.splits\<close>)
qed

lemma collapse_shorter:
  assumes "\<not> check_invariant stack"
  shows "length (snd (collapse realloc_ok cmp sz s stack)) < length stack"
proof -
  consider rB rA where "stack = [rB, rA]" "run_length rA \<le> run_length rB"
    | rC rB rA rs where "stack = rC # rB # rA # rs" "run_length rA \<le> run_length rB + run_length rC \<or> run_length rB \<le> run_length rC"
    using assms by (auto simp: check_invariant_def not_less split: list.splits)
  then show ?thesis
  proof cases
    case 1
    then show ?thesis by (simp add: collapse.simps)
  next
    case 2
    note le = collapse_le [of realloc_ok cmp sz _ "_ # _ # rs"]
    show ?thesis using 2 le by (subst collapse.simps) (auto simp: Let_def less_Suc_eq_le)
  qed
qed

section \<open>The main loop\<close>

text \<open>The loop is left when \<open>curr\<close> is \<open>size\<close>, so that its first test never succeeds.\<close>

function tsort_loop ::
  "(nat \<Rightarrow> bool) \<Rightarrow> ('a \<Rightarrow> 'a \<Rightarrow> int) \<Rightarrow> nat \<Rightarrow> nat \<Rightarrow> ('a list \<times> nat) \<times> tsort_run list \<times> nat \<Rightarrow> 'a list option" where
  "tsort_loop realloc_ok cmp sz minrun (s, stack, cur) =
     (if sz \<le> cur then None
      else if \<not> check_invariant stack then
        tsort_loop realloc_ok cmp sz minrun
          (fst (collapse realloc_ok cmp sz s stack), snd (collapse realloc_ok cmp sz s stack), cur)
      else case push_next realloc_ok cmp sz minrun (s, stack, cur) of
        None \<Rightarrow> None
      | Some (Inl d) \<Rightarrow> Some d
      | Some (Inr (s', stack', cur')) \<Rightarrow> tsort_loop realloc_ok cmp sz minrun (s', stack', cur'))"
  by pat_completeness auto
termination
  by (relation "measures [\<lambda>(ok, cmp, sz, minrun, s, stack, cur). sz - cur, \<lambda>(ok, cmp, sz, minrun, s, stack, cur). length stack]")
    (auto simp: collapse_shorter dest: push_next_grows)

declare tsort_loop.simps [simp del]

primrec push_times ::
  "(nat \<Rightarrow> bool) \<Rightarrow> ('a \<Rightarrow> 'a \<Rightarrow> int) \<Rightarrow> nat \<Rightarrow> nat \<Rightarrow> nat \<Rightarrow> ('a list \<times> nat) \<times> tsort_run list \<times> nat \<Rightarrow> 'a list option" where
  "push_times realloc_ok cmp sz minrun 0 st = tsort_loop realloc_ok cmp sz minrun st"
| "push_times realloc_ok cmp sz minrun (Suc n) st =
     (case push_next realloc_ok cmp sz minrun st of
        None \<Rightarrow> None
      | Some (Inl d) \<Rightarrow> Some d
      | Some (Inr st) \<Rightarrow> push_times realloc_ok cmp sz minrun n st)"

definition git__tsort_r :: "(nat \<Rightarrow> bool) \<Rightarrow> ('a \<Rightarrow> 'a \<Rightarrow> int) \<Rightarrow> 'a list \<Rightarrow> 'a list option" where
  "git__tsort_r realloc_ok cmp dst =
     (let sz = length dst
      in if sz < 64 then bisort cmp dst 1 sz
         else push_times realloc_ok cmp sz (compute_minrun sz) 3 ((dst, 0), [], 0))"

section \<open>Comparisons\<close>

locale comparison =
  fixes cmp :: "'a \<Rightarrow> 'a \<Rightarrow> int"
  assumes flip: "0 < cmp a b \<longleftrightarrow> cmp b a < 0"
    and le_trans: "cmp a b \<le> 0 \<Longrightarrow> cmp b c \<le> 0 \<Longrightarrow> cmp a c \<le> 0"
begin

lemma le_refl: "cmp a a \<le> 0"
  using flip [of a a] by linarith

lemma not_le: "\<not> cmp a b \<le> 0 \<longleftrightarrow> cmp b a < 0"
  using flip [of a b] by linarith

lemma lt_le: "cmp a b < 0 \<Longrightarrow> cmp a b \<le> 0"
  by simp

lemma le_lt_trans: "cmp a b \<le> 0 \<Longrightarrow> cmp b c < 0 \<Longrightarrow> cmp a c < 0"
  using le_trans [of c a b] not_le [of c b] not_le [of c a] by linarith

lemma lt_le_trans: "cmp a b < 0 \<Longrightarrow> cmp b c \<le> 0 \<Longrightarrow> cmp a c < 0"
  using le_trans [of b c a] not_le [of b a] not_le [of c a] by linarith

end

sublocale comparison \<subseteq> strict_weak "\<lambda>a b. cmp a b < 0"
proof unfold_locales
  fix a b
  assume "cmp a b < 0"
  then show "\<not> cmp b a < 0" using not_le [of b a] not_le [of a b] by linarith
next
  fix a b c
  assume "\<not> cmp a b < 0" "\<not> cmp b c < 0"
  then show "\<not> cmp a c < 0" using le_trans [of c b a] not_le [of c b] not_le [of b a] not_le [of c a] by blast
qed

interpretation strcmp_order: comparison git__strcmp
proof unfold_locales
  fix a b c :: "byte list"
  show "0 < git__strcmp a b \<longleftrightarrow> git__strcmp b a < 0" using git__strcmp_minus [of a b] by simp
  show "git__strcmp a b \<le> 0 \<Longrightarrow> git__strcmp b c \<le> 0 \<Longrightarrow> git__strcmp a c \<le> 0"
    using git__strcmp_trans [of c b a] git__strcmp_minus [of a b] git__strcmp_minus [of b c] git__strcmp_minus [of a c] by simp
qed

definition sorted_by :: "('a \<Rightarrow> 'a \<Rightarrow> int) \<Rightarrow> 'a list \<Rightarrow> bool" where
  "sorted_by cmp xs \<longleftrightarrow> sorted_wrt (\<lambda>a b. cmp a b \<le> 0) xs"

section \<open>Correctness of the insertion sort\<close>

lemma shift_insert:
  assumes "location \<le> i" "i < length dst"
  shows "(shift_right dst location i)[location := x] = take location dst @ x # drop location (take i dst) @ drop (Suc i) dst"
  using assms
proof (induction i arbitrary: dst)
  case 0
  then show ?case by (cases dst) auto
next
  case (Suc i)
  show ?case
  proof (cases "location = Suc i")
    case True
    then show ?thesis using Suc.prems by (simp add: upd_conv_take_nth_drop)
  next
    case False
    let ?d = "dst[Suc i := dst ! i]"
    have "drop (Suc i) ?d = dst ! i # drop (Suc (Suc i)) dst"
      using Suc.prems by (simp add: drop_update_swap Cons_nth_drop_Suc [symmetric] list_update_append)
    moreover have "drop location (take (Suc i) dst) = drop location (take i dst) @ [dst ! i]"
      using False Suc.prems by (simp add: take_Suc_conv_app_nth)
    ultimately show ?thesis using Suc.IH [of ?d] False Suc.prems by simp
  qed
qed

text \<open>\<open>splits_at cmp dst sz x loc\<close>: the place of \<open>x\<close> among the first \<open>sz\<close> elements.\<close>

definition splits_at :: "('a \<Rightarrow> 'a \<Rightarrow> int) \<Rightarrow> 'a list \<Rightarrow> nat \<Rightarrow> 'a \<Rightarrow> nat \<Rightarrow> bool" where
  "splits_at cmp dst sz x loc \<longleftrightarrow> loc < sz \<and> (\<forall>j < loc. cmp (dst ! j) x \<le> 0) \<and> (\<forall>j. loc \<le> j \<and> j < sz \<longrightarrow> cmp x (dst ! j) < 0)"

context comparison
begin

lemma sorted_by_mono:
  assumes "sorted_by cmp (take n dst)" "i \<le> j" "j < n" "n \<le> length dst"
  shows "cmp (dst ! i) (dst ! j) \<le> 0"
proof (cases "i = j")
  case True
  then show ?thesis by (simp add: le_refl)
next
  case False
  then have "cmp (take n dst ! i) (take n dst ! j) \<le> 0"
    using assms by (auto simp: sorted_by_def sorted_wrt_iff_nth_less)
  then show ?thesis using assms by simp
qed

lemma skip_equal_stops:
  assumes "i \<le> k" "k < length dst" "cmp x (dst ! k) \<noteq> 0"
  shows "\<exists>m. skip_equal cmp x dst i = Some m \<and> i \<le> m \<and> m \<le> k \<and> cmp x (dst ! m) \<noteq> 0 \<and>
    (\<forall>j. i \<le> j \<and> j < m \<longrightarrow> cmp x (dst ! j) = 0)"
  using assms(1)
proof (induction "k - i" arbitrary: i)
  case 0
  then show ?case using assms by (auto simp: skip_equal.simps [of _ _ _ i])
next
  case (Suc d)
  show ?case
  proof (cases "cmp x (dst ! i) = 0")
    case True
    then have "i \<noteq> k" using assms(3) by auto
    then have "d = k - (i + 1)" "i + 1 \<le> k" using Suc.hyps(2) Suc.prems by linarith+
    from Suc.hyps(1) [OF this] obtain m where m: "skip_equal cmp x dst (i + 1) = Some m" "i + 1 \<le> m" "m \<le> k" "cmp x (dst ! m) \<noteq> 0"
      "\<forall>j. i + 1 \<le> j \<and> j < m \<longrightarrow> cmp x (dst ! j) = 0"
      by blast
    have "cmp x (dst ! j) = 0" if "i \<le> j" "j < m" for j using m(5) that True by (cases "j = i") auto
    then show ?thesis using m True Suc.prems assms(2) by (auto simp: skip_equal.simps [of _ _ _ i])
  next
    case False
    then show ?thesis using Suc.prems assms(2) by (auto simp: skip_equal.simps [of _ _ _ i])
  qed
qed

lemma splits_atI:
  assumes sorted: "sorted_by cmp (take sz dst)" "sz \<le> length dst"
    and "loc < sz" "cmp x (dst ! loc) < 0" "0 < loc \<Longrightarrow> cmp (dst ! (loc - 1)) x \<le> 0"
  shows "splits_at cmp dst sz x loc"
proof -
  have "cmp (dst ! j) x \<le> 0" if "j < loc" for j
    by (rule le_trans [OF sorted_by_mono [OF sorted(1) _ _ sorted(2)] assms(5)]) (use that assms(3) in auto)
  moreover have "cmp x (dst ! j) < 0" if "loc \<le> j" "j < sz" for j
    using sorted_by_mono [OF sorted(1) that(1) that(2) sorted(2)] assms(4) lt_le_trans by blast
  ultimately show ?thesis using assms(3) by (auto simp: splits_at_def)
qed

lemma skip_equal_splits:
  assumes sorted: "sorted_by cmp (take sz dst)" "sz \<le> length dst"
    and "0 < i" "i < sz" "cmp x (dst ! (i - 1)) = 0" "cmp x (dst ! (sz - 1)) < 0"
  shows "\<exists>loc. skip_equal cmp x dst i = Some loc \<and> splits_at cmp dst sz x loc"
proof -
  obtain m where m: "skip_equal cmp x dst i = Some m" "i \<le> m" "m \<le> sz - 1" "cmp x (dst ! m) \<noteq> 0"
    "\<forall>j. i \<le> j \<and> j < m \<longrightarrow> cmp x (dst ! j) = 0"
    using skip_equal_stops [of i "sz - 1" dst x] assms by force
  have eq: "cmp x (dst ! (m - 1)) = 0" using m(2,5) assms(3,5) by (cases "m = i") auto
  have "cmp x (dst ! m) \<le> 0"
    using sorted_by_mono [OF sorted(1), of "m - 1" m] sorted(2) m(3) assms(4) eq le_trans [of x "dst ! (m - 1)" "dst ! m"] by simp
  moreover have "cmp (dst ! (m - 1)) x \<le> 0" using eq flip [of x "dst ! (m - 1)"] flip [of "dst ! (m - 1)" x] by linarith
  ultimately show ?thesis using m splits_atI [OF sorted, of m x] assms(3,4) by auto
qed


lemma binsearch_loop_splits:
  assumes sorted: "sorted_by cmp (take sz dst)" "sz \<le> length dst"
    and "l < r" "r < sz" "0 < cmp x (dst ! l)" "cmp x (dst ! r) < 0" "cmp x (dst ! (sz - 1)) < 0"
  shows "\<exists>loc. binsearch_loop cmp x dst l r = Some loc \<and> splits_at cmp dst sz x loc"
  using assms(3-6)
proof (induction "r - l" arbitrary: l r rule: less_induct)
  case less
  define c where "c = l + (r - l) div 2"
  have c: "l \<le> c" "c < r" "c < length dst" using less.prems sorted(2) by (auto simp: c_def)
  have step: "binsearch_loop cmp x dst l r =
      (if cmp x (dst ! c) < 0 then if c - l \<le> 1 then Some c else binsearch_loop cmp x dst l c
       else if 0 < cmp x (dst ! c) then if r - c \<le> 1 then Some (c + 1) else binsearch_loop cmp x dst c r
       else skip_equal cmp x dst (c + 1))"
    using c by (subst binsearch_loop.simps) (simp add: c_def [symmetric] Let_def)
  consider "cmp x (dst ! c) < 0" | "0 < cmp x (dst ! c)" | "cmp x (dst ! c) = 0" by linarith
  then show ?case
  proof cases
    case 1
    then have "c \<noteq> l" using less.prems(3) by auto
    show ?thesis
    proof (cases "c - l \<le> 1")
      case True
      then have "c - 1 = l" using \<open>c \<noteq> l\<close> c(1) by simp
      moreover have "cmp (dst ! l) x \<le> 0" using less.prems(3) flip by simp
      ultimately have "splits_at cmp dst sz x c" using 1 c(2) less.prems(2) by (intro splits_atI [OF sorted]) auto
      then show ?thesis using 1 True step by simp
    next
      case False
      then show ?thesis using less.hyps [of c l] 1 less.prems c step by auto
    qed
  next
    case 2
    show ?thesis
    proof (cases "r - c \<le> 1")
      case True
      then have r: "r = c + 1" using c(2) by simp
      have "cmp (dst ! c) x \<le> 0" using 2 flip by simp
      then have "splits_at cmp dst sz x (c + 1)" using less.prems r by (intro splits_atI [OF sorted]) auto
      then show ?thesis using 2 True step by simp
    next
      case False
      then have "l < c" by (auto simp: c_def)
      then show ?thesis using less.hyps [of r c] 2 False less.prems c step by auto
    qed
  next
    case 3
    then show ?thesis using skip_equal_splits [OF sorted, of "c + 1" x] c less.prems(2) assms(7) step by simp
  qed
qed

lemma binsearch_splits:
  assumes sorted: "sorted_by cmp (take sz dst)" "sz \<le> length dst"
    and "0 < sz" "cmp x (dst ! (sz - 1)) < 0"
  shows "\<exists>loc. binsearch cmp dst x sz = Some loc \<and> splits_at cmp dst sz x loc"
proof -
  have "dst \<noteq> []" using assms by auto
  have one: "1 < sz" if "\<not> cmp x (dst ! 0) < 0" using that assms(3,4) by (cases "sz = 1") auto
  consider "cmp x (dst ! 0) < 0" | "cmp x (dst ! 0) = 0" | "0 < cmp x (dst ! 0)" by linarith
  then show ?thesis
  proof cases
    case 1
    then show ?thesis using splits_atI [OF sorted, of 0 x] assms(3) \<open>dst \<noteq> []\<close> by (simp add: binsearch_def)
  next
    case 2
    then show ?thesis using skip_equal_splits [OF sorted, of 1 x] one assms(4) \<open>dst \<noteq> []\<close> by (simp add: binsearch_def)
  next
    case 3
    then show ?thesis using binsearch_loop_splits [OF sorted, of 0 "sz - 1" x] one assms(4) \<open>dst \<noteq> []\<close>
      by (simp add: binsearch_def)
  qed
qed

lemma insert_sorted:
  assumes "sorted_by cmp (take i dst)" "i < length dst" "splits_at cmp dst i (dst ! i) loc"
  shows "sorted_by cmp (take loc dst @ dst ! i # drop loc (take i dst))"
proof -
  have loc: "loc < i" "\<forall>j < loc. cmp (dst ! j) (dst ! i) \<le> 0" "\<forall>j. loc \<le> j \<and> j < i \<longrightarrow> cmp (dst ! i) (dst ! j) < 0"
    using assms(3) by (auto simp: splits_at_def)
  have "take i dst = take loc dst @ drop loc (take i dst)"
    using loc(1) append_take_drop_id [of loc "take i dst"] by (simp add: min_def)
  then have "sorted_by cmp (take loc dst @ drop loc (take i dst))" using assms(1) by metis
  moreover have "\<forall>y \<in> set (take loc dst). cmp y (dst ! i) \<le> 0" using loc(1,2) assms(2) by (auto simp: in_set_conv_nth)
  moreover have "\<forall>z \<in> set (drop loc (take i dst)). cmp (dst ! i) z \<le> 0"
  proof
    fix z
    assume "z \<in> set (drop loc (take i dst))"
    then obtain k where "k < i - loc" "z = dst ! (loc + k)" using assms(2) by (auto simp: in_set_conv_nth)
    then show "cmp (dst ! i) z \<le> 0" using loc(3) by (simp add: less_imp_le)
  qed
  ultimately show ?thesis by (auto simp: sorted_by_def sorted_wrt_append)
qed

lemma bisort_loop_sorts:
  assumes "0 < i" "i + n \<le> length dst" "sorted_by cmp (take i dst)"
  shows "\<exists>d. bisort_loop cmp n i dst = Some d \<and> mset (take (i + n) d) = mset (take (i + n) dst) \<and>
    sorted_by cmp (take (i + n) d) \<and> drop (i + n) d = drop (i + n) dst \<and> length d = length dst"
  using assms
proof (induction n arbitrary: i dst)
  case 0
  then show ?case by simp
next
  case (Suc n)
  have i: "i < length dst" using Suc.prems(2) by simp
  have snoc: "take (Suc i) dst = take i dst @ [dst ! i]" using i by (rule take_Suc_conv_app_nth)
  show ?case
  proof (cases "cmp (dst ! (i - 1)) (dst ! i) \<le> 0")
    case True
    have "\<forall>y \<in> set (take i dst). cmp y (dst ! i) \<le> 0"
    proof
      fix y
      assume "y \<in> set (take i dst)"
      then obtain k where k: "k < i" "y = dst ! k" using i by (auto simp: in_set_conv_nth)
      show "cmp y (dst ! i) \<le> 0" unfolding k(2)
        by (rule le_trans [OF sorted_by_mono [OF Suc.prems(3)] True]) (use k i in auto)
    qed
    then have "sorted_by cmp (take (Suc i) dst)" using Suc.prems(3) by (auto simp: snoc sorted_by_def sorted_wrt_append)
    then show ?thesis using Suc.IH [of "Suc i" dst] Suc.prems True by simp
  next
    case False
    then have "cmp (dst ! i) (dst ! (i - 1)) < 0" using not_le by simp
    then obtain loc where loc: "binsearch cmp dst (dst ! i) i = Some loc" "splits_at cmp dst i (dst ! i) loc"
      using binsearch_splits [OF Suc.prems(3)] i Suc.prems(1) by auto
    have le: "loc < i" using loc(2) by (simp add: splits_at_def)
    define d where "d = (shift_right dst loc i)[loc := dst ! i]"
    have d: "d = take loc dst @ dst ! i # drop loc (take i dst) @ drop (Suc i) dst"
      unfolding d_def by (rule shift_insert) (use le i in auto)
    have t: "take (Suc i) d = take loc dst @ dst ! i # drop loc (take i dst)"
      using le i by (simp add: d take_Cons' Suc_diff_le min_def)
    have split: "take i dst = take loc dst @ drop loc (take i dst)"
      using le append_take_drop_id [of loc "take i dst"] by (simp add: min_def)
    have len: "length d = length dst" using le i by (simp add: d)
    have dr: "drop (Suc i) d = drop (Suc i) dst" using le i by (simp add: d Suc_diff_le)
    have "mset (take (Suc i) d) = mset (take loc dst @ drop loc (take i dst)) + {#dst ! i#}" by (simp add: t)
    then have ms: "mset (take (Suc i) d) = mset (take (Suc i) dst)" unfolding split [symmetric] snoc by simp
    have "sorted_by cmp (take (Suc i) d)" unfolding t by (rule insert_sorted [OF Suc.prems(3) i loc(2)])
    then obtain e where e: "bisort_loop cmp n (Suc i) d = Some e" "mset (take (Suc i + n) e) = mset (take (Suc i + n) d)"
      "sorted_by cmp (take (Suc i + n) e)" "drop (Suc i + n) e = drop (Suc i + n) d" "length e = length d"
      using Suc.IH [of "Suc i" d] Suc.prems(2) len by auto
    have "mset (take (Suc i + n) d) = mset (take (Suc i + n) dst)"
      unfolding take_add mset_append ms dr ..
    moreover have "drop (Suc i + n) d = drop (Suc i + n) dst"
      using arg_cong [OF dr, of "drop n"] by (simp add: add.commute)
    ultimately show ?thesis using e False loc(1) len by (auto simp: d_def Let_def)
  qed
qed

lemma bisort_sorts:
  assumes "0 < start" "start \<le> sz" "sz \<le> length dst" "sorted_by cmp (take start dst)"
  shows "\<exists>d. bisort cmp dst start sz = Some d \<and> mset (take sz d) = mset (take sz dst) \<and>
    sorted_by cmp (take sz d) \<and> drop sz d = drop sz dst \<and> length d = length dst"
  using bisort_loop_sorts [of start "sz - start" dst] assms by (simp add: bisort_def)

end

end
