(* ===== verification/Tsort_Correct.thy ===== *)
theory Tsort_Correct
  imports Tsort
begin

text \<open>
  Correctness of the sort of \<open>tsort.c\<close>: runs are found and merged in place, the stack always describes
  sorted neighbouring runs that cover the part of the array that was read, and so the array that is returned
  is a sorted permutation.  Every run but the last has at least 32 elements, which bounds the stack.
\<close>

section \<open>Replacing a segment\<close>

text \<open>\<open>d\<close> is \<open>dst\<close> with the \<open>len\<close> elements from \<open>s\<close> on put in order.\<close>

definition resorted :: "('a \<Rightarrow> 'a \<Rightarrow> int) \<Rightarrow> nat \<Rightarrow> nat \<Rightarrow> 'a list \<Rightarrow> 'a list \<Rightarrow> bool" where
  "resorted cmp s len dst d \<longleftrightarrow> s + len \<le> length dst \<and> length d = length dst \<and> take s d = take s dst \<and>
     drop (s + len) d = drop (s + len) dst \<and> mset (take len (drop s d)) = mset (take len (drop s dst)) \<and>
     sorted_by cmp (take len (drop s d))"

lemma split_segment: "dst = take s dst @ take len (drop s dst) @ drop (s + len) dst"
  by (metis append_take_drop_id drop_drop add.commute)

lemma resorted_mset: "resorted cmp s len dst d \<Longrightarrow> mset d = mset dst"
proof -
  assume r: "resorted cmp s len dst d"
  have "mset d = mset (take s d) + mset (take len (drop s d)) + mset (drop (s + len) d)"
    by (subst split_segment [of d s len]) simp
  also have "\<dots> = mset (take s dst) + mset (take len (drop s dst)) + mset (drop (s + len) dst)"
    using r by (simp add: resorted_def)
  also have "\<dots> = mset dst" by (subst (4) split_segment [of dst s len]) simp
  finally show ?thesis .
qed

lemma resortedI:
  assumes "d = take s dst @ ys @ drop (s + len) dst" "length ys = len" "s + len \<le> length dst"
    and "mset ys = mset (take len (drop s dst))" "sorted_by cmp ys"
  shows "resorted cmp s len dst d"
proof -
  have "length (take s dst) = s" using assms(3) by simp
  then show ?thesis using assms by (simp add: resorted_def)
qed

section \<open>Runs\<close>

lemma reverse_elements_nth:
  assumes "e < length dst" "s \<le> Suc e"
  shows "length (reverse_elements dst s e) = length dst \<and>
    (\<forall>k < length dst. reverse_elements dst s e ! k = (if s \<le> k \<and> k \<le> e then dst ! (s + e - k) else dst ! k))"
  using assms
proof (induction dst s e rule: reverse_elements.induct)
  case (1 dst s e)
  show ?case
  proof (cases "s < e")
    case True
    let ?d = "dst[s := dst ! e, e := dst ! s]"
    have IH: "length (reverse_elements ?d (s + 1) (e - 1)) = length ?d \<and>
      (\<forall>k < length ?d. reverse_elements ?d (s + 1) (e - 1) ! k =
        (if s + 1 \<le> k \<and> k \<le> e - 1 then ?d ! (s + 1 + (e - 1) - k) else ?d ! k))"
      by (rule "1.IH" [OF True]) (use "1.prems" True in auto)
    have "s + 1 + (e - 1) = s + e" using True by simp
    then have *: "reverse_elements ?d (s + 1) (e - 1) ! k = (if s \<le> k \<and> k \<le> e then dst ! (s + e - k) else dst ! k)"
      if "k < length dst" for k
      using IH that True "1.prems" by (cases "k = s \<or> k = e") (auto simp: nth_list_update)
    show ?thesis using True IH * by (simp add: reverse_elements.simps [of dst s e])
  next
    case False
    have "s + e - k = k" if "s \<le> k" "k \<le> e" for k using that False by simp
    then show ?thesis using False by (simp add: reverse_elements.simps [of dst s e])
  qed
qed

lemma reverse_segment:
  assumes "s + len \<le> length dst" "0 < len"
  shows "reverse_elements dst s (s + len - 1) = take s dst @ rev (take len (drop s dst)) @ drop (s + len) dst"
    (is "?r = ?l")
proof -
  have r: "length ?r = length dst" "\<And>k. k < length dst \<Longrightarrow>
      ?r ! k = (if s \<le> k \<and> k \<le> s + len - 1 then dst ! (s + (s + len - 1) - k) else dst ! k)"
    using reverse_elements_nth [of "s + len - 1" dst s] assms by auto
  show ?thesis
  proof (rule nth_equalityI)
    show "length ?r = length ?l" using r(1) assms by simp
    fix k
    assume "k < length ?r"
    then have k: "k < length dst" using r(1) by simp
    consider "k < s" | "s \<le> k" "k < s + len" | "s + len \<le> k" by linarith
    then show "?r ! k = ?l ! k"
    proof cases
      case 2
      then show ?thesis using r(2) [OF k] assms k by (auto simp: nth_append rev_nth ac_simps)
    qed (use r(2) [OF k] assms k in \<open>auto simp: nth_append\<close>)
  qed
qed

lemma run_end_ok: "cur \<le> k \<Longrightarrow> k < run_end ok dst cur sz \<Longrightarrow> ok (dst ! (k - 1)) (dst ! k)"
proof (induction ok dst cur sz rule: run_end.induct)
  case (1 ok dst cur sz)
  show ?case
  proof (cases "cur < sz - 1 \<and> ok (dst ! (cur - 1)) (dst ! cur)")
    case True
    then show ?thesis using 1 by (cases "k = cur") (auto simp: run_end.simps [of ok dst cur sz])
  next
    case False
    then have "run_end ok dst cur sz = cur" by (subst run_end.simps) auto
    then show ?thesis using "1.prems" by simp
  qed
qed

lemma run_end_le: "cur \<le> sz \<Longrightarrow> run_end ok dst cur sz \<le> sz"
proof (induction ok dst cur sz rule: run_end.induct)
  case (1 ok dst cur sz)
  then show ?case by (subst run_end.simps) auto
qed

context comparison
begin

lemma transp_le: "transp (\<lambda>a b. cmp a b \<le> 0)"
  using le_trans by (auto intro: transpI)

lemma sorted_segment:
  assumes "s + len \<le> length dst" "\<And>k. s < k \<Longrightarrow> k < s + len \<Longrightarrow> cmp (dst ! (k - 1)) (dst ! k) \<le> 0"
  shows "sorted_by cmp (take len (drop s dst))"
proof -
  have "cmp (dst ! (s + i)) (dst ! (s + Suc i)) \<le> 0" if "Suc i < len" for i using assms(2) [of "s + Suc i"] that by simp
  then show ?thesis using assms(1)
    unfolding sorted_by_def sorted_wrt_iff_nth_Suc_transp [OF transp_le] by simp
qed

lemma sorted_segment_rev:
  assumes "s + len \<le> length dst" "\<And>k. s < k \<Longrightarrow> k < s + len \<Longrightarrow> 0 < cmp (dst ! (k - 1)) (dst ! k)"
  shows "sorted_by cmp (rev (take len (drop s dst)))"
proof -
  have "transp (\<lambda>a b. cmp b a \<le> 0)" using le_trans by (auto intro: transpI)
  moreover have "cmp (dst ! (s + Suc i)) (dst ! (s + i)) \<le> 0" if "Suc i < len" for i
    using assms(2) [of "s + Suc i"] that flip by (simp add: less_imp_le)
  ultimately show ?thesis using assms(1)
    by (simp add: sorted_by_def sorted_wrt_rev sorted_wrt_iff_nth_Suc_transp)
qed

lemma resorted_refl:
  assumes "s + len \<le> length dst" "sorted_by cmp (take len (drop s dst))"
  shows "resorted cmp s len dst dst"
  using assms by (simp add: resorted_def)

lemma count_run_sorts:
  assumes "start < length dst" "count_run cmp dst start (length dst) = (d, len)"
  shows "0 < len \<and> resorted cmp start len dst d"
proof -
  let ?sz = "length dst"
  consider "?sz - start = 1" | "?sz - start \<noteq> 1" "?sz - 2 \<le> start" | "?sz - start \<noteq> 1" "start < ?sz - 2" by linarith
  then show ?thesis
  proof cases
    case 1
    then have "d = dst" "len = 1" using assms(2) by (simp_all add: count_run_def)
    moreover have "sorted_by cmp (take 1 (drop start dst))" by (cases "drop start dst") (simp_all add: sorted_by_def)
    ultimately show ?thesis using assms(1) by (simp add: resorted_refl)
  next
    case 2
    then have st: "?sz - 2 = start" "?sz - 1 = Suc start" "?sz = Suc (Suc start)" using assms(1) by auto
    let ?a = "dst ! start" and ?b = "dst ! Suc start"
    have drop: "drop start dst = [?a, ?b]" using st(3) by (simp add: Cons_nth_drop_Suc [symmetric])
    then have dst: "take start dst @ [?a, ?b] = dst" using append_take_drop_id [of start dst] by simp
    have two: "take 2 (drop start dst) = [?a, ?b]" "drop (start + 2) dst = []" using drop st(3) by simp_all
    have len: "len = 2" and d: "d = (if 0 < cmp ?a ?b then dst[Suc start := ?a, start := ?b] else dst)"
      using 2 assms(2) st by (simp_all add: count_run_def split: if_splits)
    have "(take start dst @ [?a, ?b])[Suc start := ?a, start := ?b] = take start dst @ [?b, ?a]"
      using st(3) by (simp add: list_update_append)
    then have "d = take start dst @ (if 0 < cmp ?a ?b then [?b, ?a] else [?a, ?b]) @ drop (start + 2) dst"
      using d two(2) unfolding dst by (simp add: dst)
    then show ?thesis unfolding len
      by (intro conjI resortedI) (use two st(3) not_le [of ?a ?b] in \<open>auto simp: sorted_by_def\<close>)
  next
    case 3
    let ?up = "run_end (\<lambda>a b. cmp a b \<le> 0) dst (start + 2) ?sz" and ?down = "run_end (\<lambda>a b. 0 < cmp a b) dst (start + 2) ?sz"
    have le: "start + 2 \<le> ?up" "?up \<le> ?sz" "start + 2 \<le> ?down" "?down \<le> ?sz"
      by (rule run_end_ge run_end_le; use 3 in simp)+
    show ?thesis
    proof (cases "cmp (dst ! start) (dst ! (start + 1)) \<le> 0")
      case True
      then have d: "d = dst" "len = ?up - start" using 3 assms(2) by (auto simp: count_run_def)
      have "cmp (dst ! (k - 1)) (dst ! k) \<le> 0" if "start < k" "k < start + len" for k
        using run_end_ok [of "start + 2" k "\<lambda>a b. cmp a b \<le> 0" dst ?sz] that True d(2) by (cases "k = start + 1") auto
      then show ?thesis using le d sorted_segment [of start len dst] by (auto intro!: resorted_refl)
    next
      case False
      then have d: "d = reverse_elements dst start (?down - 1)" "len = ?down - start"
        using 3 assms(2) by (auto simp: count_run_def Let_def)
      have "0 < cmp (dst ! (k - 1)) (dst ! k)" if "start < k" "k < start + len" for k
        using run_end_ok [of "start + 2" k "\<lambda>a b. 0 < cmp a b" dst ?sz] that False d(2) by (cases "k = start + 1") auto
      then have "sorted_by cmp (rev (take len (drop start dst)))" using le d(2) by (intro sorted_segment_rev) auto
      moreover have "d = take start dst @ rev (take len (drop start dst)) @ drop (start + len) dst"
        using reverse_segment [of start len dst] d le by simp
      ultimately show ?thesis using le d(2) by (auto intro!: resortedI)
    qed
  qed
qed

end

section \<open>Merging\<close>

fun lmerge :: "('a \<Rightarrow> 'a \<Rightarrow> int) \<Rightarrow> 'a list \<Rightarrow> 'a list \<Rightarrow> 'a list" where
  "lmerge cmp (x # xs) (y # ys) = (if cmp x y \<le> 0 then x # lmerge cmp xs (y # ys) else y # lmerge cmp (x # xs) ys)"
| "lmerge cmp xs [] = xs"
| "lmerge cmp [] ys = ys"

text \<open>The same from the right, on reversed lists.\<close>

fun rmerge :: "('a \<Rightarrow> 'a \<Rightarrow> int) \<Rightarrow> 'a list \<Rightarrow> 'a list \<Rightarrow> 'a list" where
  "rmerge cmp (x # xs) (y # ys) = (if 0 < cmp x y then x # rmerge cmp xs (y # ys) else y # rmerge cmp (x # xs) ys)"
| "rmerge cmp xs [] = xs"
| "rmerge cmp [] ys = ys"

lemma merge_Nil [simp]: "lmerge cmp [] ys = ys" "rmerge cmp [] ys = ys"
  by (cases ys; simp)+

lemma mset_lmerge: "mset (lmerge cmp xs ys) = mset xs + mset ys"
  by (induction cmp xs ys rule: lmerge.induct) simp_all

lemma mset_rmerge: "mset (rmerge cmp xs ys) = mset xs + mset ys"
  by (induction cmp xs ys rule: rmerge.induct) simp_all

lemma set_lmerge: "set (lmerge cmp xs ys) = set xs \<union> set ys"
  using mset_lmerge [of cmp xs ys] by (metis set_mset_mset set_mset_union)

lemma set_rmerge: "set (rmerge cmp xs ys) = set xs \<union> set ys"
  using mset_rmerge [of cmp xs ys] by (metis set_mset_mset set_mset_union)

lemma merge_left_eq:
  assumes "n = (length storage - i) + (e - j)" "k + n = e" "i \<le> length storage" "j \<le> e" "e \<le> length dst"
  shows "merge_left cmp n storage e dst i j k =
    take k dst @ lmerge cmp (drop i storage) (take (e - j) (drop j dst)) @ drop e dst"
  using assms
proof (induction n arbitrary: dst i j k)
  case 0
  then show ?case by simp
next
  case (Suc n)
  have k: "k < e" "k < length dst" using Suc.prems by auto
  have upd: "take (Suc k) (dst[k := v]) = take k dst @ [v]" "drop e (dst[k := v]) = drop e dst" for v
    using k by (simp_all add: take_Suc_conv_app_nth)
  have tail: "take (e - m) (drop m (dst[k := v])) = take (e - m) (drop m dst)" if "k < m" for m v
    using that by simp
  have from_storage: "merge_left cmp n storage e (dst[k := storage ! i]) (i + 1) j (k + 1) =
      take k dst @ (storage ! i # lmerge cmp (drop (Suc i) storage) (take (e - j) (drop j dst))) @ drop e dst" if "i < length storage"
    by (subst Suc.IH) (use Suc.prems that k upd tail [of j] in auto)
  have from_array: "merge_left cmp n storage e (dst[k := dst ! j]) i (j + 1) (k + 1) =
      take k dst @ (dst ! j # lmerge cmp (drop i storage) (take (e - Suc j) (drop (Suc j) dst))) @ drop e dst" if "j < e"
    by (subst Suc.IH) (use Suc.prems that k upd tail [of "Suc j"] in auto)
  have storage: "drop i storage = storage ! i # drop (Suc i) storage" if "i < length storage"
    using that by (simp add: Cons_nth_drop_Suc)
  have array: "take (e - j) (drop j dst) = dst ! j # take (e - Suc j) (drop (Suc j) dst)" if "j < e"
    using that Suc.prems(5) by (simp add: Cons_nth_drop_Suc [symmetric] take_Cons' Suc_diff_Suc)
  consider "i < length storage" "j < e" | "i < length storage" "j = e" | "i = length storage" "j < e"
    using Suc.prems by linarith
  then show ?case
  proof cases
    case 1
    then show ?thesis using from_storage [OF 1(1)] from_array [OF 1(2)] storage [OF 1(1)] array [OF 1(2)] by simp
  next
    case 2
    then show ?thesis using from_storage [OF 2(1)] storage [OF 2(1)] by simp
  next
    case 3
    then show ?thesis using from_array [OF 3(2)] array [OF 3(2)] by simp
  qed
qed

lemma merge_right_eq:
  assumes "n = i + (j - cur)" "cur \<le> j" "i \<le> length storage" "cur + n \<le> length dst"
  shows "merge_right cmp n storage cur dst i j =
    take cur dst @ rev (rmerge cmp (rev (take (j - cur) (drop cur dst))) (rev (take i storage))) @ drop (cur + n) dst"
  using assms
proof (induction n arbitrary: dst i j)
  case 0
  then have "i = 0" "j = cur" by auto
  then show ?case by simp
next
  case (Suc n)
  let ?k = "cur + n"
  have k: "?k < length dst" using Suc.prems by auto
  have sum: "i + j = Suc (cur + n)" using Suc.prems by simp
  have upd: "take cur (dst[?k := v]) = take cur dst" "drop ?k (dst[?k := v]) = v # drop (Suc ?k) dst" for v
    using k by (simp_all add: Cons_nth_drop_Suc [symmetric])
  have part: "take m (drop cur (dst[?k := v])) = take m (drop cur dst)" if "m \<le> n" for m v
    using that by (simp add: drop_update_swap)
  have from_storage: "merge_right cmp n storage cur (dst[?k := storage ! (i - 1)]) (i - 1) j =
      take cur dst @ rev (storage ! (i - 1) # rmerge cmp (rev (take (j - cur) (drop cur dst))) (rev (take (i - 1) storage))) @
        drop (cur + Suc n) dst" if "0 < i"
    by (subst Suc.IH) (use Suc.prems(2-4) sum that k upd part [of "j - cur"] in auto)
  have from_array: "merge_right cmp n storage cur (dst[?k := dst ! (j - 1)]) i (j - 1) =
      take cur dst @ rev (dst ! (j - 1) # rmerge cmp (rev (take (j - 1 - cur) (drop cur dst))) (rev (take i storage))) @
        drop (cur + Suc n) dst" if "cur < j"
    by (subst Suc.IH) (use Suc.prems(2-4) sum that k upd part [of "j - 1 - cur"] in auto)
  have storage: "rev (take i storage) = storage ! (i - 1) # rev (take (i - 1) storage)" if "0 < i"
    using that Suc.prems(3) take_Suc_conv_app_nth [of "i - 1" storage] by simp
  have array: "rev (take (j - cur) (drop cur dst)) = dst ! (j - 1) # rev (take (j - 1 - cur) (drop cur dst))" if "cur < j"
    using that Suc.prems take_Suc_conv_app_nth [of "j - 1 - cur" "drop cur dst"] by (simp add: Suc_diff_Suc)
  consider "0 < i" "cur < j" | "0 < i" "j = cur" | "i = 0" "cur < j" using Suc.prems by linarith
  then show ?case
  proof cases
    case 1
    then show ?thesis using from_storage [OF 1(1)] from_array [OF 1(2)] storage [OF 1(1)] array [OF 1(2)] by (simp add: Let_def)
  next
    case 2
    then show ?thesis using from_storage [OF 2(1)] storage [OF 2(1)] by (simp add: Let_def)
  next
    case 3
    then show ?thesis using from_array [OF 3(2)] array [OF 3(2)] by (simp add: Let_def)
  qed
qed

lemma sorted_lmerge:
  "comparison cmp \<Longrightarrow> sorted_by cmp xs \<Longrightarrow> sorted_by cmp ys \<Longrightarrow> sorted_by cmp (lmerge cmp xs ys)"
proof (induction cmp xs ys rule: lmerge.induct)
  case (1 cmp x xs y ys)
  note trans = comparison.le_trans [OF "1.prems"(1)]
  show ?case
  proof (cases "cmp x y \<le> 0")
    case True
    then have "\<forall>z \<in> set xs \<union> insert y (set ys). cmp x z \<le> 0"
      using "1.prems"(2,3) trans [of x y] by (auto simp: sorted_by_def)
    then show ?thesis using True "1.IH"(1) "1.prems" by (simp add: sorted_by_def set_lmerge)
  next
    case False
    then have "cmp y x \<le> 0" using comparison.not_le [OF "1.prems"(1)] by (simp add: less_imp_le)
    then have "\<forall>z \<in> insert x (set xs) \<union> set ys. cmp y z \<le> 0"
      using "1.prems"(2,3) trans [of y x] by (auto simp: sorted_by_def)
    then show ?thesis using False "1.IH"(2) "1.prems" by (simp add: sorted_by_def set_lmerge)
  qed
qed simp_all

lemma sorted_rmerge:
  "comparison cmp \<Longrightarrow> sorted_by cmp (rev xs) \<Longrightarrow> sorted_by cmp (rev ys) \<Longrightarrow> sorted_by cmp (rev (rmerge cmp xs ys))"
proof (induction cmp xs ys rule: rmerge.induct)
  case (1 cmp x xs y ys)
  note trans = comparison.le_trans [OF "1.prems"(1)]
  show ?case
  proof (cases "0 < cmp x y")
    case True
    then have "cmp y x \<le> 0" using comparison.flip [OF "1.prems"(1)] by (simp add: less_imp_le)
    then have "\<forall>z \<in> set xs \<union> insert y (set ys). cmp z x \<le> 0"
      using "1.prems"(2,3) trans [of _ y x] by (auto simp: sorted_by_def sorted_wrt_append)
    then show ?thesis using True "1.IH"(1) "1.prems" by (simp add: sorted_by_def sorted_wrt_append set_rmerge)
  next
    case False
    then have "\<forall>z \<in> insert x (set xs) \<union> set ys. cmp z y \<le> 0"
      using "1.prems"(2,3) trans [of _ x y] by (auto simp: sorted_by_def sorted_wrt_append)
    then show ?thesis using False "1.IH"(2) "1.prems" by (simp add: sorted_by_def sorted_wrt_append set_rmerge)
  qed
qed simp_all

lemma tsort_merge_fst:
  "fst (tsort_merge (\<lambda>_. True) cmp rA rB (dst, store)) =
     (let A = run_length rA; B = run_length rB; cur = run_start rA
      in if A < B then merge_left cmp (A + B) (take A (drop cur dst)) (cur + A + B) dst 0 (cur + A) cur
         else merge_right cmp (A + B) (take B (drop (cur + A) dst)) cur dst B (cur + A))"
  by (simp add: tsort_merge_def tsort_resize_def Let_def)

lemma merge_resorts:
  assumes "comparison cmp" "run_start rA + run_length rA = run_start rB"
    and "run_start rB + run_length rB \<le> length dst"
    and "sorted_by cmp (take (run_length rA) (drop (run_start rA) dst))"
    and "sorted_by cmp (take (run_length rB) (drop (run_start rB) dst))"
  shows "resorted cmp (run_start rA) (run_length rA + run_length rB) dst
    (fst (tsort_merge (\<lambda>_. True) cmp rA rB (dst, store)))"
proof -
  let ?s = "run_start rA" and ?A = "run_length rA" and ?B = "run_length rB"
  let ?xs = "take ?A (drop ?s dst)" and ?ys = "take ?B (drop (?s + ?A) dst)"
  have len: "?s + ?A + ?B \<le> length dst" "length ?xs = ?A" "length ?ys = ?B" using assms(2,3) by auto
  have seg: "take (?A + ?B) (drop ?s dst) = ?xs @ ?ys" by (simp only: take_add drop_drop add.commute)
  have ys: "sorted_by cmp ?ys" using assms(5) unfolding assms(2) .
  have out: "fst (tsort_merge (\<lambda>_. True) cmp rA rB (dst, store)) =
      take ?s dst @ (if ?A < ?B then lmerge cmp ?xs ?ys else rev (rmerge cmp (rev ?xs) (rev ?ys))) @ drop (?s + (?A + ?B)) dst"
  proof -
    have L: "merge_left cmp (?A + ?B) ?xs (?s + ?A + ?B) dst 0 (?s + ?A) ?s =
        take ?s dst @ lmerge cmp (drop 0 ?xs) (take (?s + ?A + ?B - (?s + ?A)) (drop (?s + ?A) dst)) @ drop (?s + ?A + ?B) dst"
      by (rule merge_left_eq) (unfold len(2), use len(1) in simp_all)
    have R: "merge_right cmp (?A + ?B) ?ys ?s dst ?B (?s + ?A) =
        take ?s dst @ rev (rmerge cmp (rev (take (?s + ?A - ?s) (drop ?s dst))) (rev (take ?B ?ys))) @ drop (?s + (?A + ?B)) dst"
      by (rule merge_right_eq) (unfold len(3), use len(1) in simp_all)
    have "?s + ?A + ?B - (?s + ?A) = ?B" "?s + ?A - ?s = ?A" "?s + ?A + ?B = ?s + (?A + ?B)" "take ?B ?ys = ?ys" by simp_all
    then show ?thesis unfolding tsort_merge_fst Let_def L R by (simp add: add.assoc)
  qed
  have ms: "mset (rmerge cmp (rev ?xs) (rev ?ys)) = mset ?xs + mset ?ys" by (simp add: mset_rmerge)
  show ?thesis
  proof (rule resortedI [OF out])
    show "length (if ?A < ?B then lmerge cmp ?xs ?ys else rev (rmerge cmp (rev ?xs) (rev ?ys))) = ?A + ?B"
      using arg_cong [OF mset_lmerge [of cmp ?xs ?ys], of size] arg_cong [OF ms, of size] len by simp
    show "mset (if ?A < ?B then lmerge cmp ?xs ?ys else rev (rmerge cmp (rev ?xs) (rev ?ys))) =
        mset (take (?A + ?B) (drop ?s dst))" unfolding seg using ms by (simp add: mset_lmerge)
    show "sorted_by cmp (if ?A < ?B then lmerge cmp ?xs ?ys else rev (rmerge cmp (rev ?xs) (rev ?ys)))"
      using sorted_lmerge [OF assms(1,4) ys] sorted_rmerge [OF assms(1), of "rev ?xs" "rev ?ys"] assms(4) ys by simp
  qed (use len in simp)
qed

section \<open>The stack of runs\<close>

text \<open>The runs of the stack are sorted, adjoin one another and end at \<open>e\<close>.\<close>

fun runs_ok :: "('a \<Rightarrow> 'a \<Rightarrow> int) \<Rightarrow> 'a list \<Rightarrow> tsort_run list \<Rightarrow> nat \<Rightarrow> bool" where
  "runs_ok cmp dst [] e \<longleftrightarrow> e = 0"
| "runs_ok cmp dst (r # rs) e \<longleftrightarrow> run_start r + run_length r = e \<and>
     sorted_by cmp (take (run_length r) (drop (run_start r) dst)) \<and> runs_ok cmp dst rs (run_start r)"

lemma runs_ok_cong: "runs_ok cmp dst rs e \<Longrightarrow> take e d = take e dst \<Longrightarrow> runs_ok cmp d rs e"
proof (induction rs arbitrary: e)
  case (Cons r rs)
  then have e: "run_length r + run_start r = e" by simp
  have "take (run_length r) (drop (run_start r) d) = take (run_length r) (drop (run_start r) dst)"
    using Cons.prems(2) by (simp add: take_drop e)
  moreover have "take (run_start r) d = take (run_start r) dst"
    using arg_cong [OF Cons.prems(2), of "take (run_start r)"] e by (simp add: min_def split: if_splits)
  ultimately show ?case using Cons by simp
qed simp

lemma joined_simps [simp]: "run_start (joined rA rB) = run_start rA" "run_length (joined rA rB) = run_length rA + run_length rB"
  by (simp_all add: joined_def)

lemma merge_top:
  assumes "comparison cmp" "runs_ok cmp (fst s) (rB # rA # rs) e" "e \<le> length (fst s)"
  defines "d \<equiv> fst (tsort_merge (\<lambda>_. True) cmp rA rB s)"
  shows "runs_ok cmp d (joined rA rB # rs) e \<and> mset d = mset (fst s) \<and> length d = length (fst s) \<and> drop e d = drop e (fst s)"
proof -
  have r: "resorted cmp (run_start rA) (run_length rA + run_length rB) (fst s) d"
    unfolding d_def using merge_resorts [OF assms(1), of rA rB "fst s" "snd s"] assms(2,3) by simp
  have e: "run_start rA + (run_length rA + run_length rB) = e" using assms(2) by simp
  have "runs_ok cmp d rs (run_start rA)" using assms(2) r by (auto simp: resorted_def intro: runs_ok_cong)
  then show ?thesis using r e resorted_mset [OF r] by (simp add: resorted_def)
qed

lemma merge_below:
  assumes "comparison cmp" "runs_ok cmp (fst s) (rC # rB # rA # rs) e" "e \<le> length (fst s)"
  defines "d \<equiv> fst (tsort_merge (\<lambda>_. True) cmp rA rB s)"
  shows "runs_ok cmp d (rC # joined rA rB # rs) e \<and> mset d = mset (fst s) \<and> length d = length (fst s)"
proof -
  have "runs_ok cmp d (joined rA rB # rs) (run_start rC) \<and> mset d = mset (fst s) \<and> length d = length (fst s) \<and>
      drop (run_start rC) d = drop (run_start rC) (fst s)"
    unfolding d_def using assms(2,3) by (intro merge_top [OF assms(1)]) auto
  then show ?thesis using assms(2) by auto
qed

lemma collapse_ok:
  assumes "comparison cmp" "runs_ok cmp (fst s) stack e" "e \<le> length (fst s)"
  shows "runs_ok cmp (fst (fst (collapse (\<lambda>_. True) cmp sz s stack))) (snd (collapse (\<lambda>_. True) cmp sz s stack)) e \<and>
    mset (fst (fst (collapse (\<lambda>_. True) cmp sz s stack))) = mset (fst s)"
  using assms
proof (induction "length stack" arbitrary: s stack rule: less_induct)
  case less
  let ?m = "tsort_merge (\<lambda>_. True) cmp"
  have len: "length (fst s') = length (fst s)" if "mset (fst s') = mset (fst s)" for s' :: "'a list \<times> nat"
    using that by (metis size_mset)
  consider "stack = []" | r where "stack = [r]" | r1 r0 where "stack = [r1, r0]"
    | rC rB rA rs where "stack = rC # rB # rA # rs" by (metis list.exhaust)
  then show ?case
  proof cases
    case 3
    then have "runs_ok cmp (fst (?m r0 r1 s)) [joined r0 r1] e" "mset (fst (?m r0 r1 s)) = mset (fst s)"
      using less.prems(2,3) merge_top [OF less.prems(1), of s r1 r0 "[]" e] by auto
    then show ?thesis using less.prems(2) 3 by (simp add: collapse.simps del: runs_ok.simps)
  next
    case 4
    have below: "runs_ok cmp (fst (?m rA rB s)) (rC # joined rA rB # rs) e" "mset (fst (?m rA rB s)) = mset (fst s)"
      using merge_below [OF less.prems(1), of s rC rB rA rs e] less.prems 4 by auto
    have top: "runs_ok cmp (fst (?m rB rC s)) (joined rB rC # rA # rs) e" "mset (fst (?m rB rC s)) = mset (fst s)"
      using merge_top [OF less.prems(1), of s rC rB "rA # rs" e] less.prems 4 by auto
    have "length (rC # joined rA rB # rs) < length stack" "length (joined rB rC # rA # rs) < length stack" by (simp_all add: 4)
    moreover have "e \<le> length (fst (?m rA rB s))" "e \<le> length (fst (?m rB rC s))"
      using len [OF below(2)] len [OF top(2)] less.prems(3) by simp_all
    ultimately have b: "runs_ok cmp (fst (fst (collapse (\<lambda>_. True) cmp sz (?m rA rB s) (rC # joined rA rB # rs))))
        (snd (collapse (\<lambda>_. True) cmp sz (?m rA rB s) (rC # joined rA rB # rs))) e \<and>
      mset (fst (fst (collapse (\<lambda>_. True) cmp sz (?m rA rB s) (rC # joined rA rB # rs)))) = mset (fst s)"
      and t: "runs_ok cmp (fst (fst (collapse (\<lambda>_. True) cmp sz (?m rB rC s) (joined rB rC # rA # rs))))
        (snd (collapse (\<lambda>_. True) cmp sz (?m rB rC s) (joined rB rC # rA # rs))) e \<and>
      mset (fst (fst (collapse (\<lambda>_. True) cmp sz (?m rB rC s) (joined rB rC # rA # rs)))) = mset (fst s)"
      using less.hyps [OF _ less.prems(1) below(1)] less.hyps [OF _ less.prems(1) top(1)] below(2) top(2) by simp_all
    show ?thesis unfolding 4 using b t less.prems(2) 4 by (subst (1 2 3) collapse.simps) (simp add: Let_def del: runs_ok.simps)
  qed (use less.prems in \<open>simp_all add: collapse.simps del: runs_ok.simps\<close>)
qed

lemma finish_ok:
  assumes "comparison cmp" "runs_ok cmp (fst s) stack (length (fst s))"
  shows "sorted_by cmp (finish_up (\<lambda>_. True) cmp s stack) \<and> mset (finish_up (\<lambda>_. True) cmp s stack) = mset (fst s)"
  using assms
proof (induction "length stack" arbitrary: s stack rule: less_induct)
  case less
  consider "stack = []" | r where "stack = [r]" | rB rA rs where "stack = rB # rA # rs" by (metis list.exhaust)
  then show ?case
  proof cases
    case 3
    have m: "runs_ok cmp (fst (tsort_merge (\<lambda>_. True) cmp rA rB s)) (joined rA rB # rs) (length (fst s))"
      "mset (fst (tsort_merge (\<lambda>_. True) cmp rA rB s)) = mset (fst s)"
      "length (fst (tsort_merge (\<lambda>_. True) cmp rA rB s)) = length (fst s)"
      using merge_top [OF less.prems(1), of s rB rA rs] less.prems(2) 3 by auto
    show ?thesis
      using less.hyps [of "joined rA rB # rs" "tsort_merge (\<lambda>_. True) cmp rA rB s"] less.prems(1) m 3 by simp
  qed (use less.prems in \<open>auto simp: sorted_by_def\<close>)
qed

section \<open>The main loop\<close>

definition loop_ok :: "('a \<Rightarrow> 'a \<Rightarrow> int) \<Rightarrow> 'a list \<Rightarrow> ('a list \<times> nat) \<times> tsort_run list \<times> nat \<Rightarrow> bool" where
  "loop_ok cmp orig st \<longleftrightarrow> (case st of (s, stack, cur) \<Rightarrow>
     mset (fst s) = mset orig \<and> runs_ok cmp (fst s) stack cur \<and> cur < length orig \<and> 32 * length stack \<le> cur)"

lemma resorted_wider:
  assumes "resorted cmp s len dst d" "len \<le> n"
  shows "mset (take n (drop s d)) = mset (take n (drop s dst))"
proof -
  have split: "take n (drop s xs) = take len (drop s xs) @ take (n - len) (drop (s + len) xs)" for xs :: "'a list"
    using assms(2) take_add [of len "n - len" "drop s xs"] by (simp add: add.commute)
  show ?thesis using assms(1) unfolding split [of d] split [of dst] by (simp add: resorted_def)
qed

lemma next_run:
  assumes "comparison cmp" "cur < length dst" "count_run cmp dst cur (length dst) = (d, len)" "run \<le> length dst - cur"
  shows "\<exists>d' len'. (if len < run then map_option (\<lambda>e. (take cur d @ e, run)) (bisort cmp (drop cur d) len run)
      else Some (d, len)) = Some (d', len') \<and> run \<le> len' \<and> 0 < len' \<and> resorted cmp cur len' dst d'"
proof -
  have c: "0 < len" "resorted cmp cur len dst d" using comparison.count_run_sorts [OF assms(1-3)] by auto
  show ?thesis
  proof (cases "len < run")
    case True
    have len: "length d = length dst" using c(2) by (simp add: resorted_def)
    obtain e where e: "bisort cmp (drop cur d) len run = Some e" "mset (take run e) = mset (take run (drop cur d))"
      "sorted_by cmp (take run e)" "drop run e = drop run (drop cur d)" "length e = length (drop cur d)"
      using comparison.bisort_sorts [OF assms(1) c(1), of run "drop cur d"] True assms(4) c(2) len by (auto simp: resorted_def)
    have cur: "length (take cur d) = cur" using assms(2) len by simp
    have "drop (run - len) (drop (cur + len) d) = drop (run - len) (drop (cur + len) dst)" using c(2) by (simp add: resorted_def)
    moreover have "run - len + (cur + len) = run + cur" using True by simp
    ultimately have "drop run (drop cur d) = drop run (drop cur dst)" by (simp only: drop_drop)
    then have "resorted cmp cur run dst (take cur d @ e)"
      using e c(2) cur len assms(2,4) resorted_wider [OF c(2), of run] True
      by (simp add: resorted_def add.commute)
    then show ?thesis using True e(1) by auto
  next
    case False
    then show ?thesis using c by auto
  qed
qed

lemma push_next_ok:
  assumes "comparison cmp" "loop_ok cmp orig (s, stack, cur)" "32 \<le> minrun"
  shows "case push_next (\<lambda>_. True) cmp (length orig) minrun (s, stack, cur) of
      None \<Rightarrow> 128 \<le> length stack
    | Some (Inl d) \<Rightarrow> sorted_by cmp d \<and> mset d = mset orig
    | Some (Inr st) \<Rightarrow> loop_ok cmp orig st"
proof -
  obtain dst store where s: "s = (dst, store)" by fastforce
  have ok: "mset dst = mset orig" "runs_ok cmp dst stack cur" "cur < length orig" "32 * length stack \<le> cur"
    using assms(2) by (auto simp: loop_ok_def s)
  have sz: "length dst = length orig" using ok(1) by (metis size_mset)
  obtain d len where cr: "count_run cmp dst cur (length dst) = (d, len)" by fastforce
  let ?run = "min minrun (length dst - cur)"
  obtain d' len' where n: "(if len < ?run then map_option (\<lambda>e. (take cur d @ e, ?run)) (bisort cmp (drop cur d) len ?run)
      else Some (d, len)) = Some (d', len')" "?run \<le> len'" "0 < len'" "resorted cmp cur len' dst d'"
    using next_run [OF assms(1) _ cr, of ?run] ok(3) sz by auto
  let ?stack = "\<lparr>run_start = cur, run_length = len'\<rparr> # stack"
  have runs: "runs_ok cmp d' ?stack (cur + len')"
    using n(4) runs_ok_cong [OF ok(2), of d'] by (simp add: resorted_def)
  have ms: "mset d' = mset orig" "length d' = length orig" using resorted_mset [OF n(4)] ok(1) n(4) sz by (auto simp: resorted_def)
  have bound: "cur + len' \<le> length orig" using n(4) sz by (simp add: resorted_def)
  have step: "push_next (\<lambda>_. True) cmp (length orig) minrun (s, stack, cur) =
      (if 128 \<le> length stack then None
       else if cur + len' = length orig then Some (Inl (finish_up (\<lambda>_. True) cmp (d', store) ?stack))
       else Some (Inr ((d', store), ?stack, cur + len')))"
    by (simp only: push_next_def s Let_def sz [symmetric] prod.case cr n(1) option.case)
  have fin: "sorted_by cmp (finish_up (\<lambda>_. True) cmp (d', store) ?stack) \<and>
      mset (finish_up (\<lambda>_. True) cmp (d', store) ?stack) = mset orig" if "cur + len' = length orig"
    using finish_ok [OF assms(1), of "(d', store)" ?stack] runs ms that by simp
  have "loop_ok cmp orig ((d', store), ?stack, cur + len')" if "cur + len' \<noteq> length orig"
    using runs ms bound that n(2) ok(4) assms(3) sz by (auto simp: loop_ok_def)
  then show ?thesis unfolding step using fin by simp
qed


text \<open>What a sort may give: the stack overflows only for an array of more than 4096 elements.\<close>

definition sort_result :: "('a \<Rightarrow> 'a \<Rightarrow> int) \<Rightarrow> 'a list \<Rightarrow> 'a list option \<Rightarrow> bool" where
  "sort_result cmp orig r \<longleftrightarrow> (case r of None \<Rightarrow> 4096 < length orig | Some d \<Rightarrow> sorted_by cmp d \<and> mset d = mset orig)"

lemma push_next_result:
  assumes "comparison cmp" "loop_ok cmp orig st" "32 \<le> minrun"
    and "\<And>st'. push_next (\<lambda>_. True) cmp (length orig) minrun st = Some (Inr st') \<Longrightarrow> loop_ok cmp orig st' \<Longrightarrow> sort_result cmp orig (f st')"
  shows "sort_result cmp orig (case push_next (\<lambda>_. True) cmp (length orig) minrun st of
      None \<Rightarrow> None | Some (Inl d) \<Rightarrow> Some d | Some (Inr st') \<Rightarrow> f st')"
proof -
  obtain s stack cur where st: "st = (s, stack, cur)" by (cases st) auto
  have small: "4096 < length orig" if "128 \<le> length stack" using assms(2) that by (simp add: loop_ok_def st)
  show ?thesis
    using push_next_ok [OF assms(1) assms(2) [unfolded st] assms(3)] assms(4) small
    by (auto simp: sort_result_def st split: option.splits sum.splits)
qed

lemma tsort_loop_ok:
  assumes "comparison cmp" "32 \<le> minrun" "loop_ok cmp orig st"
  shows "sort_result cmp orig (tsort_loop (\<lambda>_. True) cmp (length orig) minrun st)"
proof -
  have "realloc_ok = (\<lambda>_. True) \<Longrightarrow> sz = length orig \<Longrightarrow> comparison cmp \<Longrightarrow> 32 \<le> minrun \<Longrightarrow> loop_ok cmp orig st \<Longrightarrow>
      sort_result cmp orig (tsort_loop realloc_ok cmp sz minrun st)" for realloc_ok sz
  proof (induction realloc_ok cmp sz minrun st rule: tsort_loop.induct)
    case (1 realloc_ok cmp sz minrun s stack cur)
    have cur: "\<not> sz \<le> cur" using "1.prems" by (simp add: loop_ok_def)
    show ?case
    proof (cases "check_invariant stack")
      case True
      have eq: "tsort_loop realloc_ok cmp sz minrun (s, stack, cur) =
          (case push_next (\<lambda>_. True) cmp (length orig) minrun (s, stack, cur) of
             None \<Rightarrow> None | Some (Inl d) \<Rightarrow> Some d | Some (Inr st') \<Rightarrow> tsort_loop realloc_ok cmp sz minrun st')"
        using True cur "1.prems"(1,2) by (auto simp: tsort_loop.simps [of _ _ _ _ s] split: option.splits sum.splits)
      show ?thesis unfolding eq
        by (rule push_next_result [OF "1.prems"(3,5,4)]) (use "1.IH"(2) cur True "1.prems" in auto)
    next
      case False
      let ?c = "collapse realloc_ok cmp sz s stack"
      have len: "length (fst s) = length orig" using "1.prems"(5) by (auto simp: loop_ok_def dest: arg_cong [of _ _ size])
      have "loop_ok cmp orig (fst ?c, snd ?c, cur)"
        using collapse_ok [OF "1.prems"(3), of s stack cur sz] collapse_le [of realloc_ok cmp sz s stack] "1.prems"(1,5) len
        by (auto simp: loop_ok_def)
      then show ?thesis using "1.IH"(1) cur False "1.prems" by (simp add: tsort_loop.simps [of _ _ _ _ s])
    qed
  qed
  then show ?thesis using assms by blast
qed

lemma minrun_loop_ge: "32 \<le> n \<Longrightarrow> 32 \<le> minrun_loop n r"
proof (induction n r rule: minrun_loop.induct)
  case (1 n r)
  then show ?case by (subst minrun_loop.simps) auto
qed

lemma push_times_ok:
  assumes "comparison cmp" "32 \<le> minrun" "loop_ok cmp orig st"
  shows "sort_result cmp orig (push_times (\<lambda>_. True) cmp (length orig) minrun n st)"
  using assms(3)
proof (induction n arbitrary: st)
  case 0
  then show ?case using tsort_loop_ok [OF assms(1,2)] by simp
next
  case (Suc n)
  show ?case using push_next_result [OF assms(1) Suc.prems assms(2)] Suc.IH by simp
qed

lemma tsort_sorts:
  assumes "comparison cmp"
  shows "sort_result cmp dst (git__tsort_r (\<lambda>_. True) cmp dst)"
proof (cases "length dst < 64")
  case True
  have "\<exists>d. bisort cmp dst 1 (length dst) = Some d \<and> sorted_by cmp d \<and> mset d = mset dst"
  proof (cases dst)
    case Nil
    then show ?thesis by (simp add: bisort_def sorted_by_def)
  next
    case (Cons x xs)
    then show ?thesis using comparison.bisort_sorts [OF assms, of 1 "length dst" dst] by (fastforce simp: sorted_by_def)
  qed
  then show ?thesis using True by (auto simp: git__tsort_r_def sort_result_def)
next
  case False
  then have "loop_ok cmp dst ((dst, 0), [], 0)" "32 \<le> compute_minrun (length dst)"
    using minrun_loop_ge by (auto simp: loop_ok_def compute_minrun_def)
  then show ?thesis using push_times_ok [OF assms] False by (simp add: git__tsort_r_def Let_def)
qed

text \<open>
  (C15) The sort of \<open>tsort.c\<close> sorts: for every comparison that is a total preorder, and as long as memory can
  be had, the array that \<open>git__tsort_r\<close> leaves is a sorted permutation of the array it was given.  For up to
  4096 elements no access is outside the array or the stack of 128 runs, so that there is a result.
\<close>

theorem git__tsort_r_correct:
  assumes "comparison cmp"
  shows "(\<forall>d. git__tsort_r (\<lambda>_. True) cmp dst = Some d \<longrightarrow> sorted_by cmp d \<and> mset d = mset dst) \<and>
    (length dst \<le> 4096 \<longrightarrow> git__tsort_r (\<lambda>_. True) cmp dst \<noteq> None)"
  using tsort_sorts [OF assms, of dst] by (auto simp: sort_result_def split: option.splits)

theorem git__tsort_r_correct_witness:
  "\<exists>d. git__tsort_r (\<lambda>_. True) git__strcmp [ascii ''refs'', ascii ''head'', ascii ''odb''] = Some d \<and>
     sorted_by git__strcmp d \<and> set d = {ascii ''refs'', ascii ''head'', ascii ''odb''}"
proof -
  note * = git__tsort_r_correct [OF strcmp_order.comparison_axioms, of "[ascii ''refs'', ascii ''head'', ascii ''odb'']"]
  then obtain d where d: "git__tsort_r (\<lambda>_. True) git__strcmp [ascii ''refs'', ascii ''head'', ascii ''odb''] = Some d" by auto
  then have "sorted_by git__strcmp d" "mset d = mset [ascii ''refs'', ascii ''head'', ascii ''odb'']" using * by blast+
  moreover from this(2) have "set d = set [ascii ''refs'', ascii ''head'', ascii ''odb'']" by (rule mset_eq_setD)
  ultimately show ?thesis using d by auto
qed

end
