(* ===== verification/Vector.thy ===== *)
theory Vector
  imports Tsort_Correct "HOL-Library.Sublist"
begin

text \<open>
  \<open>libgit2-development/src/vector.c\<close> and \<open>vector.h\<close>: growable arrays with an optional comparison and a flag
  that says whether they are sorted.  The elements in use are a list, so that the field \<open>length\<close> is its
  length; \<open>_alloc_size\<close> is the capacity.  \<open>realloc_ok n\<close> says whether \<open>n\<close> pointers can be had.  An operation returns
  its result code and the vector; \<open>None\<close> is a failing assertion or an access outside an array.
\<close>

section \<open>Vectors\<close>

record 'a git_vector =
  vec_alloc_size :: nat
  vec_cmp :: "('a \<Rightarrow> 'a \<Rightarrow> int) option"
  vec_contents :: "'a list"
  vec_sorted :: bool

definition SIZE_MAX :: nat where "SIZE_MAX = 2 ^ 64 - 1"
definition MIN_ALLOCSIZE :: nat where "MIN_ALLOCSIZE = 8"

definition compute_new_size :: "'a git_vector \<Rightarrow> nat" where
  "compute_new_size v =
     (let new_size = vec_alloc_size v
      in if new_size < MIN_ALLOCSIZE then MIN_ALLOCSIZE
         else if new_size \<le> SIZE_MAX div 3 * 2 then new_size + new_size div 2
         else SIZE_MAX)"

definition resize_vector :: "(nat \<Rightarrow> bool) \<Rightarrow> 'a git_vector \<Rightarrow> nat \<Rightarrow> int \<times> 'a git_vector" where
  "resize_vector realloc_ok v new_size =
     (let new_bytes = new_size * 8 mod 2 ^ 64
      in if new_bytes div 8 \<noteq> new_size then (- 1, v)
         else if \<not> realloc_ok new_size then (- 1, v)
         else (0, v\<lparr>vec_alloc_size := new_size\<rparr>))"

definition git_vector_init :: "(nat \<Rightarrow> bool) \<Rightarrow> nat \<Rightarrow> ('a \<Rightarrow> 'a \<Rightarrow> int) option \<Rightarrow> int \<times> 'a git_vector" where
  "git_vector_init realloc_ok initial_size c =
     resize_vector realloc_ok \<lparr>vec_alloc_size = 0, vec_cmp = c, vec_contents = [], vec_sorted = True\<rparr>
       (max initial_size MIN_ALLOCSIZE)"

text \<open>
  \<open>same\<close> is the comparison of the two function pointers.  When no memory can be had, the new vector has the length
  of the old one and no array, which is \<open>None\<close> here.
\<close>

definition git_vector_dup ::
  "(nat \<Rightarrow> bool) \<Rightarrow> 'a git_vector \<Rightarrow> bool \<Rightarrow> ('a \<Rightarrow> 'a \<Rightarrow> int) option \<Rightarrow> int \<times> 'a git_vector option" where
  "git_vector_dup malloc_ok src same c =
     (let n = length (vec_contents src)
      in if malloc_ok n
         then (0, Some \<lparr>vec_alloc_size = n, vec_cmp = c, vec_contents = vec_contents src, vec_sorted = vec_sorted src \<and> same\<rparr>)
         else (- 1, None))"

definition git_vector_free :: "'a git_vector \<Rightarrow> 'a git_vector" where
  "git_vector_free v = v\<lparr>vec_contents := [], vec_alloc_size := 0\<rparr>"

text \<open>The first component is what is freed, in order.\<close>

definition git_vector_free_deep :: "'a git_vector \<Rightarrow> 'a list \<times> 'a git_vector" where
  "git_vector_free_deep v = (vec_contents v, git_vector_free v)"

definition git_vector_clear :: "'a git_vector \<Rightarrow> 'a git_vector" where
  "git_vector_clear v = v\<lparr>vec_contents := [], vec_sorted := True\<rparr>"

definition git_vector_detach :: "'a git_vector \<Rightarrow> 'a list \<times> nat \<times> 'a git_vector" where
  "git_vector_detach v = (vec_contents v, vec_alloc_size v, v\<lparr>vec_alloc_size := 0, vec_contents := []\<rparr>)"

definition git_vector_get :: "'a git_vector \<Rightarrow> nat \<Rightarrow> 'a option" where
  "git_vector_get v position = (if position < length (vec_contents v) then Some (vec_contents v ! position) else None)"

definition git_vector_last :: "'a git_vector \<Rightarrow> 'a option" where
  "git_vector_last v =
     (if 0 < length (vec_contents v) then git_vector_get v (length (vec_contents v) - 1) else None)"

definition git_vector_swap :: "'a git_vector \<Rightarrow> 'a git_vector \<Rightarrow> 'a git_vector \<times> 'a git_vector" where
  "git_vector_swap a b = (b, a)"

definition git_vector_set_cmp :: "bool \<Rightarrow> ('a \<Rightarrow> 'a \<Rightarrow> int) option \<Rightarrow> 'a git_vector \<Rightarrow> 'a git_vector" where
  "git_vector_set_cmp same c v = (if \<not> same then v\<lparr>vec_cmp := c, vec_sorted := False\<rparr> else v)"

section \<open>Inserting and sorting\<close>

text \<open>The test for room and the growth that two operations begin with.\<close>

definition vector_reserve :: "(nat \<Rightarrow> bool) \<Rightarrow> 'a git_vector \<Rightarrow> int \<times> 'a git_vector" where
  "vector_reserve realloc_ok v =
     (if vec_alloc_size v \<le> length (vec_contents v) then resize_vector realloc_ok v (compute_new_size v) else (0, v))"

definition git_vector_insert :: "(nat \<Rightarrow> bool) \<Rightarrow> 'a \<Rightarrow> 'a git_vector \<Rightarrow> int \<times> 'a git_vector" where
  "git_vector_insert realloc_ok x v =
     (case vector_reserve realloc_ok v of
        (rc, v) \<Rightarrow> if rc < 0 then (- 1, v)
                   else (0, v\<lparr>vec_contents := vec_contents v @ [x], vec_sorted := False\<rparr>))"

definition git_vector_sort :: "(nat \<Rightarrow> bool) \<Rightarrow> 'a git_vector \<Rightarrow> 'a git_vector option" where
  "git_vector_sort realloc_ok v =
     (if vec_sorted v then Some v
      else case vec_cmp v of
        None \<Rightarrow> Some v
      | Some c \<Rightarrow> map_option (\<lambda>d. v\<lparr>vec_contents := d, vec_sorted := True\<rparr>) (git__tsort_r realloc_ok c (vec_contents v)))"

text \<open>\<open>on_dup old new\<close> gives the result of the handler and what it leaves in the place of the old element.\<close>

definition git_vector_insert_sorted ::
  "(nat \<Rightarrow> bool) \<Rightarrow> ('a \<Rightarrow> 'a \<Rightarrow> int \<times> 'a) option \<Rightarrow> 'a \<Rightarrow> 'a git_vector \<Rightarrow> (int \<times> 'a git_vector) option" where
  "git_vector_insert_sorted realloc_ok on_dup x v =
     (case vec_cmp v of
        None \<Rightarrow> None
      | Some c \<Rightarrow>
     (case (if \<not> vec_sorted v then git_vector_sort realloc_ok v else Some v) of
        None \<Rightarrow> None
      | Some v \<Rightarrow>
     (case vector_reserve realloc_ok v of
        (rc, v) \<Rightarrow>
          if rc < 0 then Some (- 1, v)
          else let (missing, pos) = git__bsearch (vec_contents v) (c x);
                   (result, v) =
                     (case on_dup of
                        Some f \<Rightarrow>
                          if missing = 0
                          then (fst (f (vec_contents v ! pos) x),
                                v\<lparr>vec_contents := (vec_contents v)[pos := snd (f (vec_contents v ! pos) x)]\<rparr>)
                          else (0, v)
                      | None \<Rightarrow> (0, v))
               in if result < 0 then Some (result, v)
                  else Some (0, v\<lparr>vec_contents := take pos (vec_contents v) @ [x] @ drop pos (vec_contents v)\<rparr>))))"

section \<open>Searching\<close>

definition git_vector_bsearch2 ::
  "(nat \<Rightarrow> bool) \<Rightarrow> ('a \<Rightarrow> int) \<Rightarrow> 'a git_vector \<Rightarrow> (int \<times> nat option \<times> 'a git_vector) option" where
  "git_vector_bsearch2 realloc_ok key_lookup v =
     (case vec_cmp v of
        None \<Rightarrow> Some (- 1, None, v)
      | Some _ \<Rightarrow>
          (case git_vector_sort realloc_ok v of
             None \<Rightarrow> None
           | Some v \<Rightarrow> (case git__bsearch (vec_contents v) key_lookup of (rc, pos) \<Rightarrow> Some (rc, Some pos, v))))"

definition git_vector_bsearch ::
  "(nat \<Rightarrow> bool) \<Rightarrow> 'a \<Rightarrow> 'a git_vector \<Rightarrow> (int \<times> nat option \<times> 'a git_vector) option" where
  "git_vector_bsearch realloc_ok key v =
     (case vec_cmp v of None \<Rightarrow> None | Some c \<Rightarrow> git_vector_bsearch2 realloc_ok (c key) v)"

primrec search_loop :: "('a \<Rightarrow> int) \<Rightarrow> nat \<Rightarrow> 'a list \<Rightarrow> int \<times> nat option" where
  "search_loop key_lookup i [] = (- 3, None)"
| "search_loop key_lookup i (x # xs) = (if key_lookup x = 0 then (0, Some i) else search_loop key_lookup (i + 1) xs)"

definition git_vector_search2 :: "('a \<Rightarrow> int) \<Rightarrow> 'a git_vector \<Rightarrow> int \<times> nat option" where
  "git_vector_search2 key_lookup v = search_loop key_lookup 0 (vec_contents v)"

definition strict_comparison :: "'a \<Rightarrow> 'a \<Rightarrow> int" where
  "strict_comparison a b = (if a = b then 0 else - 1)"

definition git_vector_search :: "'a \<Rightarrow> 'a git_vector \<Rightarrow> int \<times> nat option" where
  "git_vector_search entry v =
     git_vector_search2 ((case vec_cmp v of Some c \<Rightarrow> c | None \<Rightarrow> strict_comparison) entry) v"

section \<open>Removing and setting\<close>

definition git_vector_remove :: "nat \<Rightarrow> 'a git_vector \<Rightarrow> int \<times> 'a git_vector" where
  "git_vector_remove idx v =
     (if length (vec_contents v) \<le> idx then (- 3, v)
      else (0, v\<lparr>vec_contents := take idx (vec_contents v) @ drop (idx + 1) (vec_contents v)\<rparr>))"

definition git_vector_pop :: "'a git_vector \<Rightarrow> 'a git_vector" where
  "git_vector_pop v = v\<lparr>vec_contents := butlast (vec_contents v)\<rparr>"

text \<open>
  The loop of \<open>git_vector_uniq\<close>, for the given number of iterations: the array, \<open>i\<close> at the end, and what is
  handed to \<open>git_free_cb\<close>.  The later of two equal elements is kept.
\<close>

primrec uniq_loop :: "('a \<Rightarrow> 'a \<Rightarrow> int) \<Rightarrow> nat \<Rightarrow> nat \<Rightarrow> nat \<Rightarrow> 'a list \<Rightarrow> 'a list \<times> nat \<times> 'a list" where
  "uniq_loop c 0 i j d = (d, i, [])"
| "uniq_loop c (Suc n) i j d =
     (if c (d ! i) (d ! j) = 0
      then (case uniq_loop c n i (j + 1) (d[i := d ! j]) of (d', i', freed) \<Rightarrow> (d', i', d ! i # freed))
      else uniq_loop c n (i + 1) (j + 1) (d[i + 1 := d ! j]))"

definition git_vector_uniq :: "(nat \<Rightarrow> bool) \<Rightarrow> 'a git_vector \<Rightarrow> ('a list \<times> 'a git_vector) option" where
  "git_vector_uniq realloc_ok v =
     (if length (vec_contents v) \<le> 1 then Some ([], v)
      else case git_vector_sort realloc_ok v of
        None \<Rightarrow> None
      | Some v \<Rightarrow>
          (case uniq_loop (case vec_cmp v of Some c \<Rightarrow> c | None \<Rightarrow> strict_comparison)
                  (length (vec_contents v) - 1) 0 1 (vec_contents v) of
             (d, i, freed) \<Rightarrow> Some (freed, v\<lparr>vec_contents := take (i + 1) d\<rparr>)))"

text \<open>\<open>match\<close> is given the vector as it is in the middle of the loop, with its old length.\<close>

primrec remove_matching_loop :: "('a git_vector \<Rightarrow> nat \<Rightarrow> bool) \<Rightarrow> nat \<Rightarrow> nat \<Rightarrow> nat \<Rightarrow> 'a git_vector \<Rightarrow> nat \<times> 'a git_vector" where
  "remove_matching_loop match 0 i j v = (i, v)"
| "remove_matching_loop match (Suc n) i j v =
     (let v = v\<lparr>vec_contents := (vec_contents v)[i := vec_contents v ! j]\<rparr>
      in remove_matching_loop match n (if \<not> match v i then i + 1 else i) (j + 1) v)"

definition git_vector_remove_matching :: "('a git_vector \<Rightarrow> nat \<Rightarrow> bool) \<Rightarrow> 'a git_vector \<Rightarrow> 'a git_vector" where
  "git_vector_remove_matching match v =
     (case remove_matching_loop match (length (vec_contents v)) 0 0 v of
        (i, v) \<Rightarrow> v\<lparr>vec_contents := take i (vec_contents v)\<rparr>)"

definition git_vector_resize_to :: "(nat \<Rightarrow> bool) \<Rightarrow> 'a \<Rightarrow> nat \<Rightarrow> 'a git_vector \<Rightarrow> int \<times> 'a git_vector" where
  "git_vector_resize_to realloc_ok null new_length v =
     (case (if vec_alloc_size v < new_length then resize_vector realloc_ok v new_length else (0, v)) of
        (rc, v) \<Rightarrow>
          if rc < 0 then (- 1, v)
          else (0, v\<lparr>vec_contents := take new_length (vec_contents v) @ replicate (new_length - length (vec_contents v)) null\<rparr>))"

text \<open>The sum \<open>position + 1\<close> is one of \<open>size_t\<close> and may wrap.\<close>

definition git_vector_set ::
  "(nat \<Rightarrow> bool) \<Rightarrow> 'a \<Rightarrow> nat \<Rightarrow> 'a \<Rightarrow> 'a git_vector \<Rightarrow> (int \<times> 'a option \<times> 'a git_vector) option" where
  "git_vector_set realloc_ok null position x v =
     (case git_vector_resize_to realloc_ok null ((position + 1) mod 2 ^ 64) v of
        (rc, v) \<Rightarrow>
          if rc < 0 then Some (- 1, None, v)
          else if length (vec_contents v) \<le> position then None
          else Some (0, Some (vec_contents v ! position), v\<lparr>vec_contents := (vec_contents v)[position := x]\<rparr>))"


section \<open>The invariant\<close>

text \<open>The elements fit into the array, and the flag is only set when they are in order.\<close>

definition vec_ok :: "('a \<Rightarrow> 'a \<Rightarrow> int) \<Rightarrow> 'a git_vector \<Rightarrow> bool" where
  "vec_ok c v \<longleftrightarrow> vec_cmp v = Some c \<and> length (vec_contents v) \<le> vec_alloc_size v \<and>
     (vec_sorted v \<longrightarrow> sorted_by c (vec_contents v))"

lemma sorted_by_Nil [simp]: "sorted_by c []"
  by (simp add: sorted_by_def)

lemma sorted_by_subseq:
  assumes "subseq xs ys" "sorted_by c ys"
  shows "sorted_by c xs"
proof -
  have "set xs \<subseteq> set ys" if "subseq xs ys" for xs ys :: "'a list"
    using that by (auto elim: list_emb_set)
  with assms show ?thesis
    unfolding sorted_by_def by (induction rule: list_emb.induct) auto
qed

lemma vec_ok_subseq:
  assumes "vec_ok c v" "subseq d (vec_contents v)"
  shows "vec_ok c (v\<lparr>vec_contents := d\<rparr>)"
  using assms sorted_by_subseq [OF assms(2)] list_emb_length [OF assms(2)] by (auto simp: vec_ok_def)

lemma resize_vector_ok:
  assumes "resize_vector ok v n = (rc, v')" "vec_ok c v" "length (vec_contents v) \<le> n"
  shows "vec_ok c v' \<and> vec_contents v' = vec_contents v \<and> vec_sorted v' = vec_sorted v \<and> (0 \<le> rc \<longrightarrow> vec_alloc_size v' = n)"
  using assms by (auto simp: resize_vector_def vec_ok_def Let_def split: if_splits)

lemma resize_vector_max: "resize_vector ok v SIZE_MAX = (- 1, v)"
  by (simp add: resize_vector_def SIZE_MAX_def)

lemma vector_reserve_ok:
  assumes "vector_reserve ok v = (rc, v')" "vec_ok c v"
  shows "vec_ok c v' \<and> vec_contents v' = vec_contents v \<and> vec_sorted v' = vec_sorted v \<and>
    (0 \<le> rc \<longrightarrow> length (vec_contents v) < vec_alloc_size v')"
proof (cases "vec_alloc_size v \<le> length (vec_contents v)")
  case True
  then have full: "length (vec_contents v) = vec_alloc_size v" using assms(2) by (simp add: vec_ok_def)
  show ?thesis
  proof (cases "compute_new_size v = SIZE_MAX")
    case max: True
    then show ?thesis using assms True by (auto simp: vector_reserve_def resize_vector_max)
  next
    case False
    then have "vec_alloc_size v < compute_new_size v"
      by (auto simp: compute_new_size_def MIN_ALLOCSIZE_def Let_def split: if_splits)
    then show ?thesis using resize_vector_ok [of ok v "compute_new_size v" rc v' c] assms True full
      by (auto simp: vector_reserve_def)
  qed
next
  case False
  then show ?thesis using assms by (auto simp: vector_reserve_def)
qed

lemma git_vector_sort_ok:
  assumes "comparison c" "vec_ok c v"
  shows "case git_vector_sort (\<lambda>_. True) v of
      None \<Rightarrow> 4096 < length (vec_contents v)
    | Some v' \<Rightarrow> vec_ok c v' \<and> vec_sorted v' \<and> mset (vec_contents v') = mset (vec_contents v)"
proof (cases "vec_sorted v")
  case True
  then show ?thesis using assms(2) by (simp add: git_vector_sort_def)
next
  case False
  have c: "vec_cmp v = Some c" and room: "length (vec_contents v) \<le> vec_alloc_size v" using assms(2) by (simp_all add: vec_ok_def)
  note sorts = tsort_sorts [OF assms(1), of "vec_contents v"]
  show ?thesis
  proof (cases "git__tsort_r (\<lambda>_. True) c (vec_contents v)")
    case None
    then show ?thesis using sorts False c by (simp add: git_vector_sort_def sort_result_def)
  next
    case (Some d)
    then have d: "sorted_by c d" "mset d = mset (vec_contents v)" using sorts by (simp_all add: sort_result_def)
    show ?thesis using Some False c room d mset_eq_length [OF d(2)] by (simp add: git_vector_sort_def vec_ok_def)
  qed
qed

lemma key_sorted:
  assumes "comparison c" "sorted_by c d"
  shows "sorted_wrt (\<lambda>x y. sgn (c key y) \<le> sgn (c key x)) d"
proof -
  have "sgn (c key y) \<le> sgn (c key x)" if "c x y \<le> 0" for x y
  proof -
    have "c key x < 0 \<Longrightarrow> c key y < 0" by (rule comparison.lt_le_trans [OF assms(1) _ that])
    moreover have "c key x \<le> 0 \<Longrightarrow> c key y \<le> 0" by (rule comparison.le_trans [OF assms(1) _ that])
    ultimately show ?thesis unfolding sgn_if by (cases "c key x < 0"; cases "c key x = 0") simp_all
  qed
  then show ?thesis using assms(2) by (simp add: sorted_by_def sorted_wrt_iff_nth_less)
qed

lemma insert_at_sorted:
  assumes "comparison c" "sorted_by c d" "git__bsearch d (c x) = (rc, pos)"
  shows "pos \<le> length d \<and> sorted_by c (take pos d @ [x] @ drop pos d)"
proof -
  note found = bsearch_result [OF key_sorted [OF assms(1,2), of x] assms(3)]
  have le: "c (d ! i) (d ! j) \<le> 0" if "i < j" "j < length d" for i j
    using assms(2) that by (simp add: sorted_by_def sorted_wrt_iff_nth_less)
  have pos: "pos \<le> length d" using found by (auto split: if_splits)
  have before: "c (d ! i) x \<le> 0" if "i < pos" for i
  proof (cases "\<exists>y \<in> set d. c x y = 0")
    case True
    then have "pos < length d" "c x (d ! pos) = 0" using found by auto
    then show ?thesis using le [OF that] comparison.le_trans [OF assms(1), of "d ! i" "d ! pos" x]
      comparison.flip [OF assms(1), of "d ! pos" x] by linarith
  next
    case False
    then have "0 < c x (d ! i)" using found that by auto
    then show ?thesis using comparison.flip [OF assms(1), of x "d ! i"] by linarith
  qed
  have after: "c x (d ! i) \<le> 0" if "pos \<le> i" "i < length d" for i
  proof (cases "\<exists>y \<in> set d. c x y = 0")
    case True
    then have "c x (d ! pos) = 0" using found by auto
    then show ?thesis using that le [of pos i] comparison.le_trans [OF assms(1), of x "d ! pos" "d ! i"]
      by (cases "i = pos") auto
  next
    case False
    then show ?thesis using found that by (auto intro: less_imp_le)
  qed
  have "sorted_by c (take pos d)" "sorted_by c (drop pos d)"
    using assms(2) unfolding sorted_by_def by (auto intro: sorted_wrt_take sorted_wrt_drop)
  moreover have "\<forall>a \<in> set (take pos d). c a x \<le> 0" using before pos by (auto simp: in_set_conv_nth)
  moreover have "\<forall>b \<in> set (drop pos d). c x b \<le> 0" using after by (auto simp: in_set_conv_nth)
  moreover have "\<forall>a \<in> set (take pos d). \<forall>b \<in> set (drop pos d). c a b \<le> 0"
    using calculation(3,4) comparison.le_trans [OF assms(1), of _ x] by blast
  ultimately show ?thesis using pos unfolding sorted_by_def by (simp add: sorted_wrt_append ball_Un)
qed


section \<open>Every operation keeps it\<close>

text \<open>The step both loops make: the element at \<open>j\<close> is copied down to \<open>i\<close>.\<close>

lemma copy_down:
  assumes "i \<le> j" "j < length d"
  shows "take (i + 1) (d[i := d ! j]) @ drop (j + 1) (d[i := d ! j]) = take i d @ drop j d"
  using assms by (simp add: take_Suc_conv_app_nth Cons_nth_drop_Suc)

lemma subseq_drop_one: "subseq (take i d @ drop (j + 1) d) (take i d @ drop j d)"
proof -
  have "subseq (drop 1 (drop j d)) (drop j d)" by (rule suffix_imp_subseq) (rule suffix_drop)
  then show ?thesis by (intro list_emb_append_mono) simp_all
qed

lemma remove_matching_loop_subseq:
  assumes "remove_matching_loop match n i j v = (i', v')" "i \<le> j" "j + n = length (vec_contents v)"
  shows "subseq (take i' (vec_contents v')) (take i (vec_contents v) @ drop j (vec_contents v)) \<and>
    (\<exists>d. v' = v\<lparr>vec_contents := d\<rparr>)"
  using assms
proof (induction n arbitrary: i j v)
  case 0
  then show ?case by (auto intro: exI [of _ "vec_contents v"])
next
  case (Suc n)
  define d where "d = (vec_contents v)[i := vec_contents v ! j]"
  define k where "k = (if \<not> match (v\<lparr>vec_contents := d\<rparr>) i then i + 1 else i)"
  have run: "remove_matching_loop match n k (j + 1) (v\<lparr>vec_contents := d\<rparr>) = (i', v')"
    using Suc.prems(1) by (simp add: d_def k_def Let_def)
  have IH: "subseq (take i' (vec_contents v')) (take k d @ drop (j + 1) d) \<and> (\<exists>e. v' = v\<lparr>vec_contents := e\<rparr>)"
    using Suc.IH [OF run] Suc.prems(2,3) by (auto simp: k_def d_def)
  have "subseq (take k d @ drop (j + 1) d) (take i (vec_contents v) @ drop j (vec_contents v))"
  proof (cases "k = i")
    case True
    then show ?thesis using Suc.prems(2) subseq_drop_one [of i "vec_contents v" j] by (simp add: d_def)
  next
    case False
    then have "k = i + 1" by (simp add: k_def split: if_splits)
    then show ?thesis using copy_down [of i j "vec_contents v"] Suc.prems(2,3) by (simp add: d_def)
  qed
  then show ?case using IH by (blast intro: subseq_order.order_trans)
qed

lemma uniq_loop_subseq:
  assumes "uniq_loop c n i j d = (d', i', freed)" "i < j" "j + n = length d"
  shows "subseq (take (i' + 1) d') (take (i + 1) d @ drop j d)"
  using assms
proof (induction n arbitrary: i j d freed)
  case 0
  then show ?case by auto
next
  case (Suc n)
  show ?case
  proof (cases "c (d ! i) (d ! j) = 0")
    case True
    then obtain fr where run: "uniq_loop c n i (j + 1) (d[i := d ! j]) = (d', i', fr)"
      using Suc.prems(1) by (auto split: prod.splits)
    have "subseq (take i d @ drop j d) (take (i + 1) d @ drop j d)"
      by (intro list_emb_append_mono prefix_imp_subseq) (simp_all only: take_add prefix_def, auto)
    moreover have "subseq (take (i' + 1) d') (take i d @ drop j d)"
      using Suc.IH [OF run] Suc.prems(2,3) copy_down [of i j d] by simp
    ultimately show ?thesis by (rule subseq_order.order_trans [rotated])
  next
    case False
    then have run: "uniq_loop c n (i + 1) (j + 1) (d[i + 1 := d ! j]) = (d', i', freed)" using Suc.prems(1) by simp
    show ?thesis using Suc.IH [OF run] Suc.prems(2,3) copy_down [of "i + 1" j d] by simp
  qed
qed

lemma git_vector_remove_matching_ok:
  assumes "vec_ok c v"
  shows "vec_ok c (git_vector_remove_matching match v)"
proof -
  obtain i v' where run: "remove_matching_loop match (length (vec_contents v)) 0 0 v = (i, v')" by fastforce
  with remove_matching_loop_subseq [OF run] obtain d where "v' = v\<lparr>vec_contents := d\<rparr>" "subseq (take i d) (vec_contents v)" by auto
  then show ?thesis using run vec_ok_subseq [OF assms] by (simp add: git_vector_remove_matching_def)
qed

lemma git_vector_uniq_ok:
  assumes "comparison c" "vec_ok c v" "git_vector_uniq (\<lambda>_. True) v = Some (freed, v')"
  shows "vec_ok c v'"
proof (cases "length (vec_contents v) \<le> 1")
  case True
  then show ?thesis using assms(2,3) by (simp add: git_vector_uniq_def)
next
  case False
  then obtain w where w: "git_vector_sort (\<lambda>_. True) v = Some w"
    using assms(3) by (auto simp: git_vector_uniq_def split: option.splits)
  have ok: "vec_ok c w" "mset (vec_contents w) = mset (vec_contents v)" using git_vector_sort_ok [OF assms(1,2)] w by simp_all
  obtain d i fr where run: "uniq_loop c (length (vec_contents w) - 1) 0 1 (vec_contents w) = (d, i, fr)"
    using prod_cases3 by blast
  have "0 < length (vec_contents w)" using mset_eq_length [OF ok(2)] False by linarith
  then have "subseq (take (i + 1) d) (vec_contents w)"
    using uniq_loop_subseq [OF run] by (cases "vec_contents w") auto
  moreover have "v' = w\<lparr>vec_contents := take (i + 1) d\<rparr>"
    using assms(3) False w run ok(1) by (simp add: git_vector_uniq_def vec_ok_def)
  ultimately show ?thesis using vec_ok_subseq [OF ok(1)] by simp
qed

lemma git_vector_insert_ok:
  assumes "vec_ok c v" "git_vector_insert ok x v = (rc, v')"
  shows "vec_ok c v'"
proof -
  obtain r w where w: "vector_reserve ok v = (r, w)" by fastforce
  show ?thesis using vector_reserve_ok [OF w assms(1)] assms(2) w
    by (auto simp: git_vector_insert_def vec_ok_def split: if_splits)
qed

lemma git_vector_remove_ok:
  assumes "vec_ok c v" "git_vector_remove idx v = (rc, v')"
  shows "vec_ok c v'"
proof -
  have "subseq (take idx (vec_contents v) @ drop (idx + 1) (vec_contents v)) (vec_contents v)"
    using subseq_drop_one [of idx "vec_contents v" idx] by simp
  then show ?thesis using assms vec_ok_subseq [OF assms(1)] by (auto simp: git_vector_remove_def split: if_splits)
qed

lemma git_vector_pop_ok: "vec_ok c v \<Longrightarrow> vec_ok c (git_vector_pop v)"
  unfolding git_vector_pop_def by (rule vec_ok_subseq) (auto intro: prefix_imp_subseq simp: butlast_conv_take take_is_prefix)


text \<open>The handler of duplicates must leave the old element where it is.\<close>

definition keeps_old :: "('a \<Rightarrow> 'a \<Rightarrow> int \<times> 'a) option \<Rightarrow> bool" where
  "keeps_old on_dup \<longleftrightarrow> (case on_dup of None \<Rightarrow> True | Some f \<Rightarrow> \<forall>old new. snd (f old new) = old)"

lemma git_vector_insert_sorted_ok:
  assumes "comparison c" "vec_ok c v" "keeps_old on_dup" "git_vector_insert_sorted (\<lambda>_. True) on_dup x v = Some (rc, v')"
  shows "vec_ok c v'"
proof -
  have c: "vec_cmp v = Some c" using assms(2) by (simp add: vec_ok_def)
  obtain w where w: "git_vector_sort (\<lambda>_. True) v = Some w"
    using assms(4) c by (cases "vec_sorted v") (auto simp: git_vector_insert_sorted_def git_vector_sort_def split: option.splits)
  have sort: "(if \<not> vec_sorted v then git_vector_sort (\<lambda>_. True) v else Some v) = Some w"
    using w by (simp add: git_vector_sort_def split: if_splits)
  have ok: "vec_ok c w" "vec_sorted w" using git_vector_sort_ok [OF assms(1,2)] w by simp_all
  obtain r u where u: "vector_reserve (\<lambda>_. True) w = (r, u)" by fastforce
  note room = vector_reserve_ok [OF u ok(1)]
  obtain missing pos where b: "git__bsearch (vec_contents u) (c x) = (missing, pos)" by fastforce
  have sorted: "sorted_by c (vec_contents u)" using room ok by (simp add: vec_ok_def)
  note at = insert_at_sorted [OF assms(1) sorted b]
  have same: "(vec_contents u)[pos := snd (f (vec_contents u ! pos) x)] = vec_contents u" if "on_dup = Some f" for f
    using assms(3) that by (simp add: keeps_old_def)
  have "v' = u \<or> 0 \<le> r \<and> v' = u\<lparr>vec_contents := take pos (vec_contents u) @ [x] @ drop pos (vec_contents u)\<rparr>"
    using assms(4) c sort u b same
    by (auto simp: git_vector_insert_sorted_def Let_def split: option.splits if_splits)
  then show ?thesis using room at ok(1) by (auto simp: vec_ok_def)
qed

section \<open>Vectors of a program\<close>

text \<open>
  The vectors with comparison \<open>c\<close> that a program can build with the operations of the interface, in any order.
  Operations that fail are included; the sorts find the memory they need.
\<close>

inductive vec_reach :: "('a \<Rightarrow> 'a \<Rightarrow> int) \<Rightarrow> 'a git_vector \<Rightarrow> bool" for c where
  init: "git_vector_init ok n (Some c) = (rc, v) \<Longrightarrow> vec_reach c v"
| insert: "vec_reach c v \<Longrightarrow> git_vector_insert ok x v = (rc, v') \<Longrightarrow> vec_reach c v'"
| insert_sorted: "vec_reach c v \<Longrightarrow> keeps_old on_dup \<Longrightarrow>
    git_vector_insert_sorted (\<lambda>_. True) on_dup x v = Some (rc, v') \<Longrightarrow> vec_reach c v'"
| sort: "vec_reach c v \<Longrightarrow> git_vector_sort (\<lambda>_. True) v = Some v' \<Longrightarrow> vec_reach c v'"
| remove: "vec_reach c v \<Longrightarrow> git_vector_remove idx v = (rc, v') \<Longrightarrow> vec_reach c v'"
| pop: "vec_reach c v \<Longrightarrow> vec_reach c (git_vector_pop v)"
| uniq: "vec_reach c v \<Longrightarrow> git_vector_uniq (\<lambda>_. True) v = Some (freed, v') \<Longrightarrow> vec_reach c v'"
| remove_matching: "vec_reach c v \<Longrightarrow> vec_reach c (git_vector_remove_matching match v)"
| clear: "vec_reach c v \<Longrightarrow> vec_reach c (git_vector_clear v)"
| free: "vec_reach c v \<Longrightarrow> vec_reach c (git_vector_free v)"
| detach: "vec_reach c v \<Longrightarrow> git_vector_detach v = (d, n, v') \<Longrightarrow> vec_reach c v'"
| dup: "vec_reach c v \<Longrightarrow> git_vector_dup ok v True (Some c) = (rc, Some v') \<Longrightarrow> vec_reach c v'"

lemma vec_reach_ok:
  assumes "vec_reach c v" "comparison c"
  shows "vec_ok c v"
  using assms
proof (induction rule: vec_reach.induct)
  case (init ok n rc v)
  then show ?case by (auto simp: git_vector_init_def resize_vector_def vec_ok_def Let_def split: if_splits)
next
  case (sort v v')
  then show ?case using git_vector_sort_ok [of c v] by simp
next
  case (dup v ok rc v')
  then show ?case by (auto simp: git_vector_dup_def vec_ok_def Let_def split: if_splits)
qed (auto simp: git_vector_clear_def git_vector_free_def git_vector_detach_def vec_ok_def [of c "_\<lparr>vec_alloc_size := _, vec_contents := _\<rparr>"]
    intro: git_vector_insert_ok git_vector_insert_sorted_ok git_vector_remove_ok git_vector_pop_ok git_vector_uniq_ok
      git_vector_remove_matching_ok vec_ok_subseq, auto simp: vec_ok_def)



text \<open>
  (C33) \<open>git_vector_set\<close> at a position inside the vector drops every element after that position, since it sets the
  length to \<open>position + 1\<close>; it also leaves the flag that says that the vector is sorted as it was.
\<close>

theorem git_vector_set_truncates:
  assumes "position < length (vec_contents v)" "length (vec_contents v) \<le> vec_alloc_size v" "vec_alloc_size v < 2 ^ 64"
  shows "git_vector_set realloc_ok null position x v =
    Some (0, Some (vec_contents v ! position), v\<lparr>vec_contents := take position (vec_contents v) @ [x]\<rparr>)"
proof -
  have "(position + 1) mod 2 ^ 64 = position + 1" using assms by simp
  then show ?thesis using assms(1,2)
    by (simp add: git_vector_set_def git_vector_resize_to_def take_Suc_conv_app_nth list_update_append nth_append)
qed

theorem git_vector_set_truncates_witness:
  "\<exists>v. git_vector_set (\<lambda>_. True) 0 2 0
       \<lparr>vec_alloc_size = 8, vec_cmp = Some (-), vec_contents = [1, 5, 9, 12 :: int], vec_sorted = True\<rparr> = Some (0, Some 9, v) \<and>
     vec_contents v = [1, 5, 0] \<and> vec_sorted v \<and> git_vector_search 0 v = (0, Some 2) \<and>
     git_vector_bsearch (\<lambda>_. True) 0 v = Some (- 3, Some 0, v)"
  by (subst git_vector_set_truncates)
    (simp_all add: git_vector_search_def git_vector_search2_def git_vector_bsearch_def git_vector_bsearch2_def
      git_vector_sort_def git__bsearch_def bsearch_loop.simps)

end
