(* ===== verification/Shield.thy ===== *)
theory Shield
  imports Prelude
begin

text \<open>
  The load-shedding proxy \<open>level2/shield\<close>: the statistics of the clients, the choice of a backend and the
  queue of waiting requests.  The HTTP server and the proxy library are outside the repository; their
  events (a request arrives, a client hangs up, a proxied request ends) are the steps of the model,
  each with the time that \<open>Date.now()\<close> returns during it.
\<close>

section \<open>Requests and clients\<close>

record req_data =
  req_ip :: string
  startTime :: int
  closed :: bool

record client_datum =
  starts :: "int list"
  blackhole :: bool

type_synonym client_stats = "string \<rightharpoonup> client_datum"

definition backendFlight :: int where "backendFlight = 2"
definition backendQueue :: int where "backendQueue = 1"
definition reqTimeout :: int where "reqTimeout = 500"
definition reqTime :: int where "reqTime = 75"
definition maxRequests :: nat where "maxRequests = 4"
definition maxRate :: int where "maxRate = 5"

text \<open>The sum of the differences of consecutive starts; the rate is this sum over their number.\<close>

fun start_deltas :: "int list \<Rightarrow> int" where
  "start_deltas (a # b # ts) = (b - a) + start_deltas (b # ts)"
| "start_deltas ts = 0"

text \<open>
  \<open>ClientStats.record\<close>.  The comparison of the rate is that of the sum with the number of differences
  times \<open>maxRate\<close>; the rate itself is used nowhere else.
\<close>

definition client_record :: "req_data \<Rightarrow> client_stats \<Rightarrow> client_stats" where
  "client_record req stats =
     (let datum = (case stats (req_ip req) of None \<Rightarrow> \<lparr>starts = [], blackhole = False\<rparr> | Some d \<Rightarrow> d);
          datum = datum\<lparr>starts := starts datum @ [startTime req]\<rparr>;
          n = length (starts datum);
          datum = (if maxRequests < n then datum\<lparr>blackhole := True\<rparr>
                   else if 1 < n \<and> start_deltas (starts datum) < maxRate * int (n - 1) then datum\<lparr>blackhole := True\<rparr>
                   else datum)
      in stats(req_ip req \<mapsto> datum))"

text \<open>
  Numbers of JavaScript with the value that arithmetic on \<open>undefined\<close> has.  \<open>reqData.start\<close>
  is not a field of a request, so that it reads as \<open>undefined\<close>.
\<close>

datatype js_number = NaN | Num int

fun js_minus :: "js_number \<Rightarrow> js_number \<Rightarrow> js_number" where
  "js_minus (Num a) (Num b) = Num (a - b)"
| "js_minus _ _ = NaN"

fun js_greater :: "js_number \<Rightarrow> js_number \<Rightarrow> bool" where
  "js_greater (Num a) (Num b) \<longleftrightarrow> b < a"
| "js_greater _ _ \<longleftrightarrow> False"

definition reqData_start :: "req_data \<Rightarrow> js_number" where
  "reqData_start req = NaN"

definition shouldReject :: "int \<Rightarrow> client_stats \<Rightarrow> req_data \<Rightarrow> bool" where
  "shouldReject now stats req =
     (let timedOut = js_greater (js_minus (Num (now + reqTime)) (reqData_start req)) (Num reqTimeout);
          black = (case stats (req_ip req) of None \<Rightarrow> False | Some d \<Rightarrow> blackhole d)
      in timedOut \<or> black)"

text \<open>A client that is not known cannot be scored in the source; every queued request is recorded first.\<close>

definition client_score :: "int \<Rightarrow> client_stats \<Rightarrow> req_data \<Rightarrow> int" where
  "client_score now stats req =
     (case stats (req_ip req) of
        None \<Rightarrow> 0
      | Some d \<Rightarrow> (now - startTime req) + (int maxRequests - int (length (starts d))) * 100)"

section \<open>The queue\<close>

record queue =
  proxies :: "int list"
  stats :: client_stats
  requests :: "req_data list"
  proxied :: "(nat \<times> req_data) list"
  rejected :: "req_data list"

definition proxy_full :: "int \<Rightarrow> bool" where
  "proxy_full inFlight \<longleftrightarrow> backendFlight + backendQueue \<le> inFlight"

definition proxy_waiting :: "int \<Rightarrow> bool" where
  "proxy_waiting inFlight \<longleftrightarrow> inFlight < backendFlight"

text \<open>\<open>_.min\<close>: the first index with the least value.\<close>

fun min_index :: "int list \<Rightarrow> nat" where
  "min_index [] = 0"
| "min_index [x] = 0"
| "min_index (x # y # xs) = (let i = min_index (y # xs) in if x \<le> (y # xs) ! i then 0 else Suc i)"

definition getAvailableProxy :: "queue \<Rightarrow> nat option" where
  "getAvailableProxy q =
     (let p = min_index (proxies q) in if \<not> proxy_full (proxies q ! p) then Some p else None)"

definition proxy_push :: "nat \<Rightarrow> req_data \<Rightarrow> queue \<Rightarrow> queue" where
  "proxy_push p req q = q\<lparr>proxies := (proxies q)[p := proxies q ! p + 1], proxied := proxied q @ [(p, req)]\<rparr>"

definition takeRequest :: "int \<Rightarrow> req_data \<Rightarrow> queue \<Rightarrow> queue" where
  "takeRequest now req q =
     (let proxy = getAvailableProxy q;
          q = q\<lparr>stats := client_record req (stats q)\<rparr>
      in if \<not> (case proxy of None \<Rightarrow> False | Some p \<Rightarrow> proxy_waiting (proxies q ! p)) \<and> shouldReject now (stats q) req
         then q\<lparr>rejected := rejected q @ [req]\<rparr>
         else case proxy of
           Some p \<Rightarrow> proxy_push p req q
         | None \<Rightarrow> q\<lparr>requests := requests q @ [req]\<rparr>)"

definition tryProxyNext :: "int \<Rightarrow> queue \<Rightarrow> queue" where
  "tryProxyNext now q =
     (if requests q = [] then q
      else case getAvailableProxy q of
        None \<Rightarrow> q
      | Some p \<Rightarrow>
          let reject = (\<lambda>req. closed req \<or> shouldReject now (stats q) req);
              q = q\<lparr>requests := filter (\<lambda>req. \<not> reject req) (requests q),
                    rejected := rejected q @ filter reject (requests q)\<rparr>
          in if requests q = [] then q
             else let sorted = sort_key (client_score now (stats q)) (requests q)
                  in proxy_push p (last sorted) (q\<lparr>requests := butlast sorted\<rparr>))"

text \<open>The handler of a proxy's \<open>end\<close> event.\<close>

definition proxy_end :: "int \<Rightarrow> nat \<Rightarrow> queue \<Rightarrow> queue" where
  "proxy_end now p q = tryProxyNext now (q\<lparr>proxies := (proxies q)[p := proxies q ! p - 1]\<rparr>)"

definition response_close :: "nat \<Rightarrow> queue \<Rightarrow> queue" where
  "response_close i q = q\<lparr>requests := (requests q)[i := (requests q ! i)\<lparr>closed := True\<rparr>]\<rparr>"

definition queue_new :: "nat \<Rightarrow> queue" where
  "queue_new n = \<lparr>proxies = replicate n 0, stats = Map.empty, requests = [], proxied = [], rejected = []\<rparr>"

text \<open>
  The events.  A proxy reports the end of a request once for every request that it was given, so an end
  comes only while one is in flight; the first component counts the requests that have arrived.
\<close>

inductive shield_step :: "nat \<times> queue \<Rightarrow> nat \<times> queue \<Rightarrow> bool" where
  step_take: "shield_step (n, q) (Suc n, takeRequest now req q)"
| step_end: "p < length (proxies q) \<Longrightarrow> 0 < proxies q ! p \<Longrightarrow> shield_step (n, q) (n, proxy_end now p q)"
| step_close: "i < length (requests q) \<Longrightarrow> shield_step (n, q) (n, response_close i q)"

section \<open>Facts about the choice of a backend\<close>

lemma min_index_least: "xs \<noteq> [] \<Longrightarrow> min_index xs < length xs \<and> (\<forall>x \<in> set xs. xs ! min_index xs \<le> x)"
proof (induction xs rule: min_index.induct)
  case (3 x y xs)
  then show ?case by (force simp: Let_def)
qed simp_all

lemma getAvailable_Some:
  assumes "getAvailableProxy q = Some p" "proxies q \<noteq> []"
  shows "p < length (proxies q)" "\<not> proxy_full (proxies q ! p)"
  using assms min_index_least [OF assms(2)] by (auto simp: getAvailableProxy_def Let_def split: if_splits)

lemma getAvailable_None:
  assumes "getAvailableProxy q = None" "proxies q \<noteq> []" "n \<in> set (proxies q)"
  shows "proxy_full n"
  using assms min_index_least [OF assms(2)]
  by (fastforce simp: getAvailableProxy_def Let_def proxy_full_def split: if_splits)

text \<open>The timeout never rejects a request.\<close>

lemma shouldReject_blackhole:
  "shouldReject now st req \<longleftrightarrow> (case st (req_ip req) of None \<Rightarrow> False | Some d \<Rightarrow> blackhole d)"
  by (simp add: shouldReject_def reqData_start_def Let_def)

section \<open>The invariant\<close>

definition queue_ok :: "nat \<times> queue \<Rightarrow> bool" where
  "queue_ok s \<longleftrightarrow> (case s of (n, q) \<Rightarrow>
     proxies q \<noteq> [] \<and> (\<forall>f \<in> set (proxies q). 0 \<le> f \<and> f \<le> backendFlight + backendQueue) \<and>
     (requests q \<noteq> [] \<longrightarrow> (\<forall>f \<in> set (proxies q). proxy_full f)) \<and>
     n = length (proxied q) + length (rejected q) + length (requests q))"

lemma push_bounds:
  assumes "\<forall>f \<in> set fs. 0 \<le> f \<and> f \<le> backendFlight + backendQueue" "p < length fs" "\<not> proxy_full (fs ! p)"
  shows "\<forall>f \<in> set (fs[p := fs ! p + 1]). 0 \<le> f \<and> f \<le> backendFlight + backendQueue"
  using assms by (auto simp: proxy_full_def dest!: set_update_subset_insert [THEN subsetD])

lemma take_ok: "queue_ok (n, q) \<Longrightarrow> queue_ok (Suc n, takeRequest now req q)"
proof (cases "getAvailableProxy q")
  case None
  assume "queue_ok (n, q)"
  with None show ?thesis using getAvailable_None [OF None] by (auto simp: queue_ok_def takeRequest_def Let_def)
next
  case (Some p)
  assume ok: "queue_ok (n, q)"
  then have p: "p < length (proxies q)" "\<not> proxy_full (proxies q ! p)"
    using getAvailable_Some [OF Some] by (auto simp: queue_ok_def)
  then have "requests q = []" using ok by (auto simp: queue_ok_def)
  then show ?thesis using Some ok p push_bounds [OF _ p]
    by (auto simp: queue_ok_def takeRequest_def proxy_push_def Let_def)
qed

text \<open>What the end of a request leaves: one backend is free, and the invariant holds but for it.\<close>

lemma next_ok:
  assumes "proxies q \<noteq> []" "\<forall>f \<in> set (proxies q). 0 \<le> f \<and> f \<le> backendFlight + backendQueue"
    and "p < length (proxies q)" "\<not> proxy_full (proxies q ! p)"
    and "requests q \<noteq> [] \<longrightarrow> (\<forall>i < length (proxies q). i \<noteq> p \<longrightarrow> proxy_full (proxies q ! i))"
    and "requests q \<noteq> [] \<longrightarrow> proxies q ! p = backendFlight + backendQueue - 1"
    and "n = length (proxied q) + length (rejected q) + length (requests q)"
  shows "queue_ok (n, tryProxyNext now q)"
proof (cases "requests q = []")
  case True
  then show ?thesis using assms by (simp add: tryProxyNext_def queue_ok_def)
next
  case False
  have av: "getAvailableProxy q = Some p"
  proof (cases "getAvailableProxy q")
    case None
    then show ?thesis using getAvailable_None [OF None assms(1)] assms(3,4) nth_mem by blast
  next
    case (Some k)
    then show ?thesis using getAvailable_Some [OF Some assms(1)] assms(5) False by blast
  qed
  let ?keep = "filter (\<lambda>req. \<not> (closed req \<or> shouldReject now (stats q) req)) (requests q)"
  have count: "length ?keep + length (filter (\<lambda>req. closed req \<or> shouldReject now (stats q) req) (requests q)) =
      length (requests q)" using sum_length_filter_compl [of "\<lambda>req. closed req \<or> shouldReject now (stats q) req"] by (simp add: add.commute)
  show ?thesis
  proof (cases "?keep = []")
    case True
    then show ?thesis using assms av False count by (auto simp: tryProxyNext_def queue_ok_def Let_def)
  next
    case keep: False
    have full: "\<forall>f \<in> set ((proxies q)[p := proxies q ! p + 1]). proxy_full f"
      using assms(3,5,6) False by (auto simp: in_set_conv_nth nth_list_update proxy_full_def)
    have "0 < length ?keep" using keep by simp
    then show ?thesis using assms av False keep count full push_bounds [OF assms(2-4)]
      by (simp add: tryProxyNext_def queue_ok_def proxy_push_def Let_def del: length_greater_0_conv)
  qed
qed

lemma end_ok:
  assumes "queue_ok (n, q)" "p < length (proxies q)" "0 < proxies q ! p"
  shows "queue_ok (n, proxy_end now p q)"
proof -
  let ?q = "q\<lparr>proxies := (proxies q)[p := proxies q ! p - 1]\<rparr>"
  have bounds: "0 \<le> proxies q ! p" "proxies q ! p \<le> backendFlight + backendQueue"
    using assms(1,2) by (auto simp: queue_ok_def)
  have full: "proxies q ! i = backendFlight + backendQueue" if "requests q \<noteq> []" "i < length (proxies q)" for i
    using assms(1) that nth_mem [OF that(2)] by (auto simp: queue_ok_def proxy_full_def intro: antisym)
  have free: "\<not> proxy_full (proxies q ! p - 1)" using bounds(2) by (simp add: proxy_full_def)
  have "0 \<le> proxies q ! p - 1 \<and> proxies q ! p - 1 \<le> backendFlight + backendQueue" using bounds(2) assms(3) by linarith
  moreover have "set (proxies ?q) \<subseteq> insert (proxies q ! p - 1) (set (proxies q))" by (simp add: set_update_subset_insert)
  ultimately have "\<forall>f \<in> set (proxies ?q). 0 \<le> f \<and> f \<le> backendFlight + backendQueue"
    using assms(1) by (auto simp: queue_ok_def)
  then show ?thesis
    unfolding proxy_end_def using assms full free
    by (intro next_ok [where p = p]) (auto simp: queue_ok_def proxy_full_def)
qed

lemma close_ok: "queue_ok (n, q) \<Longrightarrow> queue_ok (n, response_close i q)"
  by (auto simp: queue_ok_def response_close_def)

lemma shield_keeps: "shield_step s s' \<Longrightarrow> queue_ok s \<Longrightarrow> queue_ok s'"
  by (induction rule: shield_step.induct) (auto intro: take_ok end_ok close_ok)


text \<open>Four requests of different clients to one backend: three are proxied, the fourth waits.\<close>

definition sample_req :: "string \<Rightarrow> req_data" where
  "sample_req client = \<lparr>req_ip = client, startTime = 0, closed = False\<rparr>"

definition sample_queue :: queue where
  "sample_queue = takeRequest 0 (sample_req ''d'') (takeRequest 0 (sample_req ''c'')
     (takeRequest 0 (sample_req ''b'') (takeRequest 0 (sample_req ''a'') (queue_new 1))))"

lemmas shield_defs = takeRequest_def queue_new_def getAvailableProxy_def proxy_push_def shouldReject_blackhole
  client_record_def proxy_full_def proxy_waiting_def backendFlight_def backendQueue_def maxRequests_def Let_def

lemma sample_queue_waits: "requests sample_queue = [sample_req ''d'']" "length (proxied sample_queue) = 3" "rejected sample_queue = []"
  by (simp_all add: sample_queue_def sample_req_def shield_defs)

lemma sample_queue_reached: "shield_step\<^sup>*\<^sup>* (0, queue_new 1) (4, sample_queue)"
proof -
  have "shield_step\<^sup>*\<^sup>* (0, queue_new 1) (Suc (Suc (Suc (Suc 0))), sample_queue)"
    unfolding sample_queue_def by (meson rtranclp.rtrancl_refl rtranclp.rtrancl_into_rtrancl step_take)
  then show ?thesis by (simp add: numeral_eq_Suc)
qed


end
