(* ===== verification/Store.thy ===== *)
theory Store
  imports C_Strings
begin

text \<open>
  The replicated store of \<open>level4\<close>: the encoding of actions (\<open>db/action.go\<close>), the rows computed from the
  log (\<open>db/db.go\<close>, \<open>db/row.go\<close>) and the handler of an update (\<open>server/server.go\<close>).  The raft package is not
  part of the repository; \<open>s.do\<close>, which submits an action to it, is an argument of the handler.  A Go
  string is the list of its bytes; a panic is \<open>None\<close>.
\<close>

section \<open>Actions\<close>

record action =
  rowId :: u32
  inc :: byte
  favoriteWord :: "byte list"

definition NewAction :: "u32 \<Rightarrow> byte \<Rightarrow> byte list \<Rightarrow> action" where
  "NewAction r i w = \<lparr>rowId = r, inc = i, favoriteWord = w\<rparr>"

text \<open>The writer does not fail; the length is truncated to a byte.\<close>

definition action_encode :: "action \<Rightarrow> byte list" where
  "action_encode a =
     bytes_be32 (rowId a) @ [inc a] @ [of_nat (length (favoriteWord a))] @ favoriteWord a"

text \<open>The action that is read and the bytes that are left; \<open>None\<close> when the reader ends early.\<close>

definition action_decode :: "byte list \<Rightarrow> (action \<times> byte list) option" where
  "action_decode r =
     (if length r < 4 then None
      else let row = be32 (take 4 r); r = drop 4 r
           in case r of
             [] \<Rightarrow> None
           | i # r \<Rightarrow>
               (case r of
                  [] \<Rightarrow> None
                | strLen # r \<Rightarrow>
                    if length r < unat strLen then None
                    else Some (NewAction row i (take (unat strLen) r), drop (unat strLen) r)))"

section \<open>The database\<close>

record row =
  row_name :: "byte list"
  friendCount :: u32
  requestCount :: u32
  row_word :: "byte list"

definition rowCount :: nat where "rowCount = 5"

definition rowNames :: "byte list list" where
  "rowNames = [ascii ''siddarth'', ascii ''gdb'', ascii ''christian'', ascii ''andy'', ascii ''carl'']"

definition row_format :: "row \<Rightarrow> byte list" where
  "row_format r = row_name r @ [124] @ decimal (unat (friendCount r)) @ [124] @
     decimal (unat (requestCount r)) @ [124] @ row_word r"

text \<open>\<open>SetNames\<close>: the names a client inserts are only compared; \<open>False\<close> is an error.\<close>

definition SetNames :: "byte list list \<Rightarrow> bool" where
  "SetNames names \<longleftrightarrow> length names = rowCount \<and> (\<forall>i < length names. rowNames ! i = names ! i)"

definition apply_action :: "action \<Rightarrow> row list \<Rightarrow> row list option" where
  "apply_action a rows =
     (let k = unat (rowId a)
      in if length rows \<le> k then None
         else let r = rows ! k;
                  r = r\<lparr>friendCount := friendCount r + ucast (inc a)\<rparr>;
                  r = (if 0 < inc a then r\<lparr>requestCount := requestCount r + 1\<rparr> else r);
                  r = r\<lparr>row_word := favoriteWord a\<rparr>
              in Some (rows[k := r]))"

primrec apply_actions :: "action list \<Rightarrow> row list \<Rightarrow> row list option" where
  "apply_actions [] rows = Some rows"
| "apply_actions (a # as) rows = Option.bind (apply_action a rows) (apply_actions as)"

definition empty_rows :: "row list" where
  "empty_rows = map (\<lambda>name. \<lparr>row_name = name, friendCount = 0, requestCount = 0, row_word = []\<rparr>) rowNames"

text \<open>A slice past the end of the log holds null pointers or is out of range: both panic.\<close>

definition db_Get :: "int \<Rightarrow> action list \<Rightarrow> row list option" where
  "db_Get index log =
     (if 0 \<le> index then if int (length log) < index then None else apply_actions (take (nat index) log) empty_rows
      else apply_actions log empty_rows)"

definition db_Put :: "action \<Rightarrow> action list \<Rightarrow> action list \<times> nat" where
  "db_Put a log = (log @ [a], length (log @ [a]))"

datatype 'a waiting = Wait | Ready 'a

definition GetWhenReady :: "nat \<Rightarrow> action list \<Rightarrow> row list option waiting" where
  "GetWhenReady index log = (if index \<le> length log then Ready (db_Get (int index) log) else Wait)"

section \<open>Updates\<close>

text \<open>
  \<open>strconv.ParseUint(s, 0, 8)\<close> on a string of decimal digits: a leading zero selects base eight.
\<close>

fun parse_digits :: "nat \<Rightarrow> byte list \<Rightarrow> nat \<Rightarrow> nat option" where
  "parse_digits base [] n = Some n"
| "parse_digits base (c # s) n =
     (let d = unat (c - 48) in if base \<le> d then None else parse_digits base s (n * base + d))"

definition ParseUint8 :: "byte list \<Rightarrow> byte option" where
  "ParseUint8 s =
     (case (if 1 < length s \<and> hd s = 48 then parse_digits 8 (tl s) 0 else parse_digits 10 s 0) of
        None \<Rightarrow> None
      | Some n \<Rightarrow> if 255 < n then None else Some (of_nat n))"

datatype response = Bad_request | Internal_error | Body "byte list"

fun join_lines :: "byte list list \<Rightarrow> byte list" where
  "join_lines [] = []"
| "join_lines [l] = l"
| "join_lines (l # ls) = l @ [10] @ join_lines ls"

primrec find_row :: "byte list \<Rightarrow> nat \<Rightarrow> byte list list \<Rightarrow> nat option" where
  "find_row name i [] = None"
| "find_row name i (n # ns) = (if n = name then Some i else find_row name (i + 1) ns)"

text \<open>
  \<open>do\<close> gives the index at which the action was applied, or an error, and the log as it is when the
  handler reads it; \<open>Wait\<close> is a handler that still waits for the log to grow.
\<close>

definition updateHandler ::
  "(action \<Rightarrow> nat option \<times> action list) \<Rightarrow> byte list \<Rightarrow> byte \<Rightarrow> byte list \<Rightarrow> response option waiting" where
  "updateHandler do name i word =
     (case find_row name 0 rowNames of
        None \<Rightarrow> Ready (Some Bad_request)
      | Some k \<Rightarrow>
          (case do (NewAction (of_nat k) i word) of
             (None, _) \<Rightarrow> Ready (Some Internal_error)
           | (Some index, log) \<Rightarrow>
               (case GetWhenReady index log of
                  Wait \<Rightarrow> Wait
                | Ready None \<Rightarrow> Ready None
                | Ready (Some rows) \<Rightarrow>
                    let number = ascii ''SequenceNumber: '' @ decimal (index - 1) @ [10]
                    in Ready (Some (Body (if 0 < i then number @ join_lines (map row_format rows) @ [10] else number))))))"

text \<open>The dispatch of a query whose submatches the regular expressions have found.\<close>

datatype query = Update "byte list" "byte list" "byte list" | Insert | Unknown

definition sqlHandler :: "(action \<Rightarrow> nat option \<times> action list) \<Rightarrow> query \<Rightarrow> response option waiting" where
  "sqlHandler do q =
     (case q of
        Update count word name \<Rightarrow>
          (case ParseUint8 count of
             None \<Rightarrow> Ready (Some Bad_request)
           | Some i \<Rightarrow> updateHandler do name i word)
      | Insert \<Rightarrow> updateHandler do (ascii ''gdb'') 0 []
      | Unknown \<Rightarrow> Ready (Some Bad_request))"

section \<open>What the rows are\<close>

definition row_actions :: "nat \<Rightarrow> action list \<Rightarrow> action list" where
  "row_actions k log = filter (\<lambda>a. unat (rowId a) = k) log"

definition row_spec :: "nat \<Rightarrow> action list \<Rightarrow> row" where
  "row_spec k log =
     (let as = row_actions k log
      in \<lparr>row_name = rowNames ! k,
          friendCount = of_nat (sum_list (map (\<lambda>a. unat (inc a)) as)),
          requestCount = of_nat (length (filter (\<lambda>a. 0 < inc a) as)),
          row_word = (if as = [] then [] else favoriteWord (last as))\<rparr>)"

definition log_ok :: "action list \<Rightarrow> bool" where
  "log_ok log \<longleftrightarrow> (\<forall>a \<in> set log. unat (rowId a) < rowCount)"

lemma apply_actions_append:
  "apply_actions (as @ bs) rows = Option.bind (apply_actions as rows) (apply_actions bs)"
proof (induction as arbitrary: rows)
  case (Cons a as)
  then show ?case by (cases "apply_action a rows") simp_all
qed simp

definition bump :: "action \<Rightarrow> row \<Rightarrow> row" where
  "bump a r = r\<lparr>friendCount := friendCount r + ucast (inc a),
     requestCount := requestCount r + (if 0 < inc a then 1 else 0), row_word := favoriteWord a\<rparr>"

lemma apply_action_bump:
  "unat (rowId a) < length rows \<Longrightarrow> apply_action a rows = Some (rows[unat (rowId a) := bump a (rows ! unat (rowId a))])"
  by (simp add: apply_action_def Let_def bump_def)

lemma row_spec_other: "unat (rowId a) \<noteq> k \<Longrightarrow> row_spec k (log @ [a]) = row_spec k log"
  by (simp add: row_spec_def row_actions_def)

lemma row_spec_same: "unat (rowId a) = k \<Longrightarrow> row_spec k (log @ [a]) = bump a (row_spec k log)"
  by (simp add: row_spec_def row_actions_def bump_def Let_def)

lemma apply_spec:
  assumes "log_ok (log @ [a])"
  shows "apply_action a (map (\<lambda>k. row_spec k log) [0..<rowCount]) = Some (map (\<lambda>k. row_spec k (log @ [a])) [0..<rowCount])"
proof -
  have k: "unat (rowId a) < rowCount" using assms by (simp add: log_ok_def)
  have "(map (\<lambda>k. row_spec k log) [0..<rowCount])[unat (rowId a) := bump a (row_spec (unat (rowId a)) log)] =
      map (\<lambda>k. row_spec k (log @ [a])) [0..<rowCount]"
    (is "?l = ?r")
  proof (rule nth_equalityI)
    fix i
    assume "i < length ?l"
    then show "?l ! i = ?r ! i"
      by (cases "unat (rowId a) = i") (simp_all add: row_spec_same row_spec_other)
  qed simp
  then show ?thesis using k by (simp add: apply_action_bump)
qed

lemma apply_actions_spec:
  "log_ok log \<Longrightarrow> apply_actions log empty_rows = Some (map (\<lambda>k. row_spec k log) [0..<rowCount])"
proof (induction log rule: rev_induct)
  case Nil
  have "map (\<lambda>k. row_spec k []) [0..<rowCount] = empty_rows"
    by (simp add: empty_rows_def row_spec_def row_actions_def rowCount_def rowNames_def upt_rec)
  then show ?case by simp
next
  case (snoc a log)
  then have "log_ok log" by (simp add: log_ok_def)
  with snoc show ?case by (simp add: apply_actions_append apply_spec)
qed

lemma db_Get_spec:
  assumes "log_ok log" "index \<le> length log"
  shows "db_Get (int index) log = Some (map (\<lambda>k. row_spec k (take index log)) [0..<rowCount])"
proof -
  have "log_ok (take index log)" using assms(1) by (auto simp: log_ok_def dest: in_set_takeD)
  then show ?thesis using assms(2) by (simp add: db_Get_def apply_actions_spec)
qed

lemma find_row_nth: "find_row name i ns = Some k \<Longrightarrow> i \<le> k \<and> k - i < length ns \<and> ns ! (k - i) = name"
proof (induction ns arbitrary: i)
  case (Cons n ns)
  show ?case
  proof (cases "n = name")
    case False
    with Cons have "Suc i \<le> k \<and> k - Suc i < length ns \<and> ns ! (k - Suc i) = name" by simp
    then show ?thesis by (auto simp: nth_Cons' Suc_diff_Suc)
  qed (use Cons.prems in auto)
qed simp

section \<open>Properties\<close>

text \<open>
  (C16) The decoder reads back what the encoder wrote, and leaves the bytes that follow, for every word of
  at most 255 bytes; of a longer word it gets the first bytes, as many as the length modulo 256 says,
  and the rest is taken for the next action.
\<close>

theorem action_roundtrip:
  "action_decode (action_encode a @ rest) =
     (let n = length (favoriteWord a) mod 256
      in Some (a\<lparr>favoriteWord := take n (favoriteWord a)\<rparr>, drop n (favoriteWord a) @ rest)) \<and>
   (length (favoriteWord a) < 256 \<longrightarrow> action_decode (action_encode a @ rest) = Some (a, rest))"
proof -
  let ?w = "favoriteWord a"
  have n: "unat (of_nat (length ?w) :: byte) = length ?w mod 256" by (simp add: unat_of_nat)
  have le: "length ?w mod 256 \<le> length ?w" by simp
  have "action_decode (action_encode a @ rest) =
      Some (NewAction (rowId a) (inc a) (take (length ?w mod 256) ?w), drop (length ?w mod 256) ?w @ rest)"
    using le by (simp add: action_decode_def action_encode_def Let_def n)
  then show ?thesis by (simp add: NewAction_def Let_def)
qed

theorem action_roundtrip_witness:
  "action_decode (action_encode \<lparr>rowId = 3, inc = 7, favoriteWord = [97, 98]\<rparr> @ [1, 2]) =
     Some (\<lparr>rowId = 3, inc = 7, favoriteWord = [97, 98]\<rparr>, [1, 2])"
  using action_roundtrip [of "\<lparr>rowId = 3, inc = 7, favoriteWord = [97, 98]\<rparr>" "[1, 2]"] by simp

text \<open>
  (C25) An update is answered from the log up to its own action: when \<open>do\<close> has applied the action after
  others and more actions have followed, the response carries the sequence number of the action and
  the rows of the log that ends with it, each with the sum of the increments, the number of positive ones and
  the last word of its actions.
\<close>

theorem store_update_correct:
  assumes "find_row name 0 rowNames = Some k" "0 < i"
    and "\<And>a. do a = (Some (length (before @ [a])), before @ [a] @ after)" "log_ok before" "log_ok after"
  shows "updateHandler do name i word =
    Ready (Some (Body (ascii ''SequenceNumber: '' @ decimal (length before) @ [10] @
      join_lines (map (\<lambda>j. row_format (row_spec j (before @ [NewAction (of_nat k) i word]))) [0..<rowCount]) @ [10])))"
proof -
  let ?a = "NewAction (of_nat k) i word"
  have "k < 5" using find_row_nth [OF assms(1)] by (simp add: rowNames_def)
  then have "unat (of_nat k :: u32) = k" by (simp add: unat_of_nat)
  then have ok: "log_ok (before @ [?a] @ after)"
    using assms(4,5) \<open>k < 5\<close> by (auto simp: log_ok_def NewAction_def rowCount_def)
  have "GetWhenReady (length (before @ [?a])) (before @ [?a] @ after) =
      Ready (Some (map (\<lambda>j. row_spec j (before @ [?a])) [0..<rowCount]))"
    using db_Get_spec [OF ok, of "length (before @ [?a])"] by (simp add: GetWhenReady_def)
  then show ?thesis using assms(1-3) by (simp add: updateHandler_def Let_def o_def)
qed

definition sample_do :: "action \<Rightarrow> nat option \<times> action list" where
  "sample_do a = (Some (length ([NewAction 1 2 [97]] @ [a])), [NewAction 1 2 [97]] @ [a] @ [NewAction 1 5 [99]])"

theorem store_update_correct_witness:
  "updateHandler sample_do (ascii ''gdb'') 3 [98] = Ready (Some (Body (ascii ''SequenceNumber: 1'' @ [10] @
     join_lines [ascii ''siddarth|0|0|'', ascii ''gdb|5|2|b'', ascii ''christian|0|0|'', ascii ''andy|0|0|'', ascii ''carl|0|0|''] @ [10])))"
proof -
  have "find_row (ascii ''gdb'') 0 rowNames = Some 1" by (simp add: rowNames_def ascii_def)
  from store_update_correct [OF this, of 3 sample_do "[NewAction 1 2 [97]]" "[NewAction 1 5 [99]]" "[98]"]
  show ?thesis
    by (simp add: sample_do_def log_ok_def NewAction_def rowCount_def upt_rec row_spec_def row_actions_def row_format_def
        rowNames_def decimal.simps ascii_def)
qed

end
