(* ===== verification/Spec2Isabelle.thy ===== *)
theory Spec2Isabelle
  imports Coin Benchmark Naive Bloom Oid_Shorten Delta_Index Miner Pqueue Vector Shield Store
begin

text \<open>
  A verification library for the repository: a miner that searches git commits whose SHA-1 id is small, in C
  and CUDA, with the parts of the bundled libgit2 that it rests on, and three smaller programs.  This
  theory only collects the others; each of them opens with a summary of its model.

  \<^bold>\<open>The program and its parts.\<close>  The miner (\<open>level1\<close>) runs two threads.  The main thread resets the
  repository when there are updates, lays out a commit object in a 256-byte buffer (\<open>prepare_index\<close>), lets a hasher change
  eight bytes of it until the SHA-1 digest starts with 36 zero bits (\<open>force_hash\<close>, which runs the kernel of \<open>sha1.cu\<close>), and
  commits the result (\<open>commit_result\<close>).  The worker thread pushes commits and looks for updates.  libgit2 names
  the object with its own SHA-1 and writes it.  The theories follow these parts:

  \<^item> \<open>Prelude\<close>, \<open>C_Strings\<close>: words, byte lists, buffers, C strings and characters, the comparison interface.
  \<^item> \<open>Sha1_Spec\<close>, \<open>Sha1_Vectors\<close>: SHA-1 as in the standard, and its evaluation on concrete blocks.
  \<^item> \<open>Sha1_Kernel\<close>: \<open>level1/src/sha1.cu\<close>; one definition per group of unrolled rounds, the device state as a record.
  \<^item> \<open>Level1_Common\<close>: \<open>common.c\<close>, \<open>common.h\<close>.
  \<^item> \<open>Cuda_Hasher\<close>: \<open>cuda.c\<close>.
  \<^item> \<open>Naive\<close>: the mask and the search of a worker thread of \<open>naive.c\<close>.
  \<^item> \<open>Benchmark\<close>: \<open>benchmark.c\<close>.
  \<^item> \<open>Miner\<close>: the threads and the signal handler of \<open>level1.c\<close> as step relations.
  \<^item> \<open>Level1_Main\<close>: its operations.
  \<^item> \<open>Sha1_Generic\<close>: libgit2's \<open>hash_generic.c\<close>, \<open>hash.c\<close>.
  \<^item> \<open>Odb\<close>: \<open>object.c\<close>, \<open>odb.c\<close>.
  \<^item> \<open>Oid\<close>, \<open>Oid_Shorten\<close>: \<open>oid.c\<close>.
  \<^item> \<open>Delta_Apply\<close>, \<open>Delta\<close>, \<open>Delta_Correct\<close>, \<open>Delta_Index\<close>: \<open>delta-apply.c\<close>, \<open>delta.c\<close>.
  \<^item> \<open>Pqueue\<close>: \<open>pqueue.c\<close>.
  \<^item> \<open>Util\<close>: \<open>util.c\<close>.
  \<^item> \<open>Tsort\<close>, \<open>Tsort_Correct\<close>: \<open>tsort.c\<close>.
  \<^item> \<open>Vector\<close>: \<open>vector.c\<close>, which sorts with the one and searches with \<open>util.c\<close>.
  \<^item> \<open>Coin\<close>: a whole round of the miner, from \<open>prepare_index\<close> through \<open>force_hash\<close> to \<open>commit_result\<close>.
  \<^item> \<open>Bloom\<close>: the spelling checker of \<open>level0\<close> and the program that builds its filter.
  \<^item> \<open>Shield\<close>: the queue of the proxy \<open>level2/shield\<close>.
  \<^item> \<open>Store\<close>: the store of \<open>level4\<close>.

  \<^bold>\<open>Conventions.\<close>  Machine integers are words of their width, buffers are lists of bytes and pointers into them
  offsets.  An access outside an array, a null pointer and a panic are \<open>None\<close> or an error value, \<open>exit\<close> is
  \<open>Inl\<close>.  Return codes of calls outside the repository (CUDA runtime, OpenSSL, the shell, the clock,
  \<open>realloc\<close>, raft) are arguments; what is assumed of them is a named hypothesis: \<open>sha1_stream\<close> (the streaming
  interface of OpenSSL is SHA-1), \<open>cuda_ok\<close> (no CUDA call fails).  Signed overflow wraps.

  \<^bold>\<open>What is shown.\<close>  The unrolled kernel and libgit2's block function are the compression function of the
  standard, and the order of the GPU threads does not matter.  The search is sound, complete for the first launch
  that has a solution, and can always be stopped.  The search of a CPU worker is sound, and complete within all values of its counter.  The prepared buffer is a padded commit that parses
  back, and a round that finds a nonce makes a commit whose id is below the target.  Without signals every
  commit is pushed once and in order; the locks exclude and do not deadlock; with a signal a null commit may be pushed
  or the program hang.  Ids and deltas survive their round trips, the heap, the binary search and the merge sort
  are correct, a vector is searched correctly after any sequence of operations, the filter has no false negatives.  Several theorems show what goes wrong at a
  boundary: reads past a buffer, an undetected overflow, a store into a vector that truncates it.

  \<^bold>\<open>Interfaces.\<close>  \<open>sha1_block\<close> and \<open>sha1_stream\<close> are what the hashers need of a SHA-1 implementation; libgit2's is
  the instance.  \<open>approximate_set\<close> is the contract of the filter, \<open>prefix_codec\<close> that of header lines, \<open>strict_weak\<close> that of
  orders, \<open>comparison\<close> that of three-way comparisons (libgit2's string comparison is the instance), \<open>kept\<close> that of an invariant of a step relation.

  \<^bold>\<open>Fuel.\<close>  \<open>force_hash\<close> carries fuel, one unit for each launch, and \<open>force_worker\<close>, one for each nonce: the code has no bound.  \<open>force_hash_complete\<close>,
  \<open>force_hash_stops\<close> and \<open>force_worker_correct\<close> state the fuel that is enough.  All other loops are total functions.  The bound of
  4096 elements for the sort is what a stack of 128 runs of at least 32 elements holds.

  \<^bold>\<open>Not modelled.\<close>  The OpenCL hasher (\<open>gpgpu.c\<close>, \<open>kernel.cl\<close>), which the Makefile does not
  build; how the threads of \<open>naive.c\<close>, not built either, hand over a solution, since they use mutexes in ways that POSIX leaves
  undefined; the search server of \<open>level3\<close> and the network code of \<open>level4\<close>, which are calls of libraries
  outside the repository; the rest of libgit2 and libssh2, which the miner reaches only through calls whose
  results are arguments here; printing, memory release and timing of real devices.
\<close>

end
